(* ===== verification/Aesd_Prelude.thy ===== *)
theory Aesd_Prelude
  imports Main "HOL-Library.Word"
begin

text \<open>
  The vocabulary the component theories share: the machine types of the LP64 targets the
  programs are built for, the outcome of running a piece of C, the bounded history
  \<open>lastn\<close>, and the generic facts on words and lists the component proofs use.
\<close>

type_synonym u8 = "8 word"
type_synonym u32 = "32 word"
type_synonym u64 = "64 word"
type_synonym s32 = "32 word"
type_synonym s64 = "64 word"

named_theorems ring_simps "unfolding rules of the circular buffer and its abstraction"

definition newline :: char where
  "newline = CHR 0x0A"

subsection \<open>Outcomes\<close>

text \<open>
  \<open>Done r\<close>: the function returned \<open>r\<close>. \<open>Fault\<close>: it touched memory that is not a live
  object (an oops in the kernel, undefined behaviour in user space). \<open>Hang\<close>: a loop of it
  never ends.
\<close>

datatype 'a outcome = Done 'a | Fault | Hang

fun and_then :: "'a outcome \<Rightarrow> ('a \<Rightarrow> 'b outcome) \<Rightarrow> 'b outcome" where
  "and_then (Done a) f = f a"
| "and_then Fault f = Fault"
| "and_then Hang f = Hang"

lemma and_then_assoc: "and_then (and_then x f) g = and_then x (\<lambda>a. and_then (f a) g)"
  by (cases x) simp_all

fun_cases and_then_DoneE: "and_then x f = Done b"

lemma and_then_Done_iff [simp]:
  "and_then x f = Done b \<longleftrightarrow> (\<exists>a. x = Done a \<and> f a = Done b)"
  by (cases x) auto

subsection \<open>The last elements of a list\<close>

definition lastn :: "nat \<Rightarrow> 'a list \<Rightarrow> 'a list" where
  "lastn k xs = drop (length xs - k) xs"

lemma lastn_all [simp]: "length xs \<le> k \<Longrightarrow> lastn k xs = xs"
  by (simp add: lastn_def)

lemma length_lastn [simp]: "length (lastn k xs) = min k (length xs)"
  by (simp add: lastn_def)

lemma lastn_snoc_full: "length xs = k \<Longrightarrow> 0 < k \<Longrightarrow> lastn k (xs @ [x]) = tl xs @ [x]"
  by (cases xs) (auto simp: lastn_def)

lemma lastn_lastn_append: "lastn k (lastn k xs @ ys) = lastn k (xs @ ys)"
proof (cases "length xs \<le> k")
  case False
  then have "length xs - k + k = length xs" by simp
  then show ?thesis
    by (auto simp: lastn_def intro!: arg_cong2 [where f = drop])
qed simp

lemma map_lastn: "map f (lastn k xs) = lastn k (map f xs)"
  by (simp add: lastn_def drop_map)

lemma set_lastn_subset: "set (lastn k xs) \<subseteq> set xs"
  by (simp add: lastn_def set_drop_subset)

lemma distinct_lastn: "distinct xs \<Longrightarrow> distinct (lastn k xs)"
  by (simp add: lastn_def)

subsection \<open>Words\<close>

lemma unat_of_nat_small: "n < 2 ^ LENGTH('a) \<Longrightarrow> unat (of_nat n :: 'a::len word) = n"
  by (simp add: unat_of_nat)

lemma unat_add_small:
  "unat a + unat b < 2 ^ LENGTH('a) \<Longrightarrow> unat (a + b :: 'a::len word) = unat a + unat b"
  by (simp add: unat_word_ariths)

lemma of_nat_unat_diff: "b \<le> a \<Longrightarrow> (of_nat (unat a - unat b) :: 'a::len word) = a - b"
  by (simp add: of_nat_diff word_le_nat_alt)

lemma scast_ucast_int:
  assumes "unat (x :: u64) < 2 ^ 31"
  shows "scast (ucast x :: s32) = x"
proof -
  have "uint x < 2 ^ 31"
    using assms by (metis of_nat_less_iff of_nat_numeral of_nat_power uint_nat)
  moreover have "- (2 ^ 31) \<le> uint x"
    by (rule order_trans [of _ 0]) simp_all
  ultimately have "sint (ucast x :: s32) = uint x"
    by (simp add: signed_ucast_eq signed_take_bit_int_eq_self_iff)
  then show ?thesis
    by (simp add: scast_eq)
qed

lemma sum_list_le: "\<forall>s \<in> set ss. s \<le> c \<Longrightarrow> sum_list ss \<le> length ss * (c :: nat)"
  by (induction ss) auto

lemma unat_diff_le: "b \<le> a \<Longrightarrow> unat (a - b :: 'a::len word) = unat a - unat b"
  by (simp add: unat_sub)

end
