(* ===== verification/Circular_Buffer.thy ===== *)
theory Circular_Buffer
  imports Aesd_Prelude
begin

text \<open>
  The ring of the last ten write commands: \<^verbatim>\<open>aesd-circular-buffer.h\<close> and
  \<^verbatim>\<open>aesd-circular-buffer.c\<close>.
\<close>

section \<open>The data and the operations\<close>

definition AESDCHAR_MAX_WRITE_OPERATIONS_SUPPORTED :: nat where
  "AESDCHAR_MAX_WRITE_OPERATIONS_SUPPORTED = 10"

type_synonym ptr = u64

record aesd_buffer_entry =
  buffptr :: ptr
  esize :: u64

record aesd_circular_buffer =
  entry :: "aesd_buffer_entry list"
  in_offs :: u8
  out_offs :: u8
  full :: bool
  total_size :: u8

definition zero_entry :: aesd_buffer_entry where
  "zero_entry = \<lparr>buffptr = 0, esize = 0\<rparr>"

definition aesd_circular_buffer_init :: aesd_circular_buffer where
  "aesd_circular_buffer_init =
     \<lparr>entry = replicate AESDCHAR_MAX_WRITE_OPERATIONS_SUPPORTED zero_entry,
      in_offs = 0, out_offs = 0, full = False, total_size = 0\<rparr>"

partial_function (option) find_loop ::
    "aesd_circular_buffer \<Rightarrow> u64 \<Rightarrow> u8 \<Rightarrow> bool \<Rightarrow> u64 \<Rightarrow> u64 \<Rightarrow> (u8 \<times> u64) option option" where
  "find_loop b char_offset i wrap_around total_size_seen offset =
     (if i \<le> of_nat AESDCHAR_MAX_WRITE_OPERATIONS_SUPPORTED then
        (let at_end = (i = of_nat AESDCHAR_MAX_WRITE_OPERATIONS_SUPPORTED);
             i = (if at_end then 0 else i);
             wrap_around = (if at_end then True else wrap_around)
         in if wrap_around \<and> i = out_offs b then Some None
            else
              (let total_size_seen = total_size_seen + esize (entry b ! unat i)
               in if char_offset < total_size_seen then Some (Some (i, char_offset - offset))
                  else find_loop b char_offset (i + 1) wrap_around total_size_seen
                         (offset + esize (entry b ! unat i))))
      else Some None)"

definition aesd_circular_buffer_find_entry_offset_for_fpos ::
    "aesd_circular_buffer \<Rightarrow> u64 \<Rightarrow> (u8 \<times> u64) option option" where
  "aesd_circular_buffer_find_entry_offset_for_fpos b char_offset =
     find_loop b char_offset (out_offs b) False 0 0"

definition aesd_circular_buffer_add_entry ::
    "aesd_circular_buffer \<Rightarrow> aesd_buffer_entry \<Rightarrow> aesd_circular_buffer outcome" where
  "aesd_circular_buffer_add_entry b add_entry =
     (let b = (if full b then
                 (let b = b\<lparr>out_offs := out_offs b + 1\<rparr>
                  in if out_offs b = of_nat AESDCHAR_MAX_WRITE_OPERATIONS_SUPPORTED
                     then b\<lparr>out_offs := 0\<rparr> else b)
               else b)
      in if unat (in_offs b) < length (entry b) then
           (let b = b\<lparr>entry := (entry b)[unat (in_offs b) := add_entry]\<rparr>;
                b = b\<lparr>in_offs := in_offs b + 1\<rparr>;
                b = b\<lparr>total_size := total_size b + ucast (esize add_entry)\<rparr>
            in Done (if in_offs b = of_nat AESDCHAR_MAX_WRITE_OPERATIONS_SUPPORTED
                     then b\<lparr>in_offs := out_offs b, full := True\<rparr> else b))
         else Fault)"


function AESD_CIRCULAR_BUFFER_FOREACH ::
    "(aesd_buffer_entry \<Rightarrow> 's \<Rightarrow> 's outcome) \<Rightarrow> aesd_circular_buffer \<Rightarrow> u8 \<Rightarrow> 's \<Rightarrow> 's outcome" where
  "AESD_CIRCULAR_BUFFER_FOREACH body b index s =
     (if index < of_nat AESDCHAR_MAX_WRITE_OPERATIONS_SUPPORTED
      then and_then (body (entry b ! unat index) s)
             (AESD_CIRCULAR_BUFFER_FOREACH body b (index + 1))
      else Done s)"
  by pat_completeness auto
termination
proof (relation "measure (\<lambda>(body, b, index, s). 10 - unat index)", simp_all)
  fix index :: u8
  assume "index < of_nat AESDCHAR_MAX_WRITE_OPERATIONS_SUPPORTED"
  then have "unat index < 10"
    by (simp add: word_less_nat_alt AESDCHAR_MAX_WRITE_OPERATIONS_SUPPORTED_def)
  then show "10 - unat (index + 1) < 10 - unat index"
    by (simp add: unat_add_small)
qed

declare AESD_CIRCULAR_BUFFER_FOREACH.simps [simp del]

section \<open>What the ring holds\<close>

definition slots :: nat where
  "slots = AESDCHAR_MAX_WRITE_OPERATIONS_SUPPORTED"

lemma slots_eq [simp]: "slots = 10" "AESDCHAR_MAX_WRITE_OPERATIONS_SUPPORTED = 10"
  by (simp_all add: slots_def AESDCHAR_MAX_WRITE_OPERATIONS_SUPPORTED_def)

definition ring_slots :: "aesd_circular_buffer \<Rightarrow> aesd_buffer_entry list" where
  "ring_slots b = drop (unat (out_offs b)) (entry b) @ take (unat (out_offs b)) (entry b)"

definition ring_cmds :: "aesd_circular_buffer \<Rightarrow> aesd_buffer_entry list" where
  "ring_cmds b = (if full b then ring_slots b else take (unat (in_offs b)) (entry b))"

definition rb_inv :: "aesd_circular_buffer \<Rightarrow> bool" where
  "rb_inv b \<longleftrightarrow> length (entry b) = slots \<and> unat (in_offs b) < slots \<and> unat (out_offs b) < slots \<and>
     (if full b then in_offs b = out_offs b
      else out_offs b = 0 \<and>
           drop (unat (in_offs b)) (entry b) = replicate (slots - unat (in_offs b)) zero_entry)"

declare ring_slots_def [ring_simps] ring_cmds_def [ring_simps] rb_inv_def [ring_simps]
  aesd_circular_buffer_init_def [ring_simps]

lemma rb_invD:
  assumes "rb_inv b"
  shows "length (entry b) = 10" "unat (in_offs b) < 10" "unat (out_offs b) < 10"
    "full b \<Longrightarrow> in_offs b = out_offs b" "\<not> full b \<Longrightarrow> out_offs b = 0"
    "\<not> full b \<Longrightarrow> drop (unat (in_offs b)) (entry b) = replicate (10 - unat (in_offs b)) zero_entry"
  using assms by (auto simp: rb_inv_def)

lemma rb_inv_init [simp]: "rb_inv aesd_circular_buffer_init"
  by (simp add: ring_simps)

lemma ring_cmds_init [simp]: "ring_cmds aesd_circular_buffer_init = []"
  by (simp add: ring_simps)

lemma length_ring_cmds:
  assumes "rb_inv b"
  shows "length (ring_cmds b) = (if full b then 10 else unat (in_offs b))"
  using rb_invD(1,2,3) [OF assms] by (simp add: ring_cmds_def ring_slots_def)

lemma ring_slots_cmds:
  assumes "rb_inv b"
  shows "ring_slots b = ring_cmds b @ replicate (10 - length (ring_cmds b)) zero_entry"
proof (cases "full b")
  case False
  have "ring_slots b = take (unat (in_offs b)) (entry b) @ drop (unat (in_offs b)) (entry b)"
    using rb_invD(5) [OF assms False] by (simp add: ring_slots_def)
  also have "\<dots> = ring_cmds b @ replicate (10 - unat (in_offs b)) zero_entry"
    unfolding rb_invD(6) [OF assms False] using False by (simp add: ring_cmds_def)
  finally show ?thesis
    using assms False by (simp add: length_ring_cmds)
qed (use assms in \<open>simp add: length_ring_cmds\<close>, simp add: ring_cmds_def)

lemma ring_slots_nth:
  assumes "rb_inv b" and "k < 10"
  shows "ring_slots b ! k = entry b ! ((unat (out_offs b) + k) mod 10)"
proof -
  have "(unat (out_offs b) + k) mod 10
      = (if k < 10 - unat (out_offs b) then unat (out_offs b) + k else k - (10 - unat (out_offs b)))"
    using assms(2) rb_invD(3) [OF assms(1)] by (auto simp: mod_if)
  with assms rb_invD(1,3) [OF assms(1)] show ?thesis
    by (auto simp: ring_slots_def nth_append)
qed

lemma ring_cmds_nth:
  assumes "rb_inv b" and "k < length (ring_cmds b)"
  shows "ring_cmds b ! k = entry b ! ((unat (out_offs b) + k) mod 10)"
proof -
  have "k < 10"
    using assms rb_invD(2) [OF assms(1)] by (simp add: length_ring_cmds split: if_splits)
  then have "ring_slots b ! k = entry b ! ((unat (out_offs b) + k) mod 10)"
    using assms(1) by (rule ring_slots_nth [rotated])
  with assms show ?thesis
    by (simp add: ring_slots_cmds nth_append)
qed

lemma find_slot:
  assumes "rb_inv b" and "k < length (ring_cmds b)"
  shows "entry b ! unat (of_nat ((unat (out_offs b) + k) mod 10) :: u8) = ring_cmds b ! k"
  using assms by (simp add: ring_cmds_nth unat_of_nat)

section \<open>Adding an entry\<close>

lemma u8_inc: "unat (w :: u8) < 10 \<Longrightarrow> unat (w + 1) = unat w + 1"
  by (rule trans [OF unat_add_small]) auto

lemma u8_less_9: "unat (w :: u8) < 10 \<Longrightarrow> w \<noteq> 9 \<Longrightarrow> unat w < 9"
proof (rule ccontr)
  assume "unat w < 10" and "w \<noteq> 9" and "\<not> unat w < 9"
  then have "unat w = 9" by simp
  then have "(of_nat (unat w) :: u8) = 9" by (simp only: of_nat_numeral)
  with \<open>w \<noteq> 9\<close> show False by simp
qed

lemma add_entry_eq:
  assumes "rb_inv b"
  shows "aesd_circular_buffer_add_entry b e = Done
    (let out = (if full b then (if out_offs b = 9 then 0 else out_offs b + 1) else 0)
     in b\<lparr>entry := (entry b)[unat (in_offs b) := e],
          in_offs := (if in_offs b = 9 then out else in_offs b + 1),
          out_offs := out, full := full b \<or> in_offs b = 9,
          total_size := total_size b + ucast (esize e)\<rparr>)"
  using rb_invD(1-5) [OF assms]
  by (cases "full b"; cases "in_offs b = 9"; cases b)
    (simp_all add: aesd_circular_buffer_add_entry_def Let_def)

lemma take_Suc_update: "n < length xs \<Longrightarrow> take (Suc n) (xs[n := x]) = take n xs @ [x]"
  by (simp add: take_Suc_conv_app_nth)

lemma drop_Suc_replicate: "drop n xs = replicate k x \<Longrightarrow> drop (Suc n) xs = replicate (k - 1) x"
  by (metis drop_Suc tl_drop tl_replicate)

lemma tl_rotate:
  "n < length xs \<Longrightarrow> tl (drop n xs @ take n xs) = drop (Suc n) xs @ take n xs"
  by (simp add: Cons_nth_drop_Suc [symmetric])

lemma add_entry_not_full:
  assumes inv: "rb_inv b" and nf: "\<not> full b"
  shows "\<exists>b'. aesd_circular_buffer_add_entry b e = Done b' \<and> rb_inv b' \<and>
    ring_cmds b' = ring_cmds b @ [e] \<and> total_size b' = total_size b + ucast (esize e)"
proof (cases "in_offs b = 9")
  case True
  with rb_invD(1-3) [OF inv] nf take_Suc_update [of 9 "entry b" e] show ?thesis
    by (simp add: add_entry_eq [OF inv] rb_inv_def ring_cmds_def ring_slots_def)
next
  case False
  with rb_invD(1-3) [OF inv] drop_Suc_replicate [OF rb_invD(6) [OF inv nf]] nf
    u8_less_9 [OF rb_invD(2) [OF inv]]
  show ?thesis
    by (simp add: add_entry_eq [OF inv] u8_inc rb_inv_def ring_cmds_def take_Suc_update)
qed

lemma add_entry_full:
  assumes inv: "rb_inv b" and f: "full b"
  shows "\<exists>b'. aesd_circular_buffer_add_entry b e = Done b' \<and> rb_inv b' \<and>
    ring_cmds b' = tl (ring_cmds b) @ [e] \<and> total_size b' = total_size b + ucast (esize e)"
proof (cases "out_offs b = 9")
  case True
  with rb_invD(1-4) [OF inv] f take_Suc_update [of 9 "entry b" e] tl_rotate [of 9 "entry b"]
  show ?thesis
    by (simp add: add_entry_eq [OF inv] rb_inv_def ring_cmds_def ring_slots_def)
next
  case False
  with rb_invD(1-4) [OF inv] f u8_less_9 [OF rb_invD(3) [OF inv]] tl_rotate [of _ "entry b"]
  show ?thesis
    by (simp add: add_entry_eq [OF inv] u8_inc rb_inv_def ring_cmds_def ring_slots_def take_Suc_update)
qed


lemma add_entry_ok:
  assumes inv: "rb_inv b"
  obtains b' where "aesd_circular_buffer_add_entry b e = Done b'" "rb_inv b'"
    "ring_cmds b' = lastn slots (ring_cmds b @ [e])"
    "total_size b' = total_size b + ucast (esize e)"
proof (cases "full b")
  case True
  then have "lastn slots (ring_cmds b @ [e]) = tl (ring_cmds b) @ [e]"
    using length_ring_cmds [OF inv] by (intro lastn_snoc_full) simp_all
  with add_entry_full [OF inv True, of e] that show ?thesis by auto
next
  case False
  then have "lastn slots (ring_cmds b @ [e]) = ring_cmds b @ [e]"
    using length_ring_cmds [OF inv] rb_invD(2) [OF inv] by (intro lastn_all) simp
  with add_entry_not_full [OF inv False, of e] that show ?thesis by auto
qed

section \<open>Searching by file position\<close>

fun walk :: "aesd_circular_buffer \<Rightarrow> u64 \<Rightarrow> nat list \<Rightarrow> u64 \<Rightarrow> u64 \<Rightarrow> (u8 \<times> u64) option" where
  "walk b off [] seen start = None"
| "walk b off (n # ns) seen start =
     (if off < seen + esize (entry b ! n) then Some (of_nat n, off - start)
      else walk b off ns (seen + esize (entry b ! n)) (start + esize (entry b ! n)))"

lemma of_nat_u8_le_10: "n \<le> 10 \<Longrightarrow> (of_nat n :: u8) \<le> 10"
  by (simp add: word_le_nat_alt unat_of_nat)

lemma of_nat_u8_less_10: "n < 10 \<Longrightarrow> (of_nat n :: u8) < 10"
  by (simp add: word_less_nat_alt unat_of_nat)

lemma of_nat_u8_eq_iff: "n \<le> 10 \<Longrightarrow> m \<le> 10 \<Longrightarrow> (of_nat n :: u8) = of_nat m \<longleftrightarrow> n = m"
  by (simp add: word_unat_eq_iff unat_of_nat)

lemma find_loop_step:
  assumes "n < 10" and "\<not> (w \<and> of_nat n = out_offs b)"
  shows "find_loop b off (of_nat n) w seen start =
    (if off < seen + esize (entry b ! n) then Some (Some (of_nat n, off - start))
     else find_loop b off (of_nat (Suc n)) w
            (seen + esize (entry b ! n)) (start + esize (entry b ! n)))"
  using assms of_nat_u8_le_10 [of n] of_nat_u8_eq_iff [of n 10]
  by (subst find_loop.simps) (auto simp: Let_def unat_of_nat ac_simps)

lemma find_loop_second_pass:
  assumes "n \<le> out" and "out < 10" and "out_offs b = of_nat out"
  shows "find_loop b off (of_nat n) True seen start = Some (walk b off [n..<out] seen start)"
  using assms(1)
proof (induction "out - n" arbitrary: n seen start)
  case 0
  then have "n = out" by simp
  with assms of_nat_u8_le_10 [of n] of_nat_u8_eq_iff [of n 10] show ?case
    by (subst find_loop.simps) (simp add: Let_def)
next
  case (Suc d)
  then have "n < out" by simp
  with Suc.hyps(2) assms(2,3) of_nat_u8_eq_iff [of n out] Suc.hyps(1) [of "Suc n"] show ?case
    by (subst find_loop_step) (auto simp: upt_conv_Cons simp del: of_nat_Suc)
qed

lemma find_loop_first_pass:
  assumes "n \<le> 10" and "out < 10" and "out_offs b = of_nat out"
  shows "find_loop b off (of_nat n) False seen start
    = Some (walk b off ([n..<10] @ [0..<out]) seen start)"
  using assms(1)
proof (induction "10 - n" arbitrary: n seen start)
  case 0
  then have n: "n = 10" by simp
  have "find_loop b off 10 False seen start = find_loop b off 0 True seen start"
    by (subst (1 2) find_loop.simps) (simp add: Let_def)
  with n find_loop_second_pass [of 0 out b off seen start] assms(2,3) show ?case
    by simp
next
  case (Suc d)
  then have "n < 10" by simp
  with Suc.hyps(2) Suc.hyps(1) [of "Suc n"] show ?case
    by (subst find_loop_step) (auto simp: upt_conv_Cons simp del: of_nat_Suc)
qed

lemma find_walk:
  assumes "unat (out_offs b) < 10"
  shows "aesd_circular_buffer_find_entry_offset_for_fpos b off =
    Some (walk b off ([unat (out_offs b)..<10] @ [0..<unat (out_offs b)]) 0 0)"
  using assms find_loop_first_pass [of "unat (out_offs b)" "unat (out_offs b)" b off 0 0]
  by (simp add: aesd_circular_buffer_find_entry_offset_for_fpos_def)


text \<open>The specification: which of the pieces of the given lengths holds position \<open>off\<close> of
  their concatenation, and where in it.\<close>

fun seek_entry :: "nat list \<Rightarrow> nat \<Rightarrow> (nat \<times> nat) option" where
  "seek_entry [] off = None"
| "seek_entry (s # ss) off =
     (if off < s then Some (0, off) else map_option (map_prod Suc id) (seek_entry ss (off - s)))"

lemma seek_entry_None: "seek_entry ss off = None \<longleftrightarrow> sum_list ss \<le> off"
  by (induction ss off rule: seek_entry.induct) auto

lemma seek_entry_SomeD:
  "seek_entry ss off = Some (k, r) \<Longrightarrow>
     k < length ss \<and> r < ss ! k \<and> off = sum_list (take k ss) + r"
proof (induction ss off arbitrary: k r rule: seek_entry.induct)
  case (2 s ss off)
  then show ?case by (cases k) (auto split: if_splits)
qed simp

lemma seek_entry_SomeI:
  "k < length ss \<Longrightarrow> r < ss ! k \<Longrightarrow> seek_entry ss (sum_list (take k ss) + r) = Some (k, r)"
proof (induction ss arbitrary: k)
  case (Cons s ss)
  then show ?case by (cases k) auto
qed simp

lemma seek_entry_zeros: "seek_entry (ss @ replicate m 0) off = seek_entry ss off"
proof (induction ss off rule: seek_entry.induct)
  case (1 off)
  then show ?case by (simp add: seek_entry_None sum_list_replicate)
qed auto

lemma seek_entry_concat:
  "seek_entry (map length xss) off = Some (k, r) \<Longrightarrow>
     drop off (concat xss) = drop r (xss ! k) @ concat (drop (Suc k) xss)"
proof (induction xss arbitrary: off k)
  case (Cons xs xss)
  then show ?case by (cases k) (auto split: if_splits)
qed simp

lemma walk_seek:
  assumes "unat seen + sum_list (map (\<lambda>n. unat (esize (entry b ! n))) ns) < 2 ^ 64"
    and "unat seen \<le> unat off"
  shows "walk b off ns seen seen =
    map_option (\<lambda>(k, r). (of_nat (ns ! k), of_nat r))
      (seek_entry (map (\<lambda>n. unat (esize (entry b ! n))) ns) (unat off - unat seen))"
  using assms
proof (induction ns arbitrary: seen)
  case (Cons n ns)
  let ?s = "esize (entry b ! n)"
  have sum: "unat (seen + ?s) = unat seen + unat ?s"
    using Cons.prems(1) by (intro unat_add_small) simp
  have hit: "off < seen + ?s \<longleftrightarrow> unat off - unat seen < unat ?s"
    using Cons.prems(2) sum by (auto simp: word_less_nat_alt)
  show ?case
  proof (cases "off < seen + ?s")
    case True
    have "off - seen = of_nat (unat off - unat seen)"
      using Cons.prems(2) by (simp add: of_nat_diff)
    with True hit show ?thesis by simp
  next
    case False
    with hit sum Cons.prems have "unat (seen + ?s) \<le> unat off" by simp
    with Cons.IH [of "seen + ?s"] Cons.prems(1) sum False hit show ?thesis
      by (simp add: map_option.compositionality comp_def split_def diff_diff_left add.assoc)
  qed
qed simp

lemma map_slot_order:
  assumes "rb_inv b"
  shows "map (\<lambda>n. f (entry b ! n)) ([unat (out_offs b)..<10] @ [0..<unat (out_offs b)])
    = map f (ring_slots b)"
  using rb_invD(1,3) [OF assms]
  by (auto simp: ring_slots_def list_eq_iff_nth_eq nth_append)

lemma nth_slot_order:
  "out < 10 \<Longrightarrow> k < 10 \<Longrightarrow> ([out..<10] @ [0..<out]) ! k = (out + k) mod 10"
  by (auto simp: nth_append mod_if)

abbreviation cmd_sizes :: "aesd_circular_buffer \<Rightarrow> nat list" where
  "cmd_sizes b \<equiv> map (\<lambda>e. unat (esize e)) (ring_cmds b)"

lemma slot_sizes_cmds:
  "rb_inv b \<Longrightarrow> map (\<lambda>e. unat (esize e)) (ring_slots b)
     = cmd_sizes b @ replicate (10 - length (ring_cmds b)) 0"
  by (simp add: ring_slots_cmds zero_entry_def)

lemma find_seek:
  assumes inv: "rb_inv b" and small: "sum_list (cmd_sizes b) < 2 ^ 64"
  shows "aesd_circular_buffer_find_entry_offset_for_fpos b off =
    Some (map_option (\<lambda>(k, r). (of_nat ((unat (out_offs b) + k) mod 10), of_nat r))
      (seek_entry (cmd_sizes b) (unat off)))"
proof -
  let ?ns = "[unat (out_offs b)..<10] @ [0..<unat (out_offs b)]"
  have sizes: "map (\<lambda>n. unat (esize (entry b ! n))) ?ns
      = cmd_sizes b @ replicate (10 - length (ring_cmds b)) 0"
    using map_slot_order [OF inv, of "\<lambda>e. unat (esize e)"] slot_sizes_cmds [OF inv] by simp
  have "walk b off ?ns 0 0 = map_option (\<lambda>(k, r). (of_nat (?ns ! k), of_nat r))
      (seek_entry (cmd_sizes b) (unat off))"
    using walk_seek [of 0 b ?ns off] small unfolding sizes seek_entry_zeros
    by (simp add: sum_list_replicate)
  also have "\<dots> = map_option (\<lambda>(k, r). (of_nat ((unat (out_offs b) + k) mod 10), of_nat r))
      (seek_entry (cmd_sizes b) (unat off))"
    using length_ring_cmds [OF inv] rb_invD(2,3) [OF inv]
    by (intro option.map_cong refl)
      (auto simp: nth_slot_order dest!: seek_entry_SomeD split: if_splits)
  finally show ?thesis
    by (simp add: find_walk rb_invD(3) [OF inv])
qed


lemma find_returns:
  assumes "out_offs b \<noteq> 10"
  shows "\<exists>r. aesd_circular_buffer_find_entry_offset_for_fpos b off = Some r"
proof (cases "unat (out_offs b) < 10")
  case True
  then show ?thesis by (simp add: find_walk)
next
  case False
  with assms have "\<not> out_offs b \<le> 10"
    by (auto simp: word_le_nat_alt word_unat_eq_iff)
  then show ?thesis
    by (simp add: aesd_circular_buffer_find_entry_offset_for_fpos_def find_loop.simps [of b off "out_offs b"])
qed

lemma find_loop_hangs:
  assumes ret: "find_loop b off i w seen start = Some r"
  shows "\<not> (out_offs b = 10 \<and> length (entry b) = 10 \<and> (\<forall>e \<in> set (entry b). esize e = 0) \<and>
    seen = 0 \<and> i \<le> 10)"
proof (rule find_loop.raw_induct [OF _ ret])
  fix loop b off i w seen start r
  assume IH: "\<And>b off i w seen start r. loop b off i w seen start = Some r \<Longrightarrow>
      \<not> (out_offs b = 10 \<and> length (entry b) = 10 \<and> (\<forall>e \<in> set (entry b). esize e = 0) \<and>
        seen = 0 \<and> i \<le> 10)"
    and eq: "(if i \<le> of_nat AESDCHAR_MAX_WRITE_OPERATIONS_SUPPORTED then
        (let at_end = (i = of_nat AESDCHAR_MAX_WRITE_OPERATIONS_SUPPORTED);
             i = (if at_end then 0 else i);
             w = (if at_end then True else w)
         in if w \<and> i = out_offs b then Some None
            else (let seen = seen + esize (entry b ! unat i)
               in if off < seen then Some (Some (i, off - start))
                  else loop b off (i + 1) w seen (start + esize (entry b ! unat i))))
      else Some None) = Some r"
  show "\<not> (out_offs b = 10 \<and> length (entry b) = 10 \<and> (\<forall>e \<in> set (entry b). esize e = 0) \<and>
    seen = 0 \<and> i \<le> 10)"
  proof
    assume H: "out_offs b = 10 \<and> length (entry b) = 10 \<and> (\<forall>e \<in> set (entry b). esize e = 0) \<and>
      seen = 0 \<and> i \<le> 10"
    define j where "j = (if i = 10 then 0 else i)"
    have lt: "unat j < 10"
      using H by (auto simp: j_def word_le_nat_alt word_unat_eq_iff)
    then have "j \<noteq> 10" and zero: "esize (entry b ! unat j) = 0" and "j + 1 \<le> 10"
      using H by (auto simp: word_le_nat_alt u8_inc)
    with eq H have "loop b off (j + 1) (if i = 10 then True else w) 0 start = Some r"
      by (simp add: j_def Let_def split: if_splits)
    with IH H \<open>j + 1 \<le> 10\<close> show False by blast
  qed
qed

lemma foreach_fold:
  assumes "length (entry b) = 10" and "n \<le> 10"
  shows "AESD_CIRCULAR_BUFFER_FOREACH body b (of_nat n) s
    = foldl (\<lambda>s e. and_then s (body e)) (Done s) (drop n (entry b))"
  using assms(2)
proof (induction "10 - n" arbitrary: n s)
  case 0
  then show ?case
    using assms(1) by (subst AESD_CIRCULAR_BUFFER_FOREACH.simps) simp
next
  case (Suc d)
  then have n: "n < 10" by simp
  have stop: "foldl (\<lambda>s e. and_then s (body e)) Fault es = Fault"
    "foldl (\<lambda>s e. and_then s (body e)) Hang es = Hang" for es
    by (induction es) auto
  have "AESD_CIRCULAR_BUFFER_FOREACH body b (of_nat n) s
      = and_then (body (entry b ! n) s) (AESD_CIRCULAR_BUFFER_FOREACH body b (of_nat (Suc n)))"
    using n by (subst AESD_CIRCULAR_BUFFER_FOREACH.simps)
      (simp add: of_nat_u8_less_10 unat_of_nat add.commute)
  also have "\<dots> = foldl (\<lambda>s e. and_then s (body e)) (body (entry b ! n) s) (drop (Suc n) (entry b))"
    using n Suc.hyps(1) [of "Suc n"] Suc.hyps(2) stop by (cases "body (entry b ! n) s") simp_all
  finally show ?case
    using n assms(1) by (simp add: Cons_nth_drop_Suc [symmetric])
qed

lemma foreach_entries:
  assumes "length (entry b) = 10"
  shows "AESD_CIRCULAR_BUFFER_FOREACH body b 0 s
    = foldl (\<lambda>s e. and_then s (body e)) (Done s) (entry b)"
  using foreach_fold [OF assms, of 0 body s] by simp

text \<open>Adding a sequence of entries, one call after another.\<close>

fun add_all :: "('b \<Rightarrow> 'e \<Rightarrow> 'b outcome) \<Rightarrow> 'b \<Rightarrow> 'e list \<Rightarrow> 'b outcome" where
  "add_all add b [] = Done b"
| "add_all add b (e # es) = and_then (add b e) (\<lambda>b. add_all add b es)"

section \<open>The interface the driver relies on\<close>

locale command_ring =
  fixes inv :: "'b \<Rightarrow> bool"
    and cmds :: "'b \<Rightarrow> 'e list"
    and capacity :: nat
    and init :: 'b
    and add :: "'b \<Rightarrow> 'e \<Rightarrow> 'b outcome"
    and cmd_size :: "'e \<Rightarrow> nat"
    and counter :: "'b \<Rightarrow> u8"
  assumes inv_init: "inv init"
    and cmds_init: "cmds init = []"
    and counter_init: "counter init = 0"
    and add: "inv b \<Longrightarrow> \<exists>b'. add b e = Done b' \<and> inv b' \<and> cmds b' = lastn capacity (cmds b @ [e]) \<and>
      counter b' = counter b + of_nat (cmd_size e)"
begin

lemma add_all_history:
  assumes "inv b" and "length (cmds b) \<le> capacity"
  shows "\<exists>b'. add_all add b es = Done b' \<and> inv b' \<and> cmds b' = lastn capacity (cmds b @ es) \<and>
    counter b' = counter b + of_nat (sum_list (map cmd_size es))"
  using assms
proof (induction es arbitrary: b)
  case (Cons e es)
  obtain b1 where b1: "add b e = Done b1" "inv b1" "cmds b1 = lastn capacity (cmds b @ [e])"
    "counter b1 = counter b + of_nat (cmd_size e)"
    using add [OF Cons.prems(1)] by blast
  with Cons.IH [of b1] show ?case
    by (simp add: lastn_lastn_append add.assoc)
qed simp

lemma history_from_init:
  "\<exists>b. add_all add init es = Done b \<and> inv b \<and> cmds b = lastn capacity es \<and>
     counter b = of_nat (sum_list (map cmd_size es))"
  using add_all_history [OF inv_init, of es] by (simp add: cmds_init counter_init)

lemma counter_wraps:
  "add_all add init es = Done b \<Longrightarrow> unat (counter b) = sum_list (map cmd_size es) mod 256"
  using history_from_init [of es] by (auto simp: unat_of_nat)

end

locale seekable_ring = command_ring +
  fixes slot :: "'a \<Rightarrow> nat \<Rightarrow> u8"
    and find :: "'a \<Rightarrow> u64 \<Rightarrow> (u8 \<times> u64) option option"
  assumes find: "inv b \<Longrightarrow> sum_list (map cmd_size (cmds b)) < 2 ^ 64 \<Longrightarrow>
    find b off = Some (map_option (\<lambda>(k, r). (slot b k, of_nat r))
      (seek_entry (map cmd_size (cmds b)) (unat off)))"
begin

text \<open>Every position below the total is found in the command that holds it.\<close>

lemma find_hit:
  assumes "inv b" and "sum_list (map cmd_size (cmds b)) < 2 ^ 64"
    and "k < length (cmds b)" and "r < cmd_size (cmds b ! k)"
    and "unat off = sum_list (take k (map cmd_size (cmds b))) + r"
  shows "find b off = Some (Some (slot b k, of_nat r))"
  using seek_entry_SomeI [of k "map cmd_size (cmds b)" r] assms(3-5) by (simp add: find [OF assms(1,2)])

lemma find_miss:
  assumes "inv b" and "sum_list (map cmd_size (cmds b)) < 2 ^ 64"
    and "sum_list (map cmd_size (cmds b)) \<le> unat off"
  shows "find b off = Some None"
  using assms(3) by (simp add: find [OF assms(1,2)] flip: seek_entry_None)

end

interpretation ring: seekable_ring rb_inv ring_cmds slots aesd_circular_buffer_init
  aesd_circular_buffer_add_entry "\<lambda>e. unat (esize e)" total_size
  "\<lambda>b k. of_nat ((unat (out_offs b) + k) mod 10)"
  aesd_circular_buffer_find_entry_offset_for_fpos
proof (unfold_locales, goal_cases)
  case (4 b e)
  then show ?case by (rule add_entry_ok [of b e]) simp
next
  case 3
  show ?case by (simp add: aesd_circular_buffer_init_def)
qed (simp_all add: find_seek)

end
