(* ===== verification/Kernel_Api.thy ===== *)
theory Kernel_Api
  imports Circular_Buffer
begin

text \<open>
  Kernel memory as the driver sees it, and the kernel's services as parameters.
  The services are not part of the repository: they are the fields of a record \<open>kernel\<close>
  that every handler of the driver takes as an argument. What the handlers rely on is stated
  as one named law per service, taken from the kernel's documentation; a theorem names the laws
  it uses.
\<close>

section \<open>Memory\<close>

text \<open>
  A live allocation is a base pointer with its bytes; a pointer that is not live is mapped to
  \<open>None\<close>. \<open>krealloc\<close> answers a request for 0 bytes with \<open>ZERO_SIZE_PTR\<close>, which is
  neither \<open>NULL\<close> nor live.
\<close>

type_synonym kheap = "ptr \<rightharpoonup> string"

definition ZERO_SIZE_PTR :: ptr where
  "ZERO_SIZE_PTR = 16"

definition heap_ok :: "kheap \<Rightarrow> bool" where
  "heap_ok h \<longleftrightarrow> h 0 = None \<and> h ZERO_SIZE_PTR = None \<and>
     (\<forall>bs \<in> ran h. length bs < 2 ^ 31)"

definition blk :: "kheap \<Rightarrow> ptr \<Rightarrow> string" where
  "blk h p = (case h p of None \<Rightarrow> [] | Some bs \<Rightarrow> bs)"

definition load_byte :: "kheap \<Rightarrow> ptr \<Rightarrow> u64 \<Rightarrow> char outcome" where
  "load_byte h p i = (if unat i < length (blk h p) then Done (blk h p ! unat i) else Fault)"

definition load_bytes :: "kheap \<Rightarrow> ptr \<Rightarrow> u64 \<Rightarrow> u64 \<Rightarrow> string outcome" where
  "load_bytes h p i n =
     (if n = 0 then Done []
      else if unat i + unat n \<le> length (blk h p)
      then Done (take (unat n) (drop (unat i) (blk h p))) else Fault)"

definition store_bytes :: "kheap \<Rightarrow> ptr \<Rightarrow> u64 \<Rightarrow> string \<Rightarrow> kheap outcome" where
  "store_bytes h p i bs =
     (if bs = [] then Done h
      else if unat i + length bs \<le> length (blk h p)
      then Done (h(p \<mapsto> take (unat i) (blk h p) @ bs @ drop (unat i + length bs) (blk h p)))
      else Fault)"

section \<open>The kernel's services\<close>

record kfile =
  private_data :: ptr
  f_pos :: s64

record aesd_seekto =
  write_cmd :: u32
  write_cmd_offset :: u32

record kernel =
  krealloc :: "kheap \<Rightarrow> ptr \<Rightarrow> u64 \<Rightarrow> ptr \<times> kheap"
  kfree :: "kheap \<Rightarrow> ptr \<Rightarrow> kheap"
  copy_from_user :: "string \<Rightarrow> u64 \<Rightarrow> u64 \<times> string"
  copy_to_user :: "string \<Rightarrow> u64 \<Rightarrow> u64 \<times> string"
  copy_seekto_from_user :: "aesd_seekto \<Rightarrow> u64 \<times> aesd_seekto"
  mutex_lock_interruptible :: "bool \<Rightarrow> s32 \<times> bool"
  mutex_unlock :: "bool \<Rightarrow> bool"
  fixed_size_llseek :: "kfile \<Rightarrow> s64 \<Rightarrow> s32 \<Rightarrow> s64 \<Rightarrow> s64 \<times> kfile"
  IOWR :: "u32 \<Rightarrow> u32 \<Rightarrow> u32 \<Rightarrow> u32"
  MAJOR :: "u32 \<Rightarrow> u32"
  MKDEV :: "u32 \<Rightarrow> u32 \<Rightarrow> u32"
  alloc_chrdev_region :: "u32 set \<Rightarrow> u32 \<Rightarrow> s32 \<times> u32 \<times> u32 set"
  unregister_chrdev_region :: "u32 set \<Rightarrow> u32 \<Rightarrow> u32 set"
  cdev_add :: "u32 set \<Rightarrow> u32 \<Rightarrow> s32 \<times> u32 set"
  cdev_del :: "u32 set \<Rightarrow> u32 \<Rightarrow> u32 set"

definition lock_law :: "kernel \<Rightarrow> bool" where
  "lock_law K \<longleftrightarrow>
     (\<forall>held rc held'. mutex_lock_interruptible K held = (rc, held') \<longrightarrow>
        (if rc = 0 then held' else held' = held)) \<and>
     (\<forall>held. \<not> mutex_unlock K held)"

definition copy_from_user_law :: "kernel \<Rightarrow> bool" where
  "copy_from_user_law K \<longleftrightarrow>
     (\<forall>src n rest bs. length src = unat n \<longrightarrow> copy_from_user K src n = (rest, bs) \<longrightarrow>
        rest \<le> n \<and> length bs = unat n \<and>
        take (unat n - unat rest) bs = take (unat n - unat rest) src)"

definition copy_to_user_law :: "kernel \<Rightarrow> bool" where
  "copy_to_user_law K \<longleftrightarrow>
     (\<forall>src n rest bs. length src = unat n \<longrightarrow> copy_to_user K src n = (rest, bs) \<longrightarrow>
        rest \<le> n \<and> bs = take (unat n - unat rest) src)"

definition copy_seekto_law :: "kernel \<Rightarrow> bool" where
  "copy_seekto_law K \<longleftrightarrow>
     (\<forall>src rest dst. copy_seekto_from_user K src = (rest, dst) \<longrightarrow> rest = 0 \<longrightarrow> dst = src)"

definition krealloc_law :: "kernel \<Rightarrow> bool" where
  "krealloc_law K \<longleftrightarrow>
     (\<forall>h p n q h'. heap_ok h \<longrightarrow> p = 0 \<or> p = ZERO_SIZE_PTR \<or> p \<in> dom h \<longrightarrow>
        krealloc K h p n = (q, h') \<longrightarrow>
        (if n = 0 then q = ZERO_SIZE_PTR \<and> h' = h(p := None)
         else q = 0 \<and> h' = h \<or>
              unat n < 2 ^ 31 \<and> q \<noteq> 0 \<and> q \<noteq> ZERO_SIZE_PTR \<and> (q = p \<or> q \<notin> dom h) \<and>
              (\<exists>junk. length (take (unat n) (blk h p) @ junk) = unat n \<and>
                 h' = (h(p := None))(q \<mapsto> take (unat n) (blk h p) @ junk))))"

definition kfree_law :: "kernel \<Rightarrow> bool" where
  "kfree_law K \<longleftrightarrow> (\<forall>h p. kfree K h p = h(p := None))"

definition llseek_law :: "kernel \<Rightarrow> bool" where
  "llseek_law K \<longleftrightarrow>
     (\<forall>f off whence sz ret f'. fixed_size_llseek K f off whence sz = (ret, f') \<longrightarrow>
        (let base = (if whence = 0 then Some 0 else if whence = 1 then Some (sint (f_pos f))
                     else if whence = 2 then Some (sint sz) else None)
         in case base of
              None \<Rightarrow> ret = - 22 \<and> f' = f
            | Some p \<Rightarrow>
                if 0 \<le> p + sint off \<and> p + sint off \<le> sint sz
                then sint ret = p + sint off \<and> f' = f\<lparr>f_pos := ret\<rparr>
                else ret = - 22 \<and> f' = f))"

definition chrdev_law :: "kernel \<Rightarrow> bool" where
  "chrdev_law K \<longleftrightarrow>
     (\<forall>regs minor rc dev regs'. alloc_chrdev_region K regs minor = (rc, dev, regs') \<longrightarrow>
        (if sint rc < 0 then regs' = regs
         else dev \<notin> regs \<and> regs' = insert dev regs \<and> MKDEV K (MAJOR K dev) minor = dev)) \<and>
     (\<forall>regs dev. unregister_chrdev_region K regs dev = regs - {dev}) \<and>
     (\<forall>cs dev rc cs'. cdev_add K cs dev = (rc, cs') \<longrightarrow>
        cs' = (if rc = 0 then insert dev cs else cs)) \<and>
     (\<forall>cs dev. cdev_del K cs dev = cs - {dev})"

end
