(* ===== verification/Char_Driver.thy ===== *)
theory Char_Driver
  imports Kernel_Api
begin

text \<open>
  The character driver, \<^verbatim>\<open>aesd-char-driver/main.c\<close> with \<^verbatim>\<open>aesdchar.h\<close>: one definition per file operation and
  per module entry point, statement by statement, over the device, the kernel heap and the device
  registrations. A handler that is given a file whose \<open>private_data\<close> is not the device faults. The
  sizes and offsets keep their width, so every sum wraps as in the code.
\<close>

section \<open>State\<close>

definition ERESTARTSYS :: s64 where "ERESTARTSYS = 512"
definition EINVAL :: s64 where "EINVAL = 22"
definition EFAULT :: s64 where "EFAULT = 14"
definition ENOTTY :: s64 where "ENOTTY = 25"

record aesd_dev =
  buffer :: aesd_circular_buffer
  dev_entry :: aesd_buffer_entry
  lock :: bool

record kstate =
  aesd_device :: aesd_dev
  dev_addr :: ptr
  heap :: kheap
  aesd_major :: u32
  aesd_minor :: u32
  chrdevs :: "u32 set"
  cdevs :: "u32 set"

section \<open>Opening, releasing, seeking\<close>

record inode =
  i_cdev :: ptr

definition aesd_open :: "u64 \<Rightarrow> inode \<Rightarrow> kfile \<Rightarrow> s32 \<times> kfile" where
  "aesd_open cdev_offset inode filp = (0, filp\<lparr>private_data := i_cdev inode - cdev_offset\<rparr>)"

definition aesd_release :: "inode \<Rightarrow> kfile \<Rightarrow> s32 \<times> kfile" where
  "aesd_release inode filp = (0, filp)"

definition aesd_llseek ::
    "kernel \<Rightarrow> kstate \<Rightarrow> kfile \<Rightarrow> s64 \<Rightarrow> s32 \<Rightarrow> (s64 \<times> kfile \<times> kstate) outcome" where
  "aesd_llseek K st filp offset whence =
     (if private_data filp \<noteq> dev_addr st then Fault
      else
        (let dev = aesd_device st;
             (rc, held) = mutex_lock_interruptible K (lock dev);
             dev = dev\<lparr>lock := held\<rparr>
         in if rc \<noteq> 0 then Done (- ERESTARTSYS, filp, st\<lparr>aesd_device := dev\<rparr>)
            else
              (let (file_pos, filp) =
                     fixed_size_llseek K filp offset whence (ucast (total_size (buffer dev)));
                   filp = filp\<lparr>f_pos := file_pos\<rparr>;
                   dev = dev\<lparr>lock := mutex_unlock K (lock dev)\<rparr>
               in Done (file_pos, filp, st\<lparr>aesd_device := dev\<rparr>))))"

function adjust_loop :: "aesd_circular_buffer \<Rightarrow> u32 \<Rightarrow> u32 \<Rightarrow> nat \<Rightarrow> s64 \<Rightarrow> s64" where
  "adjust_loop b cmd cmd_offset i total_len =
     (if i < AESDCHAR_MAX_WRITE_OPERATIONS_SUPPORTED then
        (if of_nat i = cmd then total_len + ucast cmd_offset
         else adjust_loop b cmd cmd_offset (Suc i) (total_len + esize (entry b ! i)))
      else total_len)"
  by pat_completeness auto
termination
  by (relation "measure (\<lambda>(b, c, off, i, t). AESDCHAR_MAX_WRITE_OPERATIONS_SUPPORTED - i)") auto

declare adjust_loop.simps [simp del]

definition aesd_adjust_file_offset ::
    "kstate \<Rightarrow> kfile \<Rightarrow> u32 \<Rightarrow> u32 \<Rightarrow> (s64 \<times> kfile) outcome" where
  "aesd_adjust_file_offset st filp cmd cmd_offset =
     (if private_data filp \<noteq> dev_addr st then Fault
      else
        (let b = buffer (aesd_device st)
         in if cmd \<ge> of_nat AESDCHAR_MAX_WRITE_OPERATIONS_SUPPORTED
            then Done (- EINVAL, filp)
            else if buffptr (entry b ! unat cmd) = 0 then Done (- EINVAL, filp)
            else if esize (entry b ! unat cmd) \<le> ucast cmd_offset
            then Done (- EINVAL, filp)
            else Done (0, filp\<lparr>f_pos := adjust_loop b cmd cmd_offset 0 0\<rparr>)))"

definition AESDCHAR_IOCSEEKTO :: "kernel \<Rightarrow> u32" where
  "AESDCHAR_IOCSEEKTO K = IOWR K 0x16 1 8"

definition aesd_ioctl ::
    "kernel \<Rightarrow> kstate \<Rightarrow> kfile \<Rightarrow> u32 \<Rightarrow> aesd_seekto \<Rightarrow> (s64 \<times> kfile \<times> kstate) outcome" where
  "aesd_ioctl K st filp cmd arg =
     (if private_data filp \<noteq> dev_addr st then Fault
      else
        (let dev = aesd_device st;
             (rc, held) = mutex_lock_interruptible K (lock dev);
             dev = dev\<lparr>lock := held\<rparr>
         in if rc \<noteq> 0 then Done (- ERESTARTSYS, filp, st\<lparr>aesd_device := dev\<rparr>)
            else
              and_then
                (if cmd = AESDCHAR_IOCSEEKTO K then
                   (let (rest, seekto) = copy_seekto_from_user K arg
                    in if rest \<noteq> 0 then Done (EFAULT, filp)
                       else aesd_adjust_file_offset st filp (write_cmd seekto) (write_cmd_offset seekto))
                 else Done (- ENOTTY, filp))
                (\<lambda>(retval, filp).
                   let dev = dev\<lparr>lock := mutex_unlock K (lock dev)\<rparr>
                   in Done (retval, filp, st\<lparr>aesd_device := dev\<rparr>))))"

section \<open>Reading\<close>

definition aesd_read ::
    "kernel \<Rightarrow> kstate \<Rightarrow> kfile \<Rightarrow> u64 \<Rightarrow> s64 \<Rightarrow> (s64 \<times> s64 \<times> string \<times> kstate) outcome" where
  "aesd_read K st filp count pos =
     (if private_data filp \<noteq> dev_addr st then Fault
      else
        (let dev = aesd_device st;
             (rc, held) = mutex_lock_interruptible K (lock dev);
             dev = dev\<lparr>lock := held\<rparr>;
             unlock = st\<lparr>aesd_device := dev\<lparr>lock := mutex_unlock K (lock dev)\<rparr>\<rparr>
         in if rc \<noteq> 0 then Done (- ERESTARTSYS, pos, [], st\<lparr>aesd_device := dev\<rparr>)
            else
              (case aesd_circular_buffer_find_entry_offset_for_fpos (buffer dev) pos of
                 None \<Rightarrow> Hang
               | Some None \<Rightarrow> Done (0, 0, [], unlock)
               | Some (Some (i, entry_offset_byte_rtn)) \<Rightarrow>
                   (let buffer_entry = entry (buffer dev) ! unat i;
                        num_of_writes = esize buffer_entry - entry_offset_byte_rtn;
                        num_of_writes = (if count < num_of_writes then count else num_of_writes)
                    in and_then
                         (load_bytes (heap st) (buffptr buffer_entry) entry_offset_byte_rtn num_of_writes)
                         (\<lambda>src.
                            let (rest, delivered) = copy_to_user K src num_of_writes;
                                not_copied = (ucast rest :: s32);
                                retval = num_of_writes - scast not_copied
                            in Done (retval, pos + retval, delivered, unlock))))))"

section \<open>Writing\<close>

lemma and_then_cong [fundef_cong]:
  "x = y \<Longrightarrow> (\<And>a. y = Done a \<Longrightarrow> f a = g a) \<Longrightarrow> and_then x f = and_then y g"
  by (cases y) auto

function write_loop :: "kheap \<Rightarrow> u64 \<Rightarrow> aesd_dev \<Rightarrow> aesd_dev outcome" where
  "write_loop h i dev =
     (if i < esize (dev_entry dev) then
        and_then (load_byte h (buffptr (dev_entry dev)) i) (\<lambda>c.
          if c = newline then
            and_then (aesd_circular_buffer_add_entry (buffer dev) (dev_entry dev)) (\<lambda>b.
              write_loop h (i + 1) (dev\<lparr>buffer := b, dev_entry := \<lparr>buffptr = 0, esize = 0\<rparr>\<rparr>))
          else write_loop h (i + 1) dev)
      else Done dev)"
  by pat_completeness auto
termination
proof (relation "measure (\<lambda>(h, i, dev). unat (esize (dev_entry dev)) - unat i)", simp_all)
  fix i :: u64 and dev :: aesd_dev
  assume "i < esize (dev_entry dev)"
  then show "unat (esize (dev_entry dev)) - unat (i + 1) < unat (esize (dev_entry dev)) - unat i"
    by unat_arith
next
  fix i :: u64 and dev :: aesd_dev
  assume "i < esize (dev_entry dev)"
  then show "unat i < unat (esize (dev_entry dev))"
    by (simp add: word_less_nat_alt)
qed

declare write_loop.simps [simp del]

definition aesd_write ::
    "kernel \<Rightarrow> kstate \<Rightarrow> kfile \<Rightarrow> string \<Rightarrow> u64 \<Rightarrow> s64 \<Rightarrow> (s64 \<times> s64 \<times> kstate) outcome" where
  "aesd_write K st filp buf count pos =
     (if private_data filp \<noteq> dev_addr st then Fault
      else
        (let dev = aesd_device st;
             (rc, held) = mutex_lock_interruptible K (lock dev);
             dev = dev\<lparr>lock := held\<rparr>
         in if rc \<noteq> 0 then Done (- ERESTARTSYS, pos, st\<lparr>aesd_device := dev\<rparr>)
            else
              (let (p, h) = krealloc K (heap st) (buffptr (dev_entry dev)) (esize (dev_entry dev) + count);
                   dev = dev\<lparr>dev_entry := (dev_entry dev)\<lparr>buffptr := p\<rparr>\<rparr>;
                   (num_not_copied, bs) = copy_from_user K buf count
               in and_then (store_bytes h p (esize (dev_entry dev)) bs) (\<lambda>h.
                    let retval = count - num_not_copied;
                        dev = dev\<lparr>dev_entry := (dev_entry dev)\<lparr>esize := esize (dev_entry dev) + retval\<rparr>\<rparr>
                    in and_then (write_loop h 0 dev) (\<lambda>dev.
                         let dev = dev\<lparr>lock := mutex_unlock K (lock dev)\<rparr>
                         in Done (retval, pos, st\<lparr>aesd_device := dev, heap := h\<rparr>))))))"

section \<open>Loading and unloading the module\<close>

definition zero_dev :: aesd_dev where
  "zero_dev = \<lparr>buffer = aesd_circular_buffer_init, dev_entry = zero_entry, lock = False\<rparr>"

definition aesd_setup_cdev :: "kernel \<Rightarrow> kstate \<Rightarrow> s32 \<times> kstate" where
  "aesd_setup_cdev K st =
     (let devno = MKDEV K (aesd_major st) (aesd_minor st);
          (err, cs) = cdev_add K (cdevs st) devno
      in (err, st\<lparr>cdevs := cs\<rparr>))"

definition aesd_init_module :: "kernel \<Rightarrow> kstate \<Rightarrow> s32 \<times> kstate" where
  "aesd_init_module K st =
     (let (result, dev, regs) = alloc_chrdev_region K (chrdevs st) (aesd_minor st);
          st = st\<lparr>chrdevs := regs, aesd_major := MAJOR K dev\<rparr>
      in if sint result < 0 then (result, st)
         else
           (let st = st\<lparr>aesd_device := zero_dev\<rparr>;
                st = st\<lparr>aesd_device := (aesd_device st)\<lparr>buffer := aesd_circular_buffer_init\<rparr>\<rparr>;
                st = st\<lparr>aesd_device := (aesd_device st)\<lparr>lock := False\<rparr>\<rparr>;
                (result, st) = aesd_setup_cdev K st
            in if result \<noteq> 0
               then (result, st\<lparr>chrdevs := unregister_chrdev_region K (chrdevs st) dev\<rparr>)
               else (result, st)))"

definition kfree_checked :: "kernel \<Rightarrow> ptr \<Rightarrow> kheap \<Rightarrow> kheap outcome" where
  "kfree_checked K p h =
     (if p = 0 \<or> p = ZERO_SIZE_PTR then Done h
      else if p \<in> dom h then Done (kfree K h p) else Fault)"

definition aesd_cleanup_module :: "kernel \<Rightarrow> kstate \<Rightarrow> kstate outcome" where
  "aesd_cleanup_module K st =
     (let devno = MKDEV K (aesd_major st) (aesd_minor st);
          st = st\<lparr>cdevs := cdev_del K (cdevs st) devno\<rparr>
      in and_then
           (AESD_CIRCULAR_BUFFER_FOREACH (\<lambda>e. kfree_checked K (buffptr e))
              (buffer (aesd_device st)) 0 (heap st))
           (\<lambda>h. Done (st\<lparr>heap := h,
                         chrdevs := unregister_chrdev_region K (chrdevs st) devno\<rparr>)))"

end
