(* ===== verification/Driver_Refinement.thy ===== *)
theory Driver_Refinement
  imports Char_Driver
begin

text \<open>
  The abstract device: the commands it stores and the bytes still pending, read off the ring and
  the heap by \<open>absdev\<close>, and the append operation \<open>dev_append\<close> on it. The invariant \<open>dev_inv\<close> says that
  every stored command owns a live block of its own that is long enough and holds a newline. The
  main lemma \<open>write_refines\<close> simulates \<open>aesd_write\<close> by \<open>dev_append\<close>.
\<close>

section \<open>What the device holds\<close>

record adev =
  a_cmds :: "string list"
  a_pend :: string

definition entry_bytes :: "kheap \<Rightarrow> aesd_buffer_entry \<Rightarrow> string" where
  "entry_bytes h e = take (unat (esize e)) (blk h (buffptr e))"

definition absdev :: "kstate \<Rightarrow> adev" where
  "absdev st =
     \<lparr>a_cmds = map (entry_bytes (heap st)) (ring_cmds (buffer (aesd_device st))),
      a_pend = entry_bytes (heap st) (dev_entry (aesd_device st))\<rparr>"

definition dev_append :: "adev \<Rightarrow> string \<Rightarrow> adev" where
  "dev_append a s =
     (if newline \<in> set (a_pend a @ s)
      then \<lparr>a_cmds = lastn 10 (a_cmds a @ [a_pend a @ s]), a_pend = []\<rparr>
      else a\<lparr>a_pend := a_pend a @ s\<rparr>)"

definition content :: "adev \<Rightarrow> string" where
  "content a = concat (a_cmds a)"

definition sized :: "kheap \<Rightarrow> aesd_buffer_entry \<Rightarrow> bool" where
  "sized h e \<longleftrightarrow> unat (esize e) \<le> length (blk h (buffptr e))"

definition ring_ptrs :: "kstate \<Rightarrow> ptr list" where
  "ring_ptrs st = map buffptr (ring_cmds (buffer (aesd_device st)))"

definition pend_ptr :: "kstate \<Rightarrow> ptr" where
  "pend_ptr st = buffptr (dev_entry (aesd_device st))"

definition dev_wf :: "kstate \<Rightarrow> bool" where
  "dev_wf st \<longleftrightarrow>
     rb_inv (buffer (aesd_device st)) \<and> heap_ok (heap st) \<and>
     set (ring_ptrs st) \<subseteq> dom (heap st) \<and> distinct (ring_ptrs st) \<and>
     (\<forall>e \<in> set (ring_cmds (buffer (aesd_device st))).
        sized (heap st) e \<and> newline \<in> set (entry_bytes (heap st) e)) \<and>
     (pend_ptr st \<in> {0, ZERO_SIZE_PTR} \<or> pend_ptr st \<in> dom (heap st)) \<and>
     pend_ptr st \<notin> set (ring_ptrs st) \<and>
     sized (heap st) (dev_entry (aesd_device st))"

definition dev_inv :: "kstate \<Rightarrow> bool" where
  "dev_inv st \<longleftrightarrow> dev_wf st \<and> \<not> lock (aesd_device st) \<and> newline \<notin> set (a_pend (absdev st))"

definition ready :: "kernel \<Rightarrow> kstate \<Rightarrow> kfile \<Rightarrow> bool" where
  "ready K st filp \<longleftrightarrow> private_data filp = dev_addr st \<and>
     fst (mutex_lock_interruptible K (lock (aesd_device st))) = 0"

subsection \<open>Facts on memory\<close>

lemma blk_None [simp]: "h p = None \<Longrightarrow> blk h p = []"
  by (simp add: blk_def)

lemma blk_upd [simp]: "blk (h(p \<mapsto> bs)) q = (if q = p then bs else blk h q)"
  by (simp add: blk_def)

lemma blk_upd_None [simp]: "blk (h(p := None)) q = (if q = p then [] else blk h q)"
  by (simp add: blk_def)

lemma blk_bound: "heap_ok h \<Longrightarrow> length (blk h p) < 2 ^ 31"
  by (auto simp: heap_ok_def blk_def ran_def split: option.split)

lemma sized_bound: "heap_ok h \<Longrightarrow> sized h e \<Longrightarrow> unat (esize e) < 2 ^ 31"
  using blk_bound [of h "buffptr e"] by (simp add: sized_def)

lemma length_entry_bytes: "sized h e \<Longrightarrow> length (entry_bytes h e) = unat (esize e)"
  by (simp add: entry_bytes_def sized_def)

lemma entry_bytes_upd [simp]:
  "buffptr e \<noteq> p \<Longrightarrow> entry_bytes (h(p := v)) e = entry_bytes h e"
  "buffptr e \<noteq> p \<Longrightarrow> sized (h(p := v)) e = sized h e"
  by (simp_all add: entry_bytes_def sized_def blk_def)

lemma heap_ok_upd:
  "heap_ok h \<Longrightarrow> p \<noteq> 0 \<Longrightarrow> p \<noteq> ZERO_SIZE_PTR \<Longrightarrow> length bs < 2 ^ 31 \<Longrightarrow> heap_ok (h(p \<mapsto> bs))"
  by (auto simp: heap_ok_def ran_def)

lemma heap_ok_del: "heap_ok h \<Longrightarrow> heap_ok (h(p := None))"
  by (auto simp: heap_ok_def ran_def)

subsection \<open>The scan for the newline\<close>

lemma write_loop_scan:
  assumes "sized h (dev_entry dev)" and "unat i \<le> unat (esize (dev_entry dev))"
  shows "write_loop h i dev =
    (if newline \<in> set (drop (unat i) (entry_bytes h (dev_entry dev)))
     then and_then (aesd_circular_buffer_add_entry (buffer dev) (dev_entry dev))
            (\<lambda>b. Done (dev\<lparr>buffer := b, dev_entry := zero_entry\<rparr>))
     else Done dev)"
  using assms(2)
proof (induction "unat (esize (dev_entry dev)) - unat i" arbitrary: i)
  case 0
  then have "\<not> i < esize (dev_entry dev)" and "drop (unat i) (entry_bytes h (dev_entry dev)) = []"
    using assms(1) by (simp_all add: word_less_nat_alt length_entry_bytes)
  then show ?case by (subst write_loop.simps) simp
next
  case (Suc d)
  let ?e = "dev_entry dev" and ?n = "unat i"
  from Suc.hyps(2) have lt: "?n < unat (esize ?e)" and inc: "unat (i + 1) = Suc ?n"
    by (simp, unat_arith)
  have bs: "drop ?n (entry_bytes h ?e) = blk h (buffptr ?e) ! ?n # drop (Suc ?n) (entry_bytes h ?e)"
    using lt assms(1) length_entry_bytes [OF assms(1)]
    by (subst Cons_nth_drop_Suc [symmetric]) (simp_all add: entry_bytes_def)
  have load: "load_byte h (buffptr ?e) i = Done (blk h (buffptr ?e) ! ?n)"
    using lt assms(1) by (simp add: load_byte_def sized_def)
  have stop: "write_loop h j (dev\<lparr>buffer := b, dev_entry := \<lparr>buffptr = 0, esize = 0\<rparr>\<rparr>)
      = Done (dev\<lparr>buffer := b, dev_entry := zero_entry\<rparr>)" for j b
    by (subst write_loop.simps) (simp add: zero_entry_def)
  from lt have "write_loop h i dev = (if blk h (buffptr ?e) ! ?n = newline
      then and_then (aesd_circular_buffer_add_entry (buffer dev) ?e)
             (\<lambda>b. Done (dev\<lparr>buffer := b, dev_entry := zero_entry\<rparr>))
      else write_loop h (i + 1) dev)"
    by (subst write_loop.simps) (simp add: word_less_nat_alt load stop)
  with Suc.hyps(1) [of "i + 1"] Suc.hyps(2) inc lt bs show ?case by auto
qed


subsection \<open>Growing the pending command\<close>

lemma grow_pending:
  assumes heap: "heap_ok h" "sized h e"
    and ptr: "buffptr e \<in> {0, ZERO_SIZE_PTR} \<or> buffptr e \<in> dom h"
    and laws: "krealloc_law K" "copy_from_user_law K"
    and user: "length buf = unat count" "unat count < 2 ^ 31"
    and grow: "krealloc K h (buffptr e) (esize e + count) = (q, h1)" "q \<noteq> 0"
    and copy: "copy_from_user K buf count = (rest, bs)"
  defines "h2 \<equiv> (if q = ZERO_SIZE_PTR then h(buffptr e := None)
                  else (h(buffptr e := None))(q \<mapsto> entry_bytes h e @ bs))"
    and "e' \<equiv> \<lparr>buffptr = q, esize = esize e + (count - rest)\<rparr>"
  shows "store_bytes h1 q (esize e) bs = Done h2" "heap_ok h2" "sized h2 e'"
    "entry_bytes h2 e' = entry_bytes h e @ take (unat (count - rest)) buf"
    "q = ZERO_SIZE_PTR \<or> q \<in> dom h2" "q = buffptr e \<or> q \<notin> dom h"
proof -
  let ?s = "unat (esize e)" and ?n = "esize e + count"
  have n: "unat ?n = ?s + unat count"
    using sized_bound [OF heap] user(2) by (intro unat_add_small) simp
  have cp: "rest \<le> count" "length bs = unat count"
    "take (unat count - unat rest) bs = take (unat count - unat rest) buf"
    using laws(2) user(1) copy unfolding copy_from_user_law_def by blast+
  have m: "unat (count - rest) = unat count - unat rest"
    using cp(1) by (rule unat_diff_le)
  have s': "unat (esize e + (count - rest)) = ?s + (unat count - unat rest)"
    using sized_bound [OF heap] user(2) m by (subst unat_add_small) auto
  have eb: "length (entry_bytes h e) = ?s"
    using heap(2) by (rule length_entry_bytes)
  have K: "if ?n = 0 then q = ZERO_SIZE_PTR \<and> h1 = h(buffptr e := None)
     else unat ?n < 2 ^ 31 \<and> q \<noteq> ZERO_SIZE_PTR \<and> (q = buffptr e \<or> q \<notin> dom h) \<and>
       (\<exists>junk. length (take (unat ?n) (blk h (buffptr e)) @ junk) = unat ?n \<and>
         h1 = (h(buffptr e := None))(q \<mapsto> take (unat ?n) (blk h (buffptr e)) @ junk))"
    using laws(1) heap(1) ptr grow unfolding krealloc_law_def by (smt (verit) insert_iff empty_iff)
  have "store_bytes h1 q (esize e) bs = Done h2 \<and> heap_ok h2 \<and> sized h2 e' \<and>
    entry_bytes h2 e' = entry_bytes h e @ take (unat (count - rest)) buf \<and>
    (q = ZERO_SIZE_PTR \<or> q \<in> dom h2) \<and> (q = buffptr e \<or> q \<notin> dom h)"
  proof (cases "?n = 0")
    case True
    with K have q: "q = ZERO_SIZE_PTR" and h1: "h1 = h(buffptr e := None)" by simp_all
    from True n have z: "?s = 0" "unat count = 0" by simp_all
    then have "bs = []" and "count = 0" and "esize e = 0" and "buf = []" and "count - rest = 0"
      using cp(1,2) user(1) by (simp_all add: unat_eq_zero)
    moreover have "h ZERO_SIZE_PTR = None"
      using heap(1) by (simp add: heap_ok_def)
    ultimately show ?thesis
      using q h1 heap by (auto simp: h2_def e'_def store_bytes_def heap_ok_del sized_def entry_bytes_def)
  next
    case False
    with K obtain junk where q: "q \<noteq> ZERO_SIZE_PTR" "q = buffptr e \<or> q \<notin> dom h"
      and small: "unat ?n < 2 ^ 31"
      and len: "length (take (unat ?n) (blk h (buffptr e)) @ junk) = unat ?n"
      and h1: "h1 = (h(buffptr e := None))(q \<mapsto> take (unat ?n) (blk h (buffptr e)) @ junk)"
      by auto
    let ?B = "take (unat ?n) (blk h (buffptr e)) @ junk"
    have B: "take ?s ?B = entry_bytes h e"
      using n heap(2) by (simp add: entry_bytes_def sized_def)
    have "store_bytes h1 q (esize e) bs = Done h2"
    proof (cases "bs = []")
      case True
      with cp(2) n len B have "?B = entry_bytes h e @ bs"
        by (metis add.right_neutral append.right_neutral length_0_conv order_refl take_all)
      with True q(1) h1 show ?thesis by (simp add: store_bytes_def h2_def)
    next
      case False
      with cp(2) n len B q(1) h1 show ?thesis
        by (simp add: store_bytes_def h2_def)
    qed
    moreover have "heap_ok h2"
      using q(1) grow(2) heap(1) small n eb cp(2)
      by (auto simp: h2_def intro!: heap_ok_upd heap_ok_del)
    moreover have "sized h2 e'" and
      "entry_bytes h2 e' = entry_bytes h e @ take (unat (count - rest)) buf"
      using q(1) s' eb cp m by (auto simp: h2_def e'_def sized_def entry_bytes_def)
    ultimately show ?thesis
      using q by (auto simp: h2_def)
  qed
  then show "store_bytes h1 q (esize e) bs = Done h2" "heap_ok h2" "sized h2 e'"
    "entry_bytes h2 e' = entry_bytes h e @ take (unat (count - rest)) buf"
    "q = ZERO_SIZE_PTR \<or> q \<in> dom h2" "q = buffptr e \<or> q \<notin> dom h"
    by blast+
qed


subsection \<open>Writing\<close>

lemma lock_taken:
  "ready K st filp \<Longrightarrow> lock_law K \<Longrightarrow>
     mutex_lock_interruptible K (lock (aesd_device st)) = (0, True)"
  unfolding ready_def lock_law_def by (metis prod.collapse)

lemma unlocked: "lock_law K \<Longrightarrow> mutex_unlock K held = False"
  by (simp add: lock_law_def)

lemma add_pending:
  assumes wf: "dev_wf st" and nl: "newline \<in> set (a_pend (absdev st))"
  defines "dev \<equiv> aesd_device st"
  obtains b where "aesd_circular_buffer_add_entry (buffer dev) (dev_entry dev) = Done b"
    "dev_inv (st\<lparr>aesd_device := dev\<lparr>buffer := b, dev_entry := zero_entry, lock := False\<rparr>\<rparr>)"
    "absdev (st\<lparr>aesd_device := dev\<lparr>buffer := b, dev_entry := zero_entry, lock := False\<rparr>\<rparr>)
       = \<lparr>a_cmds = lastn 10 (a_cmds (absdev st) @ [a_pend (absdev st)]), a_pend = []\<rparr>"
    "ring_cmds b = lastn 10 (ring_cmds (buffer dev) @ [dev_entry dev])"
    "total_size b = total_size (buffer dev) + of_nat (length (a_pend (absdev st)))"
proof -
  have "rb_inv (buffer dev)"
    using wf by (simp add: dev_wf_def dev_def)
  then obtain b where b: "aesd_circular_buffer_add_entry (buffer dev) (dev_entry dev) = Done b"
    "rb_inv b" "ring_cmds b = lastn 10 (ring_cmds (buffer dev) @ [dev_entry dev])"
    "total_size b = total_size (buffer dev) + of_nat (unat (esize (dev_entry dev)))"
    using ring.add [of "buffer dev" "dev_entry dev"] slots_eq(1) by metis
  have "sized (heap st) (dev_entry dev)"
    using wf by (simp add: dev_wf_def dev_def)
  from length_entry_bytes [OF this] b(4)
  have total: "total_size b = total_size (buffer dev) + of_nat (length (a_pend (absdev st)))"
    by (simp add: absdev_def dev_def)
  have live: "pend_ptr st \<in> dom (heap st)"
    using wf nl by (auto simp: dev_wf_def absdev_def entry_bytes_def pend_ptr_def heap_ok_def)
  have sub: "set (ring_cmds b) \<subseteq> insert (dev_entry dev) (set (ring_cmds (buffer dev)))"
    using set_lastn_subset [of 10 "ring_cmds (buffer dev) @ [dev_entry dev]"] b(3) by auto
  have "distinct (map buffptr (ring_cmds (buffer dev) @ [dev_entry dev]))"
    using wf by (simp add: dev_wf_def ring_ptrs_def pend_ptr_def dev_def)
  then have dist: "distinct (map buffptr (ring_cmds b))"
    unfolding b(3) map_lastn by (rule distinct_lastn)
  let ?st = "st\<lparr>aesd_device := dev\<lparr>buffer := b, dev_entry := zero_entry, lock := False\<rparr>\<rparr>"
  have "buffptr e \<in> dom (heap st) \<and> sized (heap st) e \<and> newline \<in> set (entry_bytes (heap st) e)"
    if "e \<in> set (ring_cmds b)" for e
    using wf nl live sub that
    by (auto simp: dev_wf_def ring_ptrs_def pend_ptr_def dev_def absdev_def)
  then have all: "\<forall>e \<in> set (ring_cmds b). buffptr e \<in> dom (heap st) \<and> sized (heap st) e \<and>
      newline \<in> set (entry_bytes (heap st) e)"
    by blast
  have "heap_ok (heap st)"
    using wf by (simp add: dev_wf_def)
  moreover from this have "0 \<notin> dom (heap st)"
    by (simp add: heap_ok_def domIff)
  then have "0 \<notin> buffptr ` set (ring_cmds b)"
    using all by (metis imageE)
  ultimately have "dev_inv ?st"
    using all dist b(2)
    by (simp add: dev_inv_def dev_wf_def ring_ptrs_def pend_ptr_def absdev_def image_subset_iff)
      (simp add: zero_entry_def sized_def entry_bytes_def)
  moreover have "absdev ?st = \<lparr>a_cmds = lastn 10 (a_cmds (absdev st) @ [a_pend (absdev st)]), a_pend = []\<rparr>"
    by (simp add: absdev_def b(3) map_lastn dev_def zero_entry_def entry_bytes_def)
  ultimately show ?thesis
    by (rule that [OF b(1) _ _ b(3) total])
qed


lemma write_call:
  assumes ready: "ready K st filp" and law: "lock_law K"
    and grow: "krealloc K (heap st) (pend_ptr st) (esize (dev_entry (aesd_device st)) + count) = (q, h1)"
    and copy: "copy_from_user K buf count = (rest, bs)"
    and store: "store_bytes h1 q (esize (dev_entry (aesd_device st))) bs = Done h2"
  shows "aesd_write K st filp buf count pos =
    and_then (write_loop h2 0 (aesd_device st\<lparr>lock := True, dev_entry :=
        \<lparr>buffptr = q, esize = esize (dev_entry (aesd_device st)) + (count - rest)\<rparr>\<rparr>)) (\<lambda>dev.
      Done (count - rest, pos, st\<lparr>aesd_device := dev\<lparr>lock := False\<rparr>, heap := h2\<rparr>))"
proof -
  have e: "e\<lparr>buffptr := p, esize := s\<rparr> = \<lparr>buffptr = p, esize = s\<rparr>" for e :: aesd_buffer_entry and p s
    by simp
  show ?thesis
    using grow copy store ready lock_taken [OF ready law]
    by (simp add: aesd_write_def ready_def pend_ptr_def unlocked [OF law] e Let_def)
qed

lemma pending_grown:
  assumes wf: "dev_wf st"
    and laws: "krealloc_law K" "copy_from_user_law K"
    and user: "length buf = unat count" "unat count < 2 ^ 31"
    and grow: "krealloc K (heap st) (pend_ptr st) (esize (dev_entry (aesd_device st)) + count) = (q, h1)"
    and copy: "copy_from_user K buf count = (rest, bs)"
    and q: "q \<noteq> 0"
  obtains h2 where
    "store_bytes h1 q (esize (dev_entry (aesd_device st))) bs = Done h2"
    "dev_wf (st\<lparr>aesd_device := aesd_device st\<lparr>dev_entry :=
       \<lparr>buffptr = q, esize = esize (dev_entry (aesd_device st)) + (count - rest)\<rparr>\<rparr>, heap := h2\<rparr>)"
    "absdev (st\<lparr>aesd_device := aesd_device st\<lparr>dev_entry :=
       \<lparr>buffptr = q, esize = esize (dev_entry (aesd_device st)) + (count - rest)\<rparr>\<rparr>, heap := h2\<rparr>)
     = (absdev st)\<lparr>a_pend := a_pend (absdev st) @ take (unat (count - rest)) buf\<rparr>"
    "\<forall>p. p \<noteq> pend_ptr st \<longrightarrow> p \<noteq> q \<longrightarrow> h2 p = heap st p"
    "dom h2 = (dom (heap st) - {pend_ptr st}) \<union> (if q = ZERO_SIZE_PTR then {} else {q})"
proof -
  let ?e = "dev_entry (aesd_device st)"
  let ?e' = "\<lparr>buffptr = q, esize = esize ?e + (count - rest)\<rparr>"
  have "heap_ok (heap st)" and "sized (heap st) ?e"
    and "buffptr ?e \<in> {0, ZERO_SIZE_PTR} \<or> buffptr ?e \<in> dom (heap st)"
    using wf by (auto simp: dev_wf_def pend_ptr_def)
  note G = grow_pending [OF this laws user grow [unfolded pend_ptr_def] q copy]
  define h2 where "h2 = (if q = ZERO_SIZE_PTR then (heap st)(buffptr ?e := None)
                  else ((heap st)(buffptr ?e := None))(q \<mapsto> entry_bytes (heap st) ?e @ bs))"
  note G = G [folded h2_def]
  let ?st = "st\<lparr>aesd_device := aesd_device st\<lparr>dev_entry := ?e'\<rparr>, heap := h2\<rparr>"
  have off: "q \<notin> set (ring_ptrs st)" "buffptr ?e \<notin> set (ring_ptrs st)"
    using wf G(6) by (auto simp: dev_wf_def pend_ptr_def)
  have frame: "\<forall>p. p \<noteq> pend_ptr st \<longrightarrow> p \<noteq> q \<longrightarrow> h2 p = heap st p"
    by (simp add: h2_def pend_ptr_def)
  have same: "entry_bytes h2 e = entry_bytes (heap st) e" "sized h2 e = sized (heap st) e"
    if "e \<in> set (ring_cmds (buffer (aesd_device st)))" for e
  proof -
    have "buffptr e \<in> set (ring_ptrs st)"
      using that by (simp add: ring_ptrs_def)
    then have "h2 (buffptr e) = heap st (buffptr e)"
      using off frame unfolding pend_ptr_def by metis
    then show "entry_bytes h2 e = entry_bytes (heap st) e" "sized h2 e = sized (heap st) e"
      by (simp_all add: entry_bytes_def sized_def blk_def)
  qed
  have dom: "dom h2 = (dom (heap st) - {pend_ptr st}) \<union> (if q = ZERO_SIZE_PTR then {} else {q})"
    by (auto simp: h2_def pend_ptr_def)
  have "set (ring_ptrs st) \<subseteq> dom h2"
    using wf off unfolding dom by (auto simp: dev_wf_def pend_ptr_def)
  then have "dev_wf ?st"
    using wf G(2,3,5) off same by (simp add: dev_wf_def ring_ptrs_def pend_ptr_def)
  moreover have "absdev ?st = (absdev st)\<lparr>a_pend := a_pend (absdev st) @ take (unat (count - rest)) buf\<rparr>"
    using same G(4) by (simp add: absdev_def)
  ultimately show ?thesis
    by (rule that [OF G(1) _ _ frame dom])
qed

lemma write_refines:
  assumes inv: "dev_inv st" and ready: "ready K st filp"
    and laws: "lock_law K" "krealloc_law K" "copy_from_user_law K"
    and user: "length buf = unat count" "unat count < 2 ^ 31"
    and grow: "krealloc K (heap st) (pend_ptr st)
                 (esize (dev_entry (aesd_device st)) + count) = (q, h1)" "q \<noteq> 0"
  defines "n \<equiv> count - fst (copy_from_user K buf count)"
  obtains st' where "aesd_write K st filp buf count pos = Done (n, pos, st')"
    "dev_inv st'" "absdev st' = dev_append (absdev st) (take (unat n) buf)"
    "dev_addr st' = dev_addr st"
    "dom (heap st') = (dom (heap st) - {pend_ptr st}) \<union> (if q = ZERO_SIZE_PTR then {} else {q})"
    "if newline \<in> set (a_pend (absdev st) @ take (unat n) buf)
     then pend_ptr st' = 0 \<and> ring_ptrs st' = lastn 10 (ring_ptrs st @ [q])
     else pend_ptr st' = q \<and> ring_ptrs st' = ring_ptrs st"
    "total_size (buffer (aesd_device st')) = total_size (buffer (aesd_device st)) +
       (if newline \<in> set (a_pend (absdev st) @ take (unat n) buf)
        then of_nat (length (a_pend (absdev st) @ take (unat n) buf)) else 0)"
proof -
  let ?dev = "aesd_device st"
  obtain rest bs where copy: "copy_from_user K buf count = (rest, bs)"
    by fastforce
  have n: "n = count - rest" by (simp add: n_def copy)
  define e' where "e' = \<lparr>buffptr = q, esize = esize (dev_entry ?dev) + n\<rparr>"
  have wf: "dev_wf st" using inv by (simp add: dev_inv_def)
  obtain h2 where store: "store_bytes h1 q (esize (dev_entry ?dev)) bs = Done h2"
    and wf1: "dev_wf (st\<lparr>aesd_device := ?dev\<lparr>dev_entry := e'\<rparr>, heap := h2\<rparr>)"
    and abs1: "absdev (st\<lparr>aesd_device := ?dev\<lparr>dev_entry := e'\<rparr>, heap := h2\<rparr>)
      = (absdev st)\<lparr>a_pend := a_pend (absdev st) @ take (unat n) buf\<rparr>"
    and "\<forall>p. p \<noteq> pend_ptr st \<longrightarrow> p \<noteq> q \<longrightarrow> h2 p = heap st p"
    and dom: "dom h2 = (dom (heap st) - {pend_ptr st}) \<union> (if q = ZERO_SIZE_PTR then {} else {q})"
    unfolding e'_def n by (rule pending_grown [OF wf laws(2,3) user grow(1) copy grow(2)])
  have sz: "sized h2 e'" and pend: "entry_bytes h2 e' = a_pend (absdev st) @ take (unat n) buf"
    using wf1 abs1 by (simp_all add: dev_wf_def absdev_def)
  have call: "aesd_write K st filp buf count pos =
      and_then (write_loop h2 0 (?dev\<lparr>lock := True, dev_entry := e'\<rparr>)) (\<lambda>dev.
        Done (n, pos, st\<lparr>aesd_device := dev\<lparr>lock := False\<rparr>, heap := h2\<rparr>))"
    unfolding e'_def n by (rule write_call [OF ready laws(1) grow(1) copy store])
  have scan: "write_loop h2 0 (?dev\<lparr>lock := True, dev_entry := e'\<rparr>) =
      (if newline \<in> set (a_pend (absdev st) @ take (unat n) buf)
       then and_then (aesd_circular_buffer_add_entry (buffer ?dev) e')
              (\<lambda>b. Done (?dev\<lparr>lock := True, buffer := b, dev_entry := zero_entry\<rparr>))
       else Done (?dev\<lparr>lock := True, dev_entry := e'\<rparr>))"
    using write_loop_scan [of h2 "?dev\<lparr>lock := True, dev_entry := e'\<rparr>" 0] sz pend by simp
  show ?thesis
  proof (cases "newline \<in> set (a_pend (absdev st) @ take (unat n) buf)")
    case True
    let ?st = "\<lambda>b. st\<lparr>aesd_device := ?dev\<lparr>buffer := b, dev_entry := zero_entry, lock := False\<rparr>, heap := h2\<rparr>"
    let ?st1 = "st\<lparr>aesd_device := ?dev\<lparr>dev_entry := e'\<rparr>, heap := h2\<rparr>"
    have comm: "s\<lparr>heap := x, aesd_device := y\<rparr> = s\<lparr>aesd_device := y, heap := x\<rparr>" for s :: kstate and x y
      by (cases s) simp
    have nl: "newline \<in> set (a_pend (absdev ?st1))"
      using True abs1 by simp
    obtain b where b0:
      "aesd_circular_buffer_add_entry (buffer (aesd_device ?st1)) (dev_entry (aesd_device ?st1)) = Done b"
      "dev_inv (?st1\<lparr>aesd_device := aesd_device ?st1\<lparr>buffer := b, dev_entry := zero_entry, lock := False\<rparr>\<rparr>)"
      "absdev (?st1\<lparr>aesd_device := aesd_device ?st1\<lparr>buffer := b, dev_entry := zero_entry, lock := False\<rparr>\<rparr>)
         = \<lparr>a_cmds = lastn 10 (a_cmds (absdev ?st1) @ [a_pend (absdev ?st1)]), a_pend = []\<rparr>"
      "ring_cmds b = lastn 10 (ring_cmds (buffer (aesd_device ?st1)) @ [dev_entry (aesd_device ?st1)])"
      "total_size b = total_size (buffer (aesd_device ?st1)) + of_nat (length (a_pend (absdev ?st1)))"
      by (rule add_pending [OF wf1 nl])
    have b: "aesd_circular_buffer_add_entry (buffer ?dev) e' = Done b" "dev_inv (?st b)"
        "absdev (?st b) = \<lparr>a_cmds = lastn 10 (a_cmds (absdev st) @ [a_pend (absdev st) @ take (unat n) buf]),
           a_pend = []\<rparr>"
        "ring_cmds b = lastn 10 (ring_cmds (buffer ?dev) @ [e'])"
        "total_size b = total_size (buffer ?dev) +
           of_nat (length (a_pend (absdev st) @ take (unat n) buf))"
      using b0 abs1 comm by simp_all
    have "aesd_write K st filp buf count pos = Done (n, pos, ?st b)"
      using call scan True b(1) by simp
    moreover have "ring_ptrs (?st b) = lastn 10 (ring_ptrs st @ [q])" "pend_ptr (?st b) = 0"
      by (simp_all add: ring_ptrs_def pend_ptr_def b(4) map_lastn e'_def zero_entry_def)
    ultimately show ?thesis
      using that [of "?st b"] b(2,3,5) True dom by (simp add: dev_append_def)
  next
    case False
    let ?st = "st\<lparr>aesd_device := ?dev\<lparr>dev_entry := e', lock := False\<rparr>, heap := h2\<rparr>"
    have same: "absdev ?st = (absdev st)\<lparr>a_pend := a_pend (absdev st) @ take (unat n) buf\<rparr>"
      using abs1 by (simp add: absdev_def)
    have "dev_wf ?st"
      using wf1 by (simp add: dev_wf_def ring_ptrs_def pend_ptr_def)
    then have "dev_inv ?st"
      using False same by (simp add: dev_inv_def)
    moreover have "aesd_write K st filp buf count pos = Done (n, pos, ?st)"
      using call scan False by simp
    moreover have "ring_ptrs ?st = ring_ptrs st" "pend_ptr ?st = q"
      by (simp_all add: ring_ptrs_def pend_ptr_def e'_def)
    ultimately show ?thesis
      using that [of ?st] same False dom by (simp add: dev_append_def)
  qed
qed

end
