(* ===== verification/Driver_Handlers.thy ===== *)
theory Driver_Handlers
  imports Driver_Refinement
begin

text \<open>
  The other handlers against the abstract device: what \<open>aesd_read\<close> delivers, a reader that goes on to
  the end of file (one unit of fuel per call, one per byte and one more are enough), what \<open>aesd_llseek\<close> and
  \<open>aesd_ioctl\<close> answer before and after the ring wraps, and what a write leaks or does without memory.
\<close>

section \<open>Reading\<close>

lemma cmd_entry:
  assumes "dev_wf st" and "e \<in> set (ring_cmds (buffer (aesd_device st)))"
  shows "sized (heap st) e" "unat (esize e) < 2 ^ 31" "buffptr e \<in> dom (heap st)"
    "newline \<in> set (entry_bytes (heap st) e)" "buffptr e \<in> set (ring_ptrs st)"
proof -
  have "heap_ok (heap st)" and ptrs: "set (ring_ptrs st) \<subseteq> dom (heap st)"
    using assms(1) by (simp_all add: dev_wf_def)
  show e: "sized (heap st) e" and "newline \<in> set (entry_bytes (heap st) e)"
    using assms by (simp_all add: dev_wf_def)
  show "unat (esize e) < 2 ^ 31"
    by (rule sized_bound) fact+
  show "buffptr e \<in> set (ring_ptrs st)"
    using assms(2) by (simp add: ring_ptrs_def)
  with ptrs show "buffptr e \<in> dom (heap st)" by blast
qed

lemma ring_total_small:
  assumes "dev_wf st"
  shows "sum_list (cmd_sizes (buffer (aesd_device st))) < 2 ^ 64"
proof -
  let ?es = "ring_cmds (buffer (aesd_device st))"
  have "unat (esize e) \<le> 2 ^ 31" if "e \<in> set ?es" for e
    using cmd_entry(2) [OF assms that] by simp
  then have "sum_list (cmd_sizes (buffer (aesd_device st))) \<le> length ?es * 2 ^ 31"
    using sum_list_le [of "cmd_sizes (buffer (aesd_device st))" "2 ^ 31"] by simp
  moreover have "length ?es \<le> 10"
    using assms length_ring_cmds [of "buffer (aesd_device st)"] rb_invD(2) [of "buffer (aesd_device st)"]
    by (auto simp: dev_wf_def)
  ultimately show ?thesis by simp
qed

lemma cmd_lengths:
  "dev_wf st \<Longrightarrow> map length (a_cmds (absdev st)) = cmd_sizes (buffer (aesd_device st))"
  by (auto simp: absdev_def dev_wf_def length_entry_bytes)

lemma find_in_device:
  assumes "dev_wf st"
  shows "aesd_circular_buffer_find_entry_offset_for_fpos (buffer (aesd_device st)) off =
    Some (map_option (\<lambda>(k, r). (of_nat ((unat (out_offs (buffer (aesd_device st))) + k) mod 10), of_nat r))
      (seek_entry (map length (a_cmds (absdev st))) (unat off)))"
  using ring.find ring_total_small [OF assms] assms unfolding cmd_lengths [OF assms]
  by (simp add: dev_wf_def)

lemma slot_entry:
  assumes "dev_wf st" and "k < length (a_cmds (absdev st))"
  shows "entry (buffer (aesd_device st)) !
      unat (of_nat ((unat (out_offs (buffer (aesd_device st))) + k) mod 10) :: u8)
    = ring_cmds (buffer (aesd_device st)) ! k"
  using assms by (simp add: ring_cmds_nth unat_of_nat dev_wf_def absdev_def)

lemma lock_field [simp]: "\<not> lock dev \<Longrightarrow> dev\<lparr>lock := False\<rparr> = (dev :: aesd_dev)"
  by (cases dev) simp

lemma device_field [simp]: "st\<lparr>aesd_device := aesd_device st\<rparr> = (st :: kstate)"
  by (cases st) simp

lemma read_eof:
  assumes "dev_inv st" and "ready K st filp" and "lock_law K"
    and "length (content (absdev st)) \<le> unat pos"
  shows "aesd_read K st filp count pos = Done (0, 0, [], st)"
proof -
  have "seek_entry (map length (a_cmds (absdev st))) (unat pos) = None"
    using assms(4) by (simp add: seek_entry_None content_def length_concat)
  then show ?thesis
    using assms(1,2) find_in_device [of st pos] lock_taken [OF assms(2,3)]
    by (simp add: aesd_read_def ready_def dev_inv_def unlocked [OF assms(3)] Let_def)
qed

lemma read_hit:
  assumes inv: "dev_inv st" and ready: "ready K st filp"
    and laws: "lock_law K" "copy_to_user_law K"
    and small: "unat count < 2 ^ 31"
    and hit: "seek_entry (map length (a_cmds (absdev st))) (unat pos) = Some (k, r)"
  defines "src \<equiv> take (unat count) (drop r (a_cmds (absdev st) ! k))"
  defines "m \<equiv> length src - unat (fst (copy_to_user K src (of_nat (length src))))"
  shows "aesd_read K st filp count pos = Done (of_nat m, pos + of_nat m, take m src, st)"
proof -
  let ?b = "buffer (aesd_device st)" and ?cmd = "a_cmds (absdev st) ! k"
  define e where "e = ring_cmds ?b ! k"
  have wf: "dev_wf st" and unlock: "\<not> lock (aesd_device st)"
    using inv by (simp_all add: dev_inv_def)
  have k: "k < length (a_cmds (absdev st))" and r: "r < length ?cmd"
    using seek_entry_SomeD [OF hit] by auto
  then have "e \<in> set (ring_cmds ?b)" and cmd: "?cmd = entry_bytes (heap st) e"
    by (simp_all add: e_def absdev_def)
  then have e: "sized (heap st) e" and small_e: "unat (esize e) < 2 ^ 31"
    using cmd_entry [OF wf] by blast+
  have len: "length ?cmd = unat (esize e)"
    using length_entry_bytes [OF e] cmd by simp
  define num where "num = (if count < esize e - of_nat r then count else esize e - of_nat r)"
  have "of_nat r \<le> esize e" and "unat (of_nat r :: u64) = r"
    using r len small_e by (simp_all add: word_le_nat_alt unat_of_nat)
  then have unat_num: "unat num = min (unat count) (unat (esize e) - r)"
    by (auto simp: num_def word_less_nat_alt unat_diff_le)
  then have num: "unat num = length src"
    by (simp add: src_def len)
  then have num': "of_nat (length src) = num"
    by (simp flip: num)
  have load: "load_bytes (heap st) (buffptr e) (of_nat r) num = Done src"
  proof (cases "num = 0")
    case False
    have "r + unat num \<le> length (blk (heap st) (buffptr e))"
      using unat_num e r len by (simp add: sized_def)
    moreover have "take (unat num) (drop r (blk (heap st) (buffptr e))) = src"
      using e unat_num by (simp add: src_def cmd entry_bytes_def sized_def drop_take min_def)
    ultimately show ?thesis
      using False \<open>unat (of_nat r :: u64) = r\<close> by (simp add: load_bytes_def)
  qed (use num in \<open>simp add: load_bytes_def\<close>)
  obtain rest bs where copy: "copy_to_user K src num = (rest, bs)"
    by fastforce
  have "rest \<le> num" and bs: "bs = take (unat num - unat rest) src"
    using laws(2) num(1) copy unfolding copy_to_user_law_def by metis+
  have m: "m = unat num - unat rest"
    by (simp add: m_def num num' copy)
  have "unat rest < 2 ^ 31"
    using \<open>rest \<le> num\<close> unat_num small by (simp add: word_le_nat_alt)
  then have ret: "num - scast (ucast rest :: s32) = of_nat m"
    using \<open>rest \<le> num\<close> by (simp add: scast_ucast_int m of_nat_unat_diff)
  have slot: "entry ?b ! unat (of_nat ((unat (out_offs ?b) + k) mod 10) :: u8) = e"
    unfolding e_def by (rule slot_entry [OF wf k])
  note facts = find_in_device [OF wf, of pos] hit slot lock_taken [OF ready laws(1)] ready
    load copy bs m ret unlock
  show ?thesis
  proof (cases "count < esize e - of_nat r")
    case True
    with facts show ?thesis
      by (simp add: aesd_read_def ready_def unlocked [OF laws(1)] Let_def num_def)
  next
    case False
    with facts show ?thesis
      by (simp add: aesd_read_def ready_def unlocked [OF laws(1)] Let_def num_def)
  qed
qed


subsection \<open>A reader that goes on until end of file\<close>

text \<open>A user-space reader with a buffer of \<open>count\<close> bytes: \<open>read\<close> until it returns 0.\<close>

fun read_until_eof :: "nat \<Rightarrow> kernel \<Rightarrow> kstate \<Rightarrow> kfile \<Rightarrow> u64 \<Rightarrow> s64 \<Rightarrow> (string \<times> s64 \<times> kstate) outcome" where
  "read_until_eof 0 K st filp count pos = Hang"
| "read_until_eof (Suc fuel) K st filp count pos =
     and_then (aesd_read K st filp count pos) (\<lambda>(n, pos, bs, st).
       if n = 0 then Done ([], pos, st)
       else and_then (read_until_eof fuel K st filp count pos)
              (\<lambda>(rest, pos, st). Done (bs @ rest, pos, st)))"

definition copies_all :: "kernel \<Rightarrow> bool" where
  "copies_all K \<longleftrightarrow> (\<forall>src n. fst (copy_to_user K src n) = 0)"

lemma content_bound:
  assumes "dev_wf st"
  shows "length (content (absdev st)) < 2 ^ 64"
  using ring_total_small [OF assms] by (simp add: content_def length_concat cmd_lengths [OF assms])

lemma content_split:
  assumes "seek_entry (map length (a_cmds a)) pos = Some (k, r)"
  shows "drop pos (content a) = drop r (a_cmds a ! k) @ concat (drop (Suc k) (a_cmds a))"
    and "pos < length (content a)" and "r < length (a_cmds a ! k)"
proof -
  show "drop pos (content a) = drop r (a_cmds a ! k) @ concat (drop (Suc k) (a_cmds a))"
    using assms by (simp add: content_def seek_entry_concat)
  show "r < length (a_cmds a ! k)"
    using seek_entry_SomeD [OF assms] by auto
  show "pos < length (content a)"
    using assms seek_entry_None [of "map length (a_cmds a)" pos]
    by (simp add: content_def length_concat not_le)
qed

text \<open>One call with a buffer of its own: the next part of the content, and 0 with the position
  rewound at its end.\<close>

lemma read_part:
  assumes inv: "dev_inv st" and ready: "ready K st filp"
    and laws: "lock_law K" "copy_to_user_law K" "copies_all K"
    and count: "0 < unat count" "unat count < 2 ^ 31" and pos: "unat pos < length (content (absdev st))"
  obtains n bs where "aesd_read K st filp count pos = Done (n, pos + n, bs, st)" "n \<noteq> 0" "unat n = length bs"
    "unat (pos + n) = unat pos + length bs"
    "drop (unat pos) (content (absdev st)) = bs @ drop (unat pos + length bs) (content (absdev st))"
    "unat pos + length bs \<le> length (content (absdev st))"
proof -
  let ?C = "content (absdev st)"
  obtain k r where hit: "seek_entry (map length (a_cmds (absdev st))) (unat pos) = Some (k, r)"
    using pos seek_entry_None [of "map length (a_cmds (absdev st))" "unat pos"]
    by (cases "seek_entry (map length (a_cmds (absdev st))) (unat pos)")
      (auto simp: content_def length_concat)
  note C = content_split [OF hit]
  define src where "src = take (unat count) (drop r (a_cmds (absdev st) ! k))"
  have read: "aesd_read K st filp count pos = Done (of_nat (length src), pos + of_nat (length src), src, st)"
    using read_hit [OF inv ready laws(1,2) count(2) hit, folded src_def] laws(3)
    by (simp add: copies_all_def)
  have src: "src = take (length src) (drop (unat pos) ?C)" "0 < length src"
    using C(1,3) count(1) by (auto simp: src_def min_def)
  then have fits: "unat pos + length src \<le> length ?C"
    by (metis C(2) add_leD2 le_diff_conv2 length_drop length_take less_imp_le_nat min.absorb_iff2
        min.commute add.commute)
  have n: "unat (of_nat (length src) :: u64) = length src"
    "unat (pos + of_nat (length src)) = unat pos + length src"
    using fits inv content_bound [of st]
    by (simp_all add: unat_of_nat dev_inv_def unat_word_ariths)
  then have "(of_nat (length src) :: u64) \<noteq> 0"
    using src(2) by (metis less_irrefl unat_0)
  moreover have "drop (unat pos) ?C = src @ drop (unat pos + length src) ?C"
    by (metis add.commute append_take_drop_id drop_drop src(1))
  ultimately show thesis
    using that read n fits by blast
qed

lemma read_until_eof_content:
  assumes inv: "dev_inv st" and ready: "ready K st filp"
    and laws: "lock_law K" "copy_to_user_law K" "copies_all K"
    and count: "0 < unat count" "unat count < 2 ^ 31"
  shows "length (content (absdev st)) - unat pos < fuel \<Longrightarrow>
    read_until_eof fuel K st filp count pos = Done (drop (unat pos) (content (absdev st)), 0, st)"
proof (induction fuel arbitrary: pos)
  case (Suc fuel)
  let ?C = "content (absdev st)"
  show ?case
  proof (cases "unat pos < length ?C")
    case False
    then show ?thesis
      using read_eof [OF inv ready laws(1), of pos count] by simp
  next
    case True
    obtain n bs where part: "aesd_read K st filp count pos = Done (n, pos + n, bs, st)" "n \<noteq> 0"
        "unat n = length bs" "unat (pos + n) = unat pos + length bs"
        "drop (unat pos) ?C = bs @ drop (unat pos + length bs) ?C"
      using read_part [OF inv ready laws count True] by metis
    then have "0 < length bs" by (metis gr0I unat_eq_zero)
    then have "length ?C - (unat pos + length bs) < fuel"
      using Suc.prems True by linarith
    then have "read_until_eof fuel K st filp count (pos + n) = Done (drop (unat pos + length bs) ?C, 0, st)"
      using Suc.IH [of "pos + n"] part(4) by simp
    then show ?thesis by (simp add: part)
  qed
qed simp


section \<open>Seeking\<close>

lemma sint_ucast_u8: "sint (ucast (w :: u8) :: s64) = int (unat w)"
proof -
  have "- (2 ^ 63) \<le> uint w"
    by (rule order_trans [of _ 0]) simp_all
  moreover have "uint w < 2 ^ 63"
    using uint_bounded [of w] by simp
  ultimately show ?thesis
    by (simp add: signed_ucast_eq signed_take_bit_int_eq_self_iff)
qed

lemma llseek_result:
  assumes inv: "dev_inv st" and ready: "ready K st filp" and laws: "lock_law K" "llseek_law K"
    and base: "whence = 0 \<and> base = 0 \<or> whence = 1 \<and> base = sint (f_pos filp) \<or>
      whence = 2 \<and> base = int (unat (total_size (buffer (aesd_device st))))"
    and target: "target = base + sint offset"
  shows "if 0 \<le> target \<and> target \<le> int (unat (total_size (buffer (aesd_device st))))
    then \<exists>pos. sint pos = target \<and>
           aesd_llseek K st filp offset whence = Done (pos, filp\<lparr>f_pos := pos\<rparr>, st)
    else aesd_llseek K st filp offset whence = Done (- 22, filp\<lparr>f_pos := - 22\<rparr>, st)"
proof -
  let ?sz = "ucast (total_size (buffer (aesd_device st))) :: s64"
  obtain ret f where seek: "fixed_size_llseek K filp offset whence ?sz = (ret, f)"
    by fastforce
  have sz: "sint ?sz = int (unat (total_size (buffer (aesd_device st))))"
    by (rule sint_ucast_u8)
  have res: "if 0 \<le> target \<and> target \<le> sint ?sz then sint ret = target \<and> f = filp\<lparr>f_pos := ret\<rparr>
      else ret = - 22 \<and> f = filp"
    using laws(2) seek base sz unfolding llseek_law_def target by (fastforce simp: Let_def)
  have call: "aesd_llseek K st filp offset whence = Done (ret, f\<lparr>f_pos := ret\<rparr>, st)"
    using ready seek lock_taken [OF ready laws(1)] inv
    by (simp add: aesd_llseek_def ready_def dev_inv_def unlocked [OF laws(1)] Let_def)
  show ?thesis
    using res call unfolding sz by (auto split: if_splits)
qed

lemma llseek_bad_whence:
  assumes inv: "dev_inv st" and ready: "ready K st filp" and laws: "lock_law K" "llseek_law K"
    and whence: "whence \<notin> {0, 1, 2}"
  shows "aesd_llseek K st filp offset whence = Done (- 22, filp\<lparr>f_pos := - 22\<rparr>, st)"
proof -
  let ?sz = "ucast (total_size (buffer (aesd_device st))) :: s64"
  obtain ret f where seek: "fixed_size_llseek K filp offset whence ?sz = (ret, f)"
    by fastforce
  then have "ret = - 22" and "f = filp"
    using laws(2) [unfolded llseek_law_def Let_def, rule_format, OF seek] whence by simp_all
  then show ?thesis
    using ready seek lock_taken [OF ready laws(1)] inv
    by (simp add: aesd_llseek_def ready_def dev_inv_def unlocked [OF laws(1)] Let_def)
qed

lemma adjust_loop_sum:
  assumes "length (entry b) = 10" and "unat cmd < 10"
  shows "i \<le> unat cmd \<Longrightarrow> adjust_loop b cmd off i acc =
    acc + sum_list (map esize (drop i (take (unat cmd) (entry b)))) + ucast off"
proof (induction "unat cmd - i" arbitrary: i acc)
  case 0
  then have "i = unat cmd" by simp
  with assms show ?case
    by (subst adjust_loop.simps) simp
next
  case (Suc d)
  then have i: "i < unat cmd" by simp
  with assms(2) have "(of_nat i :: u32) \<noteq> cmd"
    by (auto simp: word_unat_eq_iff unat_of_nat)
  moreover have "drop i (take (unat cmd) (entry b)) = entry b ! i # drop (Suc i) (take (unat cmd) (entry b))"
    using i assms by (subst Cons_nth_drop_Suc [symmetric]) simp_all
  ultimately show ?case
    using i assms Suc.hyps(1) [of "Suc i"] Suc.hyps(2)
    by (subst adjust_loop.simps) (simp add: add.assoc)
qed

lemma unat_sum_list:
  "sum_list (map unat ws) < 2 ^ LENGTH('a) \<Longrightarrow>
     unat (sum_list ws :: 'a::len word) = sum_list (map unat ws)"
  by (induction ws) (simp_all add: unat_add_small)

text \<open>The slots the ioctl may name: those a command has been stored in.\<close>

definition seekable :: "aesd_circular_buffer \<Rightarrow> u32 \<Rightarrow> u32 \<Rightarrow> bool" where
  "seekable b cmd off \<longleftrightarrow> unat cmd < 10 \<and> buffptr (entry b ! unat cmd) \<noteq> 0 \<and>
     unat off < unat (esize (entry b ! unat cmd))"

definition seek_pos :: "aesd_circular_buffer \<Rightarrow> u32 \<Rightarrow> u32 \<Rightarrow> nat" where
  "seek_pos b cmd off = sum_list (map (\<lambda>e. unat (esize e)) (take (unat cmd) (entry b))) + unat off"

lemma unat_ucast_u32: "unat (ucast (w :: u32) :: u64) = unat w"
proof -
  have "unat w < 2 ^ 64"
    by (rule less_trans [OF unsigned_less]) simp
  then show ?thesis
    by (simp add: unsigned_ucast_eq take_bit_nat_eq_self)
qed

lemma of_nat_sizes: "of_nat (sum_list (map (\<lambda>e. unat (esize e)) es)) = sum_list (map esize es)"
  by (induction es) simp_all

lemma set_entry_cmds:
  assumes "rb_inv b"
  shows "set (entry b) \<subseteq> insert zero_entry (set (ring_cmds b))"
proof -
  have "set (entry b) = set (ring_slots b)"
    by (metis append_take_drop_id inf_sup_aci(5) ring_slots_def set_append)
  then show ?thesis
    unfolding ring_slots_cmds [OF assms] by (auto simp: set_replicate_conv_if)
qed

lemma slot_size_bound:
  assumes "dev_wf st" and "e \<in> set (entry (buffer (aesd_device st)))"
  shows "unat (esize e) < 2 ^ 31"
  using assms set_entry_cmds [of "buffer (aesd_device st)"] cmd_entry(2) [OF assms(1)]
  by (auto simp: dev_wf_def zero_entry_def)

lemma adjust_result:
  assumes "dev_wf st" and "private_data filp = dev_addr st"
  shows "aesd_adjust_file_offset st filp cmd off =
    (if seekable (buffer (aesd_device st)) cmd off
     then Done (0, filp\<lparr>f_pos := of_nat (seek_pos (buffer (aesd_device st)) cmd off)\<rparr>)
     else Done (- EINVAL, filp))"
proof -
  let ?b = "buffer (aesd_device st)"
  have len: "length (entry ?b) = 10"
    using assms(1) rb_invD(1) by (auto simp: dev_wf_def)
  have off: "unat (ucast off :: u64) = unat off"
    by (rule unat_ucast_u32)
  have "cmd \<ge> 10 \<longleftrightarrow> \<not> unat cmd < 10"
    by (simp add: word_le_nat_alt not_less)
  moreover have "esize (entry ?b ! unat cmd) \<le> ucast off \<longleftrightarrow> \<not> unat off < unat (esize (entry ?b ! unat cmd))"
    by (simp add: word_le_nat_alt off not_less)
  moreover have "adjust_loop ?b cmd off 0 0 = of_nat (seek_pos ?b cmd off)" if "unat cmd < 10"
    using adjust_loop_sum [OF len that, of 0 off 0]
    by (simp add: seek_pos_def of_nat_sizes)
  ultimately show ?thesis
    using assms(2) by (auto simp: aesd_adjust_file_offset_def seekable_def Let_def)
qed


lemma ioctl_result:
  assumes inv: "dev_inv st" and ready: "ready K st filp" and laws: "lock_law K"
  shows "aesd_ioctl K st filp cmd arg =
    (if cmd \<noteq> AESDCHAR_IOCSEEKTO K then Done (- ENOTTY, filp, st)
     else if fst (copy_seekto_from_user K arg) \<noteq> 0 then Done (EFAULT, filp, st)
     else
       (let s = snd (copy_seekto_from_user K arg); b = buffer (aesd_device st)
        in if seekable b (write_cmd s) (write_cmd_offset s)
           then Done (0, filp\<lparr>f_pos := of_nat (seek_pos b (write_cmd s) (write_cmd_offset s))\<rparr>, st)
           else Done (- EINVAL, filp, st)))"
proof -
  have "dev_wf st" and "private_data filp = dev_addr st" and "\<not> lock (aesd_device st)"
    using inv ready by (simp_all add: dev_inv_def ready_def)
  then show ?thesis
    using lock_taken [OF ready laws]
    by (simp add: aesd_ioctl_def adjust_result unlocked [OF laws] Let_def split: prod.split)
qed

text \<open>While the ring has not wrapped (\<open>out_offs\<close> is 0) slot numbers are command numbers.\<close>

lemma unwrapped_slots:
  assumes "rb_inv b" and "out_offs b = 0"
  shows "entry b = ring_cmds b @ replicate (10 - length (ring_cmds b)) zero_entry"
  using ring_slots_cmds [OF assms(1)] assms(2) by (simp add: ring_slots_def)

lemma seekable_unwrapped:
  assumes wf: "dev_wf st" and "out_offs (buffer (aesd_device st)) = 0"
  defines "cmds \<equiv> a_cmds (absdev st)"
  shows "seekable (buffer (aesd_device st)) cmd off \<longleftrightarrow>
      unat cmd < length cmds \<and> unat off < length (cmds ! unat cmd)"
    and "unat cmd \<le> length cmds \<Longrightarrow>
      seek_pos (buffer (aesd_device st)) cmd off = length (concat (take (unat cmd) cmds)) + unat off"
proof -
  let ?b = "buffer (aesd_device st)"
  have inv: "rb_inv ?b" using wf by (simp add: dev_wf_def)
  have len: "length (ring_cmds ?b) = length cmds" "length cmds \<le> 10"
    using length_ring_cmds [OF inv] rb_invD(2) [OF inv] by (simp_all add: cmds_def absdev_def)
  have size: "unat (esize (ring_cmds ?b ! k)) = length (cmds ! k)" if "k < length cmds" for k
    using cmd_lengths [OF wf] that len(1) by (metis cmds_def length_map nth_map)
  have nz: "buffptr (ring_cmds ?b ! k) \<noteq> 0" if "k < length cmds" for k
    using cmd_entry(3) [OF wf, of "ring_cmds ?b ! k"] that len(1) wf
    by (auto simp: dev_wf_def heap_ok_def)
  show "seekable ?b cmd off \<longleftrightarrow> unat cmd < length cmds \<and> unat off < length (cmds ! unat cmd)"
    using unwrapped_slots [OF inv assms(2)] len size nz
    by (auto simp: seekable_def nth_append zero_entry_def split: if_splits)
  show "seek_pos ?b cmd off = length (concat (take (unat cmd) cmds)) + unat off"
    if "unat cmd \<le> length cmds"
    using unwrapped_slots [OF inv assms(2)] len that cmd_lengths [OF wf]
    by (simp add: seek_pos_def length_concat take_map [symmetric] cmds_def)
qed


text \<open>In general slot \<open>j\<close> holds the command that is number \<open>(j + 10 - out_offs) mod 10\<close> from the
  oldest one.\<close>

definition age :: "aesd_circular_buffer \<Rightarrow> nat \<Rightarrow> nat" where
  "age b j = (j + 10 - unat (out_offs b)) mod 10"

lemma slot_age:
  assumes "rb_inv b" and "j < 10"
  shows "ring_slots b ! age b j = entry b ! j"
proof -
  have "(unat (out_offs b) + age b j) mod 10 = (unat (out_offs b) + (j + 10 - unat (out_offs b))) mod 10"
    unfolding age_def by (rule mod_add_right_eq)
  also have "\<dots> = j"
    using rb_invD(3) [OF assms(1)] assms(2) by simp
  finally show ?thesis
    using ring_slots_nth [OF assms(1), of "age b j"] by (simp add: age_def)
qed

lemma seekable_full:
  assumes wf: "dev_wf st" and full: "full (buffer (aesd_device st))"
  defines "cmds \<equiv> a_cmds (absdev st)" and "b \<equiv> buffer (aesd_device st)"
  shows "seekable b cmd off \<longleftrightarrow> unat cmd < 10 \<and> unat off < length (cmds ! age b (unat cmd))"
    and "unat cmd \<le> 10 \<Longrightarrow>
      seek_pos b cmd off = sum_list (map (\<lambda>j. length (cmds ! age b j)) [0..<unat cmd]) + unat off"
proof -
  have inv: "rb_inv b" using wf by (simp add: b_def dev_wf_def)
  have slots: "ring_slots b = ring_cmds b" and len: "length (ring_cmds b) = 10"
    using full length_ring_cmds [OF inv] by (simp_all add: b_def ring_cmds_def)
  have size: "unat (esize (entry b ! j)) = length (cmds ! age b j)" if "j < 10" for j
  proof -
    have "map length cmds ! age b j = map (\<lambda>e. unat (esize e)) (ring_cmds b) ! age b j"
      by (simp only: cmds_def b_def cmd_lengths [OF wf])
    moreover have "length cmds = 10" and "age b j < 10"
      using len by (simp_all add: cmds_def b_def absdev_def age_def)
    ultimately show ?thesis
      using slot_age [OF inv that] slots len by simp
  qed
  have "buffptr (entry b ! j) \<noteq> 0" if "j < 10" for j
  proof -
    have "ring_cmds b ! age b j \<in> set (ring_cmds b)"
      using len by (simp add: age_def)
    then have "buffptr (ring_cmds b ! age b j) \<in> dom (heap st)"
      using cmd_entry(3) [OF wf] by (simp add: b_def)
    then show ?thesis
      using wf slot_age [OF inv that] slots by (auto simp: dev_wf_def heap_ok_def)
  qed
  then show "seekable b cmd off \<longleftrightarrow> unat cmd < 10 \<and> unat off < length (cmds ! age b (unat cmd))"
    using size by (auto simp: seekable_def)
  show "seek_pos b cmd off = sum_list (map (\<lambda>j. length (cmds ! age b j)) [0..<unat cmd]) + unat off"
    if "unat cmd \<le> 10"
  proof -
    have "map (\<lambda>e. unat (esize e)) (take (unat cmd) (entry b))
        = map (\<lambda>j. length (cmds ! age b j)) [0..<unat cmd]"
      using that rb_invD(1) [OF inv] size by (auto simp: list_eq_iff_nth_eq)
    then show ?thesis by (simp add: seek_pos_def)
  qed
qed

section \<open>Memory: leaks, failed allocations, unloading\<close>

definition leaked :: "kstate \<Rightarrow> ptr set" where
  "leaked st = dom (heap st) - set (ring_ptrs st) - {pend_ptr st}"

lemma heap_ok_notin: "heap_ok h \<Longrightarrow> 0 \<notin> dom h" "heap_ok h \<Longrightarrow> ZERO_SIZE_PTR \<notin> dom h"
  by (simp_all add: heap_ok_def domIff)

lemma length_ring_ptrs: "dev_wf st \<Longrightarrow> length (ring_ptrs st) \<le> 10"
  using length_ring_cmds [of "buffer (aesd_device st)"] rb_invD(2) [of "buffer (aesd_device st)"]
  by (simp add: ring_ptrs_def dev_wf_def)

lemma write_no_memory:
  assumes inv: "dev_inv st" and ready: "ready K st filp"
    and laws: "lock_law K" "krealloc_law K" "copy_from_user_law K"
    and user: "length buf = unat count"
    and grow: "krealloc K (heap st) (pend_ptr st)
                 (esize (dev_entry (aesd_device st)) + count) = (0, h1)"
  shows "aesd_write K st filp buf count pos = Fault"
proof -
  let ?e = "dev_entry (aesd_device st)"
  obtain rest bs where copy: "copy_from_user K buf count = (rest, bs)"
    by fastforce
  have len: "length bs = unat count" and rest: "rest \<le> count"
    using laws(3) user(1) copy unfolding copy_from_user_law_def by blast+
  have wf: "heap_ok (heap st)" "sized (heap st) ?e"
    "pend_ptr st = 0 \<or> pend_ptr st = ZERO_SIZE_PTR \<or> pend_ptr st \<in> dom (heap st)"
    using inv by (auto simp: dev_inv_def dev_wf_def)
  have "(0 :: ptr) \<noteq> ZERO_SIZE_PTR" by (simp add: ZERO_SIZE_PTR_def)
  then have n: "esize ?e + count \<noteq> 0" and "h1 = heap st"
    using laws(2) wf(1,3) grow unfolding krealloc_law_def by metis+
  then have null: "blk h1 0 = []"
    using wf(1) by (simp add: heap_ok_def)
  show ?thesis
  proof (cases "count = 0")
    case False
    then have "bs \<noteq> []" using len by (auto simp: unat_eq_0)
    then have "store_bytes h1 0 (esize ?e) bs = Fault"
      using null by (simp add: store_bytes_def)
    then show ?thesis
      using grow copy ready lock_taken [OF ready laws(1)]
      by (simp add: aesd_write_def ready_def pend_ptr_def Let_def)
  next
    case True
    then have z: "bs = []" "rest = 0" "0 < esize ?e"
      using len rest n by (simp_all add: word_gt_0)
    then have "write_loop h1 0 (aesd_device st\<lparr>lock := True, dev_entry := \<lparr>buffptr = 0, esize = esize ?e\<rparr>\<rparr>) = Fault"
      using null by (subst write_loop.simps) (simp add: load_byte_def)
    moreover have "store_bytes h1 0 (esize ?e) bs = Done h1"
      using z by (simp add: store_bytes_def)
    ultimately show ?thesis
      using write_call [OF ready laws(1) grow copy, of h1 pos] z True by simp
  qed
qed

lemma leaked_lastn:
  assumes "distinct xs" and "length xs \<le> 10" and "p \<notin> set xs" and "q = p \<or> q \<notin> D" and "set xs \<subseteq> D"
    and "q \<notin> set xs" and "0 \<notin> D" and "q \<noteq> 0"
  shows "(D - {p}) \<union> {q} - set (lastn 10 (xs @ [q])) - {0}
    = (D - set xs - {p}) \<union> (if length xs = 10 then {hd xs} else {})"
proof (cases "length xs = 10")
  case True
  then obtain x ys where xs: "xs = x # ys" by (cases xs) auto
  have "lastn 10 (xs @ [q]) = ys @ [q]"
    using lastn_snoc_full [of xs 10 q] True xs by simp
  with True xs assms show ?thesis
    by auto
next
  case False
  with assms show ?thesis by auto
qed

lemma krealloc_fresh:
  assumes "krealloc_law K" and "heap_ok h" and "p = 0 \<or> p = ZERO_SIZE_PTR \<or> p \<in> dom h"
    and "krealloc K h p n = (q, h1)" and "q \<noteq> 0"
  shows "q = p \<or> q \<notin> dom h"
proof (cases "n = 0")
  case True
  then have "q = ZERO_SIZE_PTR"
    using assms unfolding krealloc_law_def by metis
  then show ?thesis
    using heap_ok_notin(2) [OF assms(2)] by simp
next
  case False
  then show ?thesis
    using assms unfolding krealloc_law_def by metis
qed

lemma write_leak:
  assumes inv: "dev_inv st" and ready: "ready K st filp"
    and laws: "lock_law K" "krealloc_law K" "copy_from_user_law K"
    and user: "length buf = unat count" "unat count < 2 ^ 31"
    and grow: "krealloc K (heap st) (pend_ptr st)
                 (esize (dev_entry (aesd_device st)) + count) = (q, h1)" "q \<noteq> 0"
    and ret: "aesd_write K st filp buf count pos = Done (n, pos, st')"
  shows "leaked st' = leaked st \<union>
    (if newline \<in> set (a_pend (absdev st) @ take (unat n) buf) \<and> length (ring_ptrs st) = 10
     then {hd (ring_ptrs st)} else {})"
proof -
  obtain st1 where st1: "aesd_write K st filp buf count pos = Done (count - fst (copy_from_user K buf count), pos, st1)"
    "dev_inv st1"
    "dom (heap st1) = (dom (heap st) - {pend_ptr st}) \<union> (if q = ZERO_SIZE_PTR then {} else {q})"
    "if newline \<in> set (a_pend (absdev st) @ take (unat (count - fst (copy_from_user K buf count))) buf)
     then pend_ptr st1 = 0 \<and> ring_ptrs st1 = lastn 10 (ring_ptrs st @ [q])
     else pend_ptr st1 = q \<and> ring_ptrs st1 = ring_ptrs st"
    by (rule write_refines [OF inv ready laws user grow, of pos])
  then have n: "n = count - fst (copy_from_user K buf count)" and st': "st' = st1"
    using ret by simp_all
  note dom = st1(3) [folded st'] and shape = st1(4) [folded st' n]
  have wf: "dev_wf st" and wf': "dev_wf st'"
    using inv st1(2) st' by (simp_all add: dev_inv_def)
  have H: "heap_ok (heap st)" "heap_ok (heap st')" and sub: "set (ring_ptrs st) \<subseteq> dom (heap st)"
    and sub': "set (ring_ptrs st') \<subseteq> dom (heap st')" and dist: "distinct (ring_ptrs st)"
    and p: "pend_ptr st \<notin> set (ring_ptrs st)"
    and pend: "pend_ptr st = 0 \<or> pend_ptr st = ZERO_SIZE_PTR \<or> pend_ptr st \<in> dom (heap st)"
    using wf wf' by (auto simp: dev_wf_def)
  have q: "q = pend_ptr st \<or> q \<notin> dom (heap st)"
    by (rule krealloc_fresh [OF laws(2) H(1) pend grow])
  then have q': "q \<notin> set (ring_ptrs st)"
    using sub p by auto
  show ?thesis
  proof (cases "newline \<in> set (a_pend (absdev st) @ take (unat n) buf)")
    case True
    with shape have ring: "pend_ptr st' = 0" "ring_ptrs st' = lastn 10 (ring_ptrs st @ [q])"
      by simp_all
    have "q \<in> set (ring_ptrs st')"
      unfolding ring(2) by (simp add: lastn_def)
    then have "q \<noteq> ZERO_SIZE_PTR"
      using sub' heap_ok_notin(2) [OF H(2)] by auto
    then have "leaked st' = (dom (heap st) - {pend_ptr st}) \<union> {q} - set (lastn 10 (ring_ptrs st @ [q])) - {0}"
      using dom ring by (simp add: leaked_def)
    also have "\<dots> = leaked st \<union> (if length (ring_ptrs st) = 10 then {hd (ring_ptrs st)} else {})"
      unfolding leaked_def
      by (rule leaked_lastn [OF dist length_ring_ptrs [OF wf] p q sub q' heap_ok_notin(1) [OF H(1)] grow(2)])
    finally show ?thesis
      using True by simp
  next
    case False
    with shape have "pend_ptr st' = q" "ring_ptrs st' = ring_ptrs st"
      by simp_all
    then show ?thesis
      using False dom q q' by (auto simp: leaked_def)
  qed
qed

end
