(* ===== verification/Driver_System.thy ===== *)
theory Driver_System
  imports Driver_Handlers
begin

text \<open>
  The module as a whole: loading and unloading, interrupted calls, and every sequence of handler
  calls as the inductive relation \<open>history\<close>, with the device as a log of the accepted bytes.
\<close>

section \<open>Loading and unloading\<close>

lemma init_ok:
  assumes "chrdev_law K" and "heap_ok (heap st)" and "aesd_init_module K st = (0, st')"
  shows "dev_inv st'" "absdev st' = \<lparr>a_cmds = [], a_pend = []\<rparr>" "heap st' = heap st"
    "dev_addr st' = dev_addr st"
    "\<exists>dev. dev \<notin> chrdevs st \<and> chrdevs st' = insert dev (chrdevs st) \<and>
       cdevs st' = insert dev (cdevs st) \<and> MKDEV K (aesd_major st') (aesd_minor st') = dev"
proof -
  obtain rc dev regs where alloc: "alloc_chrdev_region K (chrdevs st) (aesd_minor st) = (rc, dev, regs)"
    by (metis prod_cases3)
  obtain err cs where add: "cdev_add K (cdevs st) (MKDEV K (MAJOR K dev) (aesd_minor st)) = (err, cs)"
    by fastforce
  have rc: "\<not> sint rc < 0"
    using assms(3) alloc by (auto simp: aesd_init_module_def)
  have reg: "dev \<notin> chrdevs st" "regs = insert dev (chrdevs st)" "MKDEV K (MAJOR K dev) (aesd_minor st) = dev"
    using assms(1) alloc rc unfolding chrdev_law_def by metis+
  have err: "err = 0"
    using assms(3) alloc add rc by (auto simp: aesd_init_module_def aesd_setup_cdev_def Let_def split: if_splits)
  have cs: "cs = insert dev (cdevs st)"
    using assms(1) add err reg(3) unfolding chrdev_law_def by metis
  have st': "st' = st\<lparr>chrdevs := regs, aesd_major := MAJOR K dev, aesd_device := zero_dev, cdevs := cs\<rparr>"
    using assms(3) alloc add rc err
    by (simp add: aesd_init_module_def aesd_setup_cdev_def Let_def zero_dev_def)
  show "heap st' = heap st" "dev_addr st' = dev_addr st"
    by (simp_all add: st')
  show "absdev st' = \<lparr>a_cmds = [], a_pend = []\<rparr>"
    by (simp add: st' absdev_def zero_dev_def zero_entry_def entry_bytes_def)
  show "dev_inv st'"
    using assms(2)
    by (simp add: st' dev_inv_def dev_wf_def ring_ptrs_def pend_ptr_def sized_def absdev_def
        zero_dev_def zero_entry_def entry_bytes_def)
  show "\<exists>dev. dev \<notin> chrdevs st \<and> chrdevs st' = insert dev (chrdevs st) \<and>
       cdevs st' = insert dev (cdevs st) \<and> MKDEV K (aesd_major st') (aesd_minor st') = dev"
    using reg cs by (intro exI [of _ dev]) (simp add: st')
qed

lemma init_fails_clean:
  assumes "chrdev_law K" and "aesd_init_module K st = (rc, st')" and "rc \<noteq> 0"
  shows "chrdevs st' = chrdevs st \<and> cdevs st' = cdevs st"
proof -
  obtain rc1 dev regs where alloc: "alloc_chrdev_region K (chrdevs st) (aesd_minor st) = (rc1, dev, regs)"
    by (metis prod_cases3)
  obtain err cs where add: "cdev_add K (cdevs st) (MKDEV K (MAJOR K dev) (aesd_minor st)) = (err, cs)"
    by fastforce
  have regs: "if sint rc1 < 0 then regs = chrdevs st else dev \<notin> chrdevs st \<and> regs = insert dev (chrdevs st)"
    using assms(1) alloc unfolding chrdev_law_def by metis
  have cs: "cs = (if err = 0 then insert (MKDEV K (MAJOR K dev) (aesd_minor st)) (cdevs st) else cdevs st)"
    and un: "unregister_chrdev_region K R dev = R - {dev}" for R
    using assms(1) add unfolding chrdev_law_def by metis+
  show ?thesis
    using assms(2,3) alloc add regs cs un
    by (auto simp: aesd_init_module_def aesd_setup_cdev_def Let_def split: if_splits)
qed

lemma free_entries:
  assumes "kfree_law K"
  shows "\<forall>e \<in> set es. buffptr e = 0 \<or> buffptr e \<in> dom h \<Longrightarrow>
    distinct (filter (\<lambda>p. p \<noteq> 0) (map buffptr es)) \<Longrightarrow> h 0 = None \<Longrightarrow> h ZERO_SIZE_PTR = None \<Longrightarrow>
    foldl (\<lambda>s e. and_then s (kfree_checked K (buffptr e))) (Done h) es
      = Done (h |` (- (buffptr ` set es)))"
proof (induction es arbitrary: h)
  case (Cons e es)
  show ?case
  proof (cases "buffptr e = 0")
    case True
    have "h |` (- insert 0 A) = h |` (- A)" for A
      using Cons.prems(3) by (auto simp: restrict_map_def fun_eq_iff)
    with True Cons.IH [of h] Cons.prems show ?thesis
      by (simp add: kfree_checked_def)
  next
    case False
    let ?h = "h(buffptr e := None)"
    have "buffptr e \<in> dom h" and "buffptr e \<noteq> ZERO_SIZE_PTR"
      using False Cons.prems(1,4) by auto
    then have "kfree_checked K (buffptr e) h = Done ?h"
      using False assms by (simp add: kfree_checked_def kfree_law_def)
    moreover have "foldl (\<lambda>s e. and_then s (kfree_checked K (buffptr e))) (Done ?h) es
        = Done (?h |` (- (buffptr ` set es)))"
    proof (rule Cons.IH)
      have "buffptr e \<notin> buffptr ` set es"
        using False Cons.prems(2) by auto
      then show "\<forall>e \<in> set es. buffptr e = 0 \<or> buffptr e \<in> dom ?h"
        using Cons.prems(1) by (metis Diff_iff dom_fun_upd image_eqI list.set_intros(2) singletonD)
    qed (use False Cons.prems in simp_all)
    moreover have "?h |` (- (buffptr ` set es)) = h |` (- (buffptr ` set (e # es)))"
      by (auto simp: restrict_map_def fun_eq_iff)
    ultimately show ?thesis by simp
  qed
qed (simp add: restrict_map_def)

lemma set_entry_slots: "set (ring_slots b) = set (entry b)"
  by (metis append_take_drop_id inf_sup_aci(5) ring_slots_def set_append)

lemma distinct_entry_ptrs:
  assumes "dev_wf st"
  shows "distinct (filter (\<lambda>p. p \<noteq> 0) (map buffptr (entry (buffer (aesd_device st)))))"
proof -
  let ?b = "buffer (aesd_device st)"
  have "rb_inv ?b" and dist: "distinct (ring_ptrs st)"
    using assms by (simp_all add: dev_wf_def)
  then have "distinct (filter (\<lambda>p. p \<noteq> 0) (map buffptr (ring_slots ?b)))"
    by (simp add: ring_slots_cmds ring_ptrs_def zero_entry_def)
  moreover have "distinct (filter P (map buffptr (ys @ zs))) = distinct (filter P (map buffptr (zs @ ys)))"
    for P and ys zs :: "aesd_buffer_entry list"
    by auto
  ultimately show ?thesis
    unfolding ring_slots_def by (metis append_take_drop_id)
qed

lemma set_entry_ptrs:
  assumes "dev_wf st"
  shows "insert 0 (buffptr ` set (entry (buffer (aesd_device st)))) = insert 0 (set (ring_ptrs st))"
proof -
  have "rb_inv (buffer (aesd_device st))" using assms by (simp add: dev_wf_def)
  from ring_slots_cmds [OF this] show ?thesis
    unfolding set_entry_slots [symmetric]
    by (auto simp: ring_ptrs_def zero_entry_def set_replicate_conv_if split: if_splits)
qed

lemma restrict_insert_None: "h x = None \<Longrightarrow> h |` (- insert x A) = h |` (- A)"
  by (auto simp: restrict_map_def fun_eq_iff)

lemma free_ring:
  assumes "dev_wf st" and "kfree_law K"
  shows "AESD_CIRCULAR_BUFFER_FOREACH (\<lambda>e. kfree_checked K (buffptr e)) (buffer (aesd_device st)) 0 (heap st)
    = Done (heap st |` (- set (ring_ptrs st)))"
proof -
  let ?b = "buffer (aesd_device st)" and ?h = "heap st"
  have rb: "rb_inv ?b" and h: "?h 0 = None" "?h ZERO_SIZE_PTR = None" and sub: "set (ring_ptrs st) \<subseteq> dom ?h"
    using assms(1) by (simp_all add: dev_wf_def heap_ok_def)
  have "buffptr e \<in> insert 0 (set (ring_ptrs st))" if "e \<in> set (entry ?b)" for e
    using that set_entry_ptrs [OF assms(1)] by blast
  then have "\<forall>e \<in> set (entry ?b). buffptr e = 0 \<or> buffptr e \<in> dom ?h"
    using sub by blast
  then have "foldl (\<lambda>s e. and_then s (kfree_checked K (buffptr e))) (Done ?h) (entry ?b)
      = Done (?h |` (- (buffptr ` set (entry ?b))))"
    by (rule free_entries [OF assms(2) _ distinct_entry_ptrs [OF assms(1)] h])
  also have "?h |` (- (buffptr ` set (entry ?b))) = ?h |` (- set (ring_ptrs st))"
    using restrict_insert_None [where h = ?h and x = 0, OF h(1)] set_entry_ptrs [OF assms(1)] by metis
  finally show ?thesis
    using foreach_entries [OF rb_invD(1) [OF rb], of "\<lambda>e. kfree_checked K (buffptr e)" ?h] by simp
qed

lemma cleanup_ok:
  assumes inv: "dev_inv st" and laws: "kfree_law K" "chrdev_law K"
  defines "devno \<equiv> MKDEV K (aesd_major st) (aesd_minor st)"
  shows "aesd_cleanup_module K st = Done (st\<lparr>cdevs := cdevs st - {devno},
    heap := heap st |` (- set (ring_ptrs st)), chrdevs := chrdevs st - {devno}\<rparr>)"
proof -
  note law = laws(2) [unfolded chrdev_law_def, THEN conjunct2]
  have un: "unregister_chrdev_region K R d = R - {d}" for R d
    using law [THEN conjunct1] by simp
  have del: "cdev_del K R d = R - {d}" for R d
    using law [THEN conjunct2, THEN conjunct2] by simp
  show ?thesis
    using free_ring [OF _ laws(1)] inv
    by (simp add: aesd_cleanup_module_def Let_def un del devno_def dev_inv_def)
qed

section \<open>Interrupted calls\<close>

lemma interrupted:
  assumes "lock_law K" and "private_data filp = dev_addr st"
    and "fst (mutex_lock_interruptible K (lock (aesd_device st))) \<noteq> 0"
  shows "aesd_read K st filp count pos = Done (- ERESTARTSYS, pos, [], st)"
    and "aesd_write K st filp buf count pos = Done (- ERESTARTSYS, pos, st)"
    and "aesd_llseek K st filp off whence = Done (- ERESTARTSYS, filp, st)"
    and "aesd_ioctl K st filp cmd arg = Done (- ERESTARTSYS, filp, st)"
proof -
  obtain rc held where "mutex_lock_interruptible K (lock (aesd_device st)) = (rc, held)"
    by fastforce
  moreover from this have "rc \<noteq> 0" and "held = lock (aesd_device st)"
    using assms(1,3) unfolding lock_law_def by (simp, metis fst_conv)
  moreover have "dev\<lparr>lock := lock dev\<rparr> = dev" for dev :: aesd_dev
    by (cases dev) simp
  ultimately show "aesd_read K st filp count pos = Done (- ERESTARTSYS, pos, [], st)"
    and "aesd_write K st filp buf count pos = Done (- ERESTARTSYS, pos, st)"
    and "aesd_llseek K st filp off whence = Done (- ERESTARTSYS, filp, st)"
    and "aesd_ioctl K st filp cmd arg = Done (- ERESTARTSYS, filp, st)"
    using assms(2) by (simp_all add: aesd_read_def aesd_write_def aesd_llseek_def aesd_ioctl_def Let_def)
qed

section \<open>The device in use\<close>

text \<open>
  One step of the loaded module is one call of a handler by some process; the handlers run
  one after another because each holds the mutex for its whole body. The kernel may answer every
  call differently, so the kernel is chosen anew in each step, within the laws.
\<close>

definition kernel_ok :: "kernel \<Rightarrow> bool" where
  "kernel_ok K \<longleftrightarrow> lock_law K \<and> krealloc_law K \<and> kfree_law K \<and> copy_from_user_law K \<and>
     copy_to_user_law K \<and> copy_seekto_law K \<and> llseek_law K \<and> chrdev_law K"

definition accepted :: "s64 \<Rightarrow> string \<Rightarrow> string" where
  "accepted ret buf = (if sint ret < 0 then [] else take (unat ret) buf)"

inductive dev_step :: "kstate \<Rightarrow> string \<Rightarrow> kstate \<Rightarrow> bool" where
  do_read: "kernel_ok K \<Longrightarrow> private_data filp = dev_addr st \<Longrightarrow> unat count < 2 ^ 31 \<Longrightarrow>
    aesd_read K st filp count pos = Done (ret, pos', bs, st') \<Longrightarrow> dev_step st [] st'"
| do_write: "kernel_ok K \<Longrightarrow> private_data filp = dev_addr st \<Longrightarrow> length buf = unat count \<Longrightarrow>
    unat count < 2 ^ 31 \<Longrightarrow>
    aesd_write K st filp buf count pos = Done (ret, pos', st') \<Longrightarrow> dev_step st (accepted ret buf) st'"
| do_llseek: "kernel_ok K \<Longrightarrow> private_data filp = dev_addr st \<Longrightarrow>
    aesd_llseek K st filp off whence = Done (ret, filp', st') \<Longrightarrow> dev_step st [] st'"
| do_ioctl: "kernel_ok K \<Longrightarrow> private_data filp = dev_addr st \<Longrightarrow>
    aesd_ioctl K st filp cmd arg = Done (ret, filp', st') \<Longrightarrow> dev_step st [] st'"

inductive history :: "string list \<Rightarrow> kstate \<Rightarrow> bool" where
  loaded: "kernel_ok K \<Longrightarrow> heap_ok (heap st) \<Longrightarrow> aesd_init_module K st = (0, st') \<Longrightarrow> history [] st'"
| step: "history ws st \<Longrightarrow> dev_step st w st' \<Longrightarrow> history (ws @ [w]) st'"


lemma sint_small:
  assumes "unat (n :: s64) < 2 ^ 31"
  shows "sint n = int (unat n)"
proof -
  have "int (unat n) < int (2 ^ 31)"
    using assms by (simp only: of_nat_less_iff)
  then have up: "uint n < 2 ^ 63" by simp
  have low: "- (2 ^ 63) \<le> uint n"
    by (rule order_trans [of _ 0]) simp_all
  have "signed_take_bit 63 (uint n) = uint n"
    by (subst signed_take_bit_int_eq_self_iff) (use low up in blast)
  then show ?thesis
    by (simp add: sint_uint)
qed

lemma not_ready_keeps:
  assumes "lock_law K" and "private_data filp = dev_addr st" and "\<not> ready K st filp"
  shows "aesd_read K st filp count pos = Done (- ERESTARTSYS, pos, [], st)"
    and "aesd_write K st filp buf count pos = Done (- ERESTARTSYS, pos, st)"
    and "aesd_llseek K st filp off whence = Done (- ERESTARTSYS, filp, st)"
    and "aesd_ioctl K st filp cmd arg = Done (- ERESTARTSYS, filp, st)"
  using interrupted [OF assms(1,2)] assms(2,3) by (simp_all add: ready_def)

lemma read_keeps:
  assumes inv: "dev_inv st" and K: "kernel_ok K" and addr: "private_data filp = dev_addr st"
    and "unat count < 2 ^ 31"
  shows "\<exists>ret pos' bs. aesd_read K st filp count pos = Done (ret, pos', bs, st)"
proof (cases "ready K st filp")
  case True
  have laws: "lock_law K" "copy_to_user_law K" using K by (simp_all add: kernel_ok_def)
  show ?thesis
  proof (cases "seek_entry (map length (a_cmds (absdev st))) (unat pos)")
    case None
    then have "length (content (absdev st)) \<le> unat pos"
      by (simp add: seek_entry_None content_def length_concat)
    then show ?thesis using read_eof [OF inv True laws(1)] by blast
  next
    case (Some kr)
    then obtain k r where "seek_entry (map length (a_cmds (absdev st))) (unat pos) = Some (k, r)"
      by (cases kr) simp
    then show ?thesis using read_hit [OF inv True laws assms(4)] by blast
  qed
next
  case False
  then show ?thesis
    using not_ready_keeps(1) [of K filp st count pos] K addr by (simp add: kernel_ok_def)
qed

lemma llseek_keeps:
  assumes inv: "dev_inv st" and K: "kernel_ok K" and addr: "private_data filp = dev_addr st"
  shows "\<exists>ret filp'. aesd_llseek K st filp off whence = Done (ret, filp', st)"
proof (cases "ready K st filp")
  case True
  have law: "lock_law K" using K by (simp add: kernel_ok_def)
  have unlk: "\<not> lock (aesd_device st)" using inv by (simp add: dev_inv_def)
  obtain r f where "fixed_size_llseek K filp off whence (ucast (total_size (buffer (aesd_device st)))) = (r, f)"
    by fastforce
  with lock_taken [OF True law] unlk addr show ?thesis
    by (simp add: aesd_llseek_def unlocked [OF law])
next
  case False
  then show ?thesis
    using not_ready_keeps(3) [of K filp st off whence] K addr by (simp add: kernel_ok_def)
qed

lemma ioctl_keeps:
  assumes inv: "dev_inv st" and K: "kernel_ok K" and addr: "private_data filp = dev_addr st"
  shows "\<exists>ret filp'. aesd_ioctl K st filp cmd arg = Done (ret, filp', st)"
proof (cases "ready K st filp")
  case True
  have law: "lock_law K" using K by (simp add: kernel_ok_def)
  show ?thesis
    unfolding ioctl_result [OF inv True law] Let_def by (simp split: if_split)
next
  case False
  then show ?thesis
    using not_ready_keeps(4) [of K filp st cmd arg] K addr by (simp add: kernel_ok_def)
qed

text \<open>What the ring's byte counter grows by.\<close>

definition counted :: "adev \<Rightarrow> string \<Rightarrow> u8" where
  "counted a s = (if newline \<in> set (a_pend a @ s) then of_nat (length (a_pend a @ s)) else 0)"

lemma write_cases:
  assumes inv: "dev_inv st" and K: "kernel_ok K" and addr: "private_data filp = dev_addr st"
    and user: "length buf = unat count" "unat count < 2 ^ 31"
  shows "(ready K st filp \<and> aesd_write K st filp buf count pos = Fault \<and>
      fst (krealloc K (heap st) (pend_ptr st) (esize (dev_entry (aesd_device st)) + count)) = 0) \<or>
    (\<exists>ret st'. aesd_write K st filp buf count pos = Done (ret, pos, st') \<and> dev_inv st' \<and>
      absdev st' = dev_append (absdev st) (accepted ret buf) \<and> dev_addr st' = dev_addr st \<and>
      total_size (buffer (aesd_device st')) = total_size (buffer (aesd_device st)) +
        counted (absdev st) (accepted ret buf))"
proof (cases "ready K st filp")
  case ready: True
  have laws: "lock_law K" "krealloc_law K" "copy_from_user_law K"
    using K by (simp_all add: kernel_ok_def)
  obtain q h1 where grow: "krealloc K (heap st) (pend_ptr st) (esize (dev_entry (aesd_device st)) + count) = (q, h1)"
    by fastforce
  show ?thesis
  proof (cases "q = 0")
    case True
    with grow write_no_memory [OF inv ready laws user(1), of h1 pos] ready show ?thesis by simp
  next
    case False
    define n where "n = count - fst (copy_from_user K buf count)"
    obtain st' where st': "aesd_write K st filp buf count pos = Done (n, pos, st')" "dev_inv st'"
      "absdev st' = dev_append (absdev st) (take (unat n) buf)" "dev_addr st' = dev_addr st"
      "total_size (buffer (aesd_device st')) = total_size (buffer (aesd_device st)) +
        counted (absdev st) (take (unat n) buf)"
      unfolding counted_def n_def by (rule write_refines [OF inv ready laws user grow False])
    have "fst (copy_from_user K buf count) \<le> count"
      using laws(3) user(1) unfolding copy_from_user_law_def by (metis prod.collapse)
    then have "unat n < 2 ^ 31"
      using user(2) by (simp add: n_def unat_diff_le)
    then have "accepted n buf = take (unat n) buf"
      using sint_small [of n] by (simp add: accepted_def)
    with st' show ?thesis by auto
  qed
next
  case False
  then have "aesd_write K st filp buf count pos = Done (- ERESTARTSYS, pos, st)"
    using not_ready_keeps(2) [of K filp st buf count pos] K addr by (simp add: kernel_ok_def)
  moreover have "accepted (- ERESTARTSYS) buf = []"
    by (simp add: accepted_def ERESTARTSYS_def)
  moreover have "dev_append (absdev st) [] = absdev st" and "counted (absdev st) [] = 0"
    using inv by (simp_all add: dev_append_def counted_def dev_inv_def)
  ultimately show ?thesis using inv by auto
qed

section \<open>The device as a log of what was written\<close>

text \<open>How the driver cuts a sequence of writes into commands: a command ends with the write that
  brings its first newline.\<close>

fun commands :: "string \<Rightarrow> string list \<Rightarrow> string list \<times> string" where
  "commands p [] = ([], p)"
| "commands p (w # ws) =
     (if newline \<in> set (p @ w) then (let (cs, r) = commands [] ws in ((p @ w) # cs, r))
      else commands (p @ w) ws)"

lemma commands_concat: "concat (fst (commands p ws)) @ snd (commands p ws) = p @ concat ws"
  by (induction p ws rule: commands.induct) (auto simp: split_def Let_def)

lemma dev_append_log:
  assumes "length (a_cmds a) \<le> 10"
  shows "foldl dev_append a ws =
    \<lparr>a_cmds = lastn 10 (a_cmds a @ fst (commands (a_pend a) ws)), a_pend = snd (commands (a_pend a) ws)\<rparr>"
  using assms
proof (induction ws arbitrary: a)
  case Nil
  then show ?case by (cases a) (simp add: lastn_all)
next
  case (Cons w ws)
  show ?case
  proof (cases "newline \<in> set (a_pend a @ w)")
    case True
    then show ?thesis
      using Cons.IH [of "dev_append a w"]
      by (simp add: dev_append_def lastn_lastn_append split_def Let_def)
  next
    case False
    then show ?thesis
      using Cons.IH [of "dev_append a w"] Cons.prems
      by (simp add: dev_append_def)
  qed
qed

lemma lastn_suffix: "\<exists>pre. xs = pre @ lastn n xs"
  by (metis append_take_drop_id lastn_def)

lemma write_step_inv:
  assumes "dev_inv st" and "dev_step st w st'"
  shows "dev_inv st' \<and> absdev st' = dev_append (absdev st) w \<and> dev_addr st' = dev_addr st \<and>
    total_size (buffer (aesd_device st')) = total_size (buffer (aesd_device st)) + counted (absdev st) w"
proof -
  have same: "dev_append (absdev st) [] = absdev st" "counted (absdev st) [] = 0"
    using assms(1) by (simp_all add: dev_append_def counted_def dev_inv_def)
  from assms(2) show ?thesis
  proof cases
    case (do_read K filp count pos ret pos' bs)
    then show ?thesis
      using read_keeps [OF assms(1) do_read(2-4), of pos] assms(1) same by auto
  next
    case (do_write K filp buf count pos ret pos')
    then show ?thesis
      using write_cases [OF assms(1) do_write(2-5), of pos] by auto
  next
    case (do_llseek K filp off whence ret filp')
    then show ?thesis
      using llseek_keeps [OF assms(1) do_llseek(2,3), of off whence] assms(1) same by auto
  next
    case (do_ioctl K filp cmd arg ret filp')
    then show ?thesis
      using ioctl_keeps [OF assms(1) do_ioctl(2,3), of cmd arg] assms(1) same by auto
  qed
qed

lemma commands_snoc:
  "fst (commands p (ws @ [w])) = fst (commands p ws) @
     (if newline \<in> set (snd (commands p ws) @ w) then [snd (commands p ws) @ w] else [])"
  by (induction p ws rule: commands.induct) (auto simp: split_def Let_def)

lemma history_inv:
  "history ws st \<Longrightarrow> dev_inv st \<and> absdev st = foldl dev_append \<lparr>a_cmds = [], a_pend = []\<rparr> ws \<and>
     total_size (buffer (aesd_device st)) = of_nat (length (concat (fst (commands [] ws))))"
proof (induction rule: history.induct)
  case (loaded K st st')
  then have "dev_inv st' \<and> absdev st' = \<lparr>a_cmds = [], a_pend = []\<rparr>"
    using init_ok(1,2) [of K st st'] by (simp add: kernel_ok_def)
  moreover have "total_size (buffer (aesd_device st')) = 0"
    using loaded(3) by (auto simp: aesd_init_module_def aesd_setup_cdev_def zero_dev_def
        aesd_circular_buffer_init_def Let_def split: prod.splits if_splits)
  ultimately show ?case by simp
next
  case (step ws st w st')
  have "a_pend (absdev st) = snd (commands [] ws)"
    using step.IH dev_append_log [of "\<lparr>a_cmds = [], a_pend = []\<rparr>" ws] by simp
  then have "counted (absdev st) w = of_nat (length (concat
      (if newline \<in> set (snd (commands [] ws) @ w) then [snd (commands [] ws) @ w] else [])))"
    by (simp add: counted_def)
  with step.IH step.hyps write_step_inv [of st w st'] show ?case
    by (simp add: commands_snoc)
qed

lemma history_log:
  assumes "history ws st"
  shows "a_cmds (absdev st) = lastn 10 (fst (commands [] ws))" "a_pend (absdev st) = snd (commands [] ws)"
  using history_inv [OF assms] dev_append_log [of "\<lparr>a_cmds = [], a_pend = []\<rparr>" ws] by simp_all

lemma history_suffix:
  assumes "history ws st"
  shows "\<exists>lost. concat ws = lost @ content (absdev st) @ a_pend (absdev st)"
proof -
  obtain pre where "fst (commands [] ws) = pre @ lastn 10 (fst (commands [] ws))"
    using lastn_suffix by blast
  then have "concat (fst (commands [] ws)) = concat pre @ content (absdev st)"
    unfolding content_def history_log(1) [OF assms] by (metis concat_append)
  then show ?thesis
    using commands_concat [of "[]" ws] history_log(2) [OF assms] by (metis append.assoc append_Nil)
qed

end
