(* ===== verification/Reference_Kernel.thy ===== *)
theory Reference_Kernel
  imports Driver_System
begin

text \<open>
  One kernel that obeys every law of \<open>Kernel_Api\<close>: the witnesses evaluate the
  driver's handlers in it. It hands out the first free address of a short list, copies
  everything, is never interrupted, and keeps one major number.
\<close>

definition fresh_ptr :: "kheap \<Rightarrow> ptr" where
  "fresh_ptr h =
     (case filter (\<lambda>p. h p = None) [4096, 8192, 12288, 16384] of [] \<Rightarrow> 0 | p # _ \<Rightarrow> p)"

definition ref_krealloc :: "kheap \<Rightarrow> ptr \<Rightarrow> u64 \<Rightarrow> ptr \<times> kheap" where
  "ref_krealloc h p n =
     (let q = (if p = 0 \<or> p = ZERO_SIZE_PTR then fresh_ptr h else p)
      in if n = 0 then (ZERO_SIZE_PTR, h(p := None))
         else if q = 0 \<or> 2 ^ 31 \<le> unat n then (0, h)
         else (q, (h(p := None))
                (q \<mapsto> take (unat n) (blk h p) @ replicate (unat n - length (blk h p)) (CHR 0x00))))"

definition ref_llseek :: "kfile \<Rightarrow> s64 \<Rightarrow> s32 \<Rightarrow> s64 \<Rightarrow> s64 \<times> kfile" where
  "ref_llseek f off whence sz =
     (let p = (if whence = 0 then 0 else if whence = 1 then sint (f_pos f) else sint sz) + sint off
      in if whence \<in> {0, 1, 2} \<and> 0 \<le> p \<and> p \<le> sint sz
         then (of_int p, f\<lparr>f_pos := of_int p\<rparr>) else (- 22, f))"

definition ref_MKDEV :: "u32 \<Rightarrow> u32 \<Rightarrow> u32" where
  "ref_MKDEV major minor = major * 2 ^ 20 + minor"

definition ref_alloc_region :: "u32 set \<Rightarrow> u32 \<Rightarrow> s32 \<times> u32 \<times> u32 set" where
  "ref_alloc_region regs minor =
     (let dev = ref_MKDEV 250 minor
      in if 2 ^ 20 \<le> minor \<or> dev \<in> regs then (- 16, 0, regs) else (0, dev, insert dev regs))"

definition ref_kernel :: kernel where
  "ref_kernel =
     \<lparr>krealloc = ref_krealloc,
      kfree = (\<lambda>h p. h(p := None)),
      copy_from_user = (\<lambda>src n. (0, src)),
      copy_to_user = (\<lambda>src n. (0, src)),
      copy_seekto_from_user = (\<lambda>src. (0, src)),
      mutex_lock_interruptible = (\<lambda>held. (0, True)),
      mutex_unlock = (\<lambda>held. False),
      fixed_size_llseek = ref_llseek,
      IOWR = (\<lambda>ty nr sz. 0x40000000 + sz * 2 ^ 16 + ty * 2 ^ 8 + nr),
      MAJOR = (\<lambda>dev. 250),
      MKDEV = ref_MKDEV,
      alloc_chrdev_region = ref_alloc_region,
      unregister_chrdev_region = (\<lambda>regs dev. regs - {dev}),
      cdev_add = (\<lambda>cs dev. (0, insert dev cs)),
      cdev_del = (\<lambda>cs dev. cs - {dev})\<rparr>"

lemma fresh_ptr: "fresh_ptr h = 0 \<or> (fresh_ptr h \<noteq> ZERO_SIZE_PTR \<and> fresh_ptr h \<notin> dom h)"
  by (simp add: fresh_ptr_def ZERO_SIZE_PTR_def domIff)

lemma ref_select:
  "krealloc ref_kernel = ref_krealloc" "fixed_size_llseek ref_kernel = ref_llseek"
  "copy_from_user ref_kernel src n = (0, src)" "copy_to_user ref_kernel src n = (0, src)"
  "copy_seekto_from_user ref_kernel arg = (0, arg)"
  "mutex_lock_interruptible ref_kernel held = (0, True)" "\<not> mutex_unlock ref_kernel held"
  "MKDEV ref_kernel = ref_MKDEV"
  by (simp_all add: ref_kernel_def)

lemma ref_krealloc_law: "krealloc_law ref_kernel"
proof -
  have "if n = 0 then q = ZERO_SIZE_PTR \<and> h' = h(p := None)
      else q = 0 \<and> h' = h \<or>
        unat n < 2 ^ 31 \<and> q \<noteq> 0 \<and> q \<noteq> ZERO_SIZE_PTR \<and> (q = p \<or> q \<notin> dom h) \<and>
        (\<exists>junk. length (take (unat n) (blk h p) @ junk) = unat n \<and>
           h' = (h(p := None))(q \<mapsto> take (unat n) (blk h p) @ junk))"
    if "ref_krealloc h p n = (q, h')" for h p n q h'
  proof (cases "n = 0 \<or> q = 0")
    case True
    with that show ?thesis
      by (auto simp: ref_krealloc_def Let_def ZERO_SIZE_PTR_def split: if_splits)
  next
    case False
    define junk where "junk = replicate (unat n - length (blk h p)) (CHR 0x00)"
    from False that have *: "q = (if p = 0 \<or> p = ZERO_SIZE_PTR then fresh_ptr h else p)"
      "unat n < 2 ^ 31" "h' = (h(p := None))(q \<mapsto> take (unat n) (blk h p) @ junk)"
      by (auto simp: ref_krealloc_def Let_def junk_def not_le split: if_splits)
    have "length (take (unat n) (blk h p) @ junk) = unat n"
      by (simp add: junk_def)
    with * False fresh_ptr [of h] show ?thesis by auto
  qed
  then show ?thesis
    unfolding krealloc_law_def ref_select by blast
qed

lemma ref_llseek_law: "llseek_law ref_kernel"
proof -
  have "let base = (if whence = 0 then Some 0 else if whence = 1 then Some (sint (f_pos f))
                     else if whence = 2 then Some (sint sz) else None)
         in case base of
              None \<Rightarrow> ret = - 22 \<and> f' = f
            | Some p \<Rightarrow>
                if 0 \<le> p + sint off \<and> p + sint off \<le> sint sz
                then sint ret = p + sint off \<and> f' = f\<lparr>f_pos := ret\<rparr>
                else ret = - 22 \<and> f' = f"
    if "ref_llseek f off whence sz = (ret, f')" for f f' :: kfile and off sz ret :: s64 and whence :: s32
  proof -
    have exact: "sint (of_int p :: s64) = p" if "0 \<le> p" and "p \<le> sint sz" for p
    proof -
      have "p < 2 ^ 63"
        using that(2) sint_lt [of sz] by simp
      moreover have "- (2 ^ 63) \<le> p"
        by (rule order_trans [of _ 0]) (use that in simp_all)
      ultimately show ?thesis
        by (simp add: sint_sbintrunc' signed_take_bit_int_eq_self)
    qed
    show ?thesis
      using that exact [of "sint off"] exact [of "sint (f_pos f) + sint off"] exact [of "sint sz + sint off"]
      by (auto simp: ref_llseek_def Let_def split: if_splits)
  qed
  then show ?thesis
    unfolding llseek_law_def ref_select by blast
qed

lemma ref_chrdev_law: "chrdev_law ref_kernel"
  by (auto simp: chrdev_law_def ref_kernel_def ref_alloc_region_def Let_def split: if_splits)

lemma ref_copies_all: "copies_all ref_kernel"
  by (simp add: copies_all_def ref_kernel_def)

lemma ref_simple_laws:
  "lock_law ref_kernel" "kfree_law ref_kernel" "copy_from_user_law ref_kernel"
  "copy_to_user_law ref_kernel" "copy_seekto_law ref_kernel"
  by (simp_all add: lock_law_def kfree_law_def copy_from_user_law_def copy_to_user_law_def
      copy_seekto_law_def ref_kernel_def)

lemma ref_kernel_ok: "kernel_ok ref_kernel"
  by (simp add: kernel_ok_def ref_simple_laws ref_krealloc_law ref_llseek_law ref_chrdev_law)

lemmas ref_laws = ref_simple_laws ref_krealloc_law ref_llseek_law ref_chrdev_law ref_copies_all

section \<open>The loaded module\<close>

definition boot :: kstate where
  "boot = \<lparr>aesd_device = zero_dev, dev_addr = 2048, heap = Map.empty, aesd_major = 0,
           aesd_minor = 0, chrdevs = {}, cdevs = {}\<rparr>"

definition loaded :: kstate where
  "loaded = snd (aesd_init_module ref_kernel boot)"

definition ref_file :: kfile where
  "ref_file = \<lparr>private_data = 2048, f_pos = 0\<rparr>"

lemma boot_heap_ok: "heap_ok (heap boot)"
  by (simp add: heap_ok_def boot_def)

lemma init_boot: "aesd_init_module ref_kernel boot = (0, loaded)"
  by (simp add: loaded_def aesd_init_module_def aesd_setup_cdev_def boot_def ref_kernel_def
      ref_alloc_region_def Let_def)

lemma loaded_simps:
  "aesd_device loaded = zero_dev" "dev_addr loaded = 2048" "heap loaded = Map.empty"
  by (simp_all add: loaded_def aesd_init_module_def aesd_setup_cdev_def boot_def ref_kernel_def
      ref_alloc_region_def zero_dev_def Let_def)

lemma loaded_inv: "dev_inv loaded" "absdev loaded = \<lparr>a_cmds = [], a_pend = []\<rparr>"
  using init_ok(1,2) [OF ref_chrdev_law boot_heap_ok init_boot] by blast+

lemma loaded_ready: "ready ref_kernel loaded ref_file"
  by (simp add: ready_def ref_kernel_def ref_file_def loaded_simps)

lemma history_loaded: "history [] loaded"
  by (rule history.loaded [OF ref_kernel_ok boot_heap_ok init_boot])


section \<open>A full device\<close>

text \<open>Any ten commands, in the slots from 0 on.\<close>

definition ten_ptrs :: "ptr list" where
  "ten_ptrs = map of_nat [1000..<1010]"

definition ten_dev :: "string list \<Rightarrow> kstate" where
  "ten_dev cmds = loaded\<lparr>
     aesd_device := zero_dev\<lparr>buffer :=
       \<lparr>entry = map2 (\<lambda>p c. \<lparr>buffptr = p, esize = of_nat (length c)\<rparr>) ten_ptrs cmds,
        in_offs = 0, out_offs = 0, full = True, total_size = of_nat (length (concat cmds))\<rparr>\<rparr>,
     heap := map_of (zip ten_ptrs cmds)\<rparr>"

definition ten_lines :: "string list \<Rightarrow> bool" where
  "ten_lines cmds \<longleftrightarrow> length cmds = 10 \<and> (\<forall>c \<in> set cmds. newline \<in> set c \<and> length c < 2 ^ 31)"

lemma ten_ptrs_eq: "ten_ptrs = [1000, 1001, 1002, 1003, 1004, 1005, 1006, 1007, 1008, 1009]"
  by (simp add: ten_ptrs_def upt_rec)

lemma ten_ptrs_ok: "distinct ten_ptrs" "length ten_ptrs = 10" "0 \<notin> set ten_ptrs" "16 \<notin> set ten_ptrs"
  by (simp_all add: ten_ptrs_eq)

lemma ten_dev_simps:
  "buffer (aesd_device (ten_dev cmds)) =
     \<lparr>entry = map2 (\<lambda>p c. \<lparr>buffptr = p, esize = of_nat (length c)\<rparr>) ten_ptrs cmds,
      in_offs = 0, out_offs = 0, full = True, total_size = of_nat (length (concat cmds))\<rparr>"
  "dev_entry (aesd_device (ten_dev cmds)) = zero_entry" "\<not> lock (aesd_device (ten_dev cmds))"
  "heap (ten_dev cmds) = map_of (zip ten_ptrs cmds)" "dev_addr (ten_dev cmds) = 2048"
  by (simp_all add: ten_dev_def zero_dev_def loaded_simps)

lemma ten_dev_slot:
  assumes "ten_lines cmds" and "i < 10"
  shows "heap (ten_dev cmds) (ten_ptrs ! i) = Some (cmds ! i)"
    and "unat (of_nat (length (cmds ! i)) :: u64) = length (cmds ! i)"
proof -
  have "zip ten_ptrs cmds ! i \<in> set (zip ten_ptrs cmds)"
    using assms ten_ptrs_ok(2) by (intro nth_mem) (simp add: ten_lines_def)
  then show "heap (ten_dev cmds) (ten_ptrs ! i) = Some (cmds ! i)"
    using assms ten_ptrs_ok(1,2) by (simp add: ten_dev_simps ten_lines_def)
  have "length (cmds ! i) < 2 ^ 31" using assms by (simp add: ten_lines_def)
  then show "unat (of_nat (length (cmds ! i)) :: u64) = length (cmds ! i)"
    by (intro unat_of_nat_small) simp
qed

lemma ten_dev_ring:
  assumes "ten_lines cmds"
  shows "ring_cmds (buffer (aesd_device (ten_dev cmds))) =
      map (\<lambda>i. \<lparr>buffptr = ten_ptrs ! i, esize = of_nat (length (cmds ! i))\<rparr>) [0..<10]"
    and "ring_ptrs (ten_dev cmds) = ten_ptrs"
proof -
  have len: "length ten_ptrs = 10" "length cmds = 10" using assms ten_ptrs_ok(2) by (simp_all add: ten_lines_def)
  show ring: "ring_cmds (buffer (aesd_device (ten_dev cmds))) =
      map (\<lambda>i. \<lparr>buffptr = ten_ptrs ! i, esize = of_nat (length (cmds ! i))\<rparr>) [0..<10]"
    using len by (auto simp: ten_dev_simps ring_cmds_def ring_slots_def intro!: nth_equalityI)
  show "ring_ptrs (ten_dev cmds) = ten_ptrs"
    unfolding ring_ptrs_def ring using len(1) map_nth [of ten_ptrs] by (simp add: comp_def)
qed

lemma ten_dev_cmd:
  assumes "ten_lines cmds" and "i < 10"
  shows "sized (heap (ten_dev cmds)) \<lparr>buffptr = ten_ptrs ! i, esize = of_nat (length (cmds ! i))\<rparr>"
    and "entry_bytes (heap (ten_dev cmds)) \<lparr>buffptr = ten_ptrs ! i, esize = of_nat (length (cmds ! i))\<rparr> = cmds ! i"
  using ten_dev_slot [OF assms] by (simp_all add: sized_def entry_bytes_def blk_def)

lemma ten_dev_cmds:
  assumes "ten_lines cmds"
  shows "absdev (ten_dev cmds) = \<lparr>a_cmds = cmds, a_pend = []\<rparr>"
proof -
  have "length cmds = 10" using assms by (simp add: ten_lines_def)
  then have "map (\<lambda>i. cmds ! i) [0..<10] = cmds" using map_nth [of cmds] by simp
  moreover have "map (\<lambda>i. entry_bytes (heap (ten_dev cmds)) \<lparr>buffptr = ten_ptrs ! i, esize = of_nat (length (cmds ! i))\<rparr>) [0..<10]
      = map (\<lambda>i. cmds ! i) [0..<10]"
    by (rule map_cong) (use ten_dev_cmd(2) [OF assms] in simp_all)
  moreover have "entry_bytes (heap (ten_dev cmds)) zero_entry = []"
    by (simp add: entry_bytes_def zero_entry_def)
  ultimately show ?thesis
    unfolding absdev_def ten_dev_ring(1) [OF assms] map_map comp_def ten_dev_simps(2) by simp
qed

lemma ten_dev_inv:
  assumes "ten_lines cmds"
  shows "dev_inv (ten_dev cmds)"
proof -
  let ?st = "ten_dev cmds"
  have len: "length ten_ptrs = 10" "length cmds = 10" using assms ten_ptrs_ok(2) by (simp_all add: ten_lines_def)
  have dom: "dom (heap ?st) = set ten_ptrs" and ran: "ran (heap ?st) \<subseteq> set cmds"
    using len ten_ptrs_ok(1) by (auto simp: ten_dev_simps ran_def dest: map_of_SomeD set_zip_rightD)
  have "rb_inv (buffer (aesd_device ?st))"
  proof -
    have "buffptr e \<noteq> 0" if "e \<in> set (entry (buffer (aesd_device ?st)))" for e
      using that ten_ptrs_ok(3) by (auto simp: ten_dev_simps dest: set_zip_leftD)
    then show ?thesis using len by (simp add: ten_dev_simps rb_inv_def)
  qed
  moreover have "heap_ok (heap ?st)"
    using ran assms ten_ptrs_ok(3,4) dom by (auto simp: heap_ok_def ZERO_SIZE_PTR_def ten_lines_def domIff)
  moreover have "\<forall>e \<in> set (ring_cmds (buffer (aesd_device ?st))).
      sized (heap ?st) e \<and> newline \<in> set (entry_bytes (heap ?st) e)"
    unfolding ten_dev_ring(1) [OF assms] using ten_dev_cmd [OF assms] assms by (auto simp: ten_lines_def)
  moreover have "pend_ptr ?st = 0" "sized (heap ?st) (dev_entry (aesd_device ?st))" "newline \<notin> set (a_pend (absdev ?st))"
    by (simp_all add: pend_ptr_def sized_def ten_dev_cmds [OF assms] ten_dev_simps zero_entry_def)
  ultimately show ?thesis
    using dom ten_ptrs_ok(1,3) ten_dev_ring(2) [OF assms] ten_dev_simps(3) by (simp add: dev_inv_def dev_wf_def)
qed

lemma ten_dev_ready: "ready ref_kernel (ten_dev cmds) ref_file"
  by (simp add: ready_def ref_select ref_file_def ten_dev_simps)

end
