(* ===== verification/Ring_Properties.thy ===== *)
theory Ring_Properties
  imports Reference_Kernel
begin

text \<open>
  What the ring buffer promises, each property over the code's own functions, with a
  concrete instance of each.
\<close>

section \<open>The instance\<close>

definition demo_ring :: "aesd_circular_buffer" where
  "demo_ring = aesd_circular_buffer_init\<lparr>
     entry := \<lparr>buffptr = 4096, esize = 3\<rparr> # \<lparr>buffptr = 8192, esize = 4\<rparr> # replicate 8 zero_entry,
     in_offs := 2, total_size := 7\<rparr>"

lemma demo_ring_facts:
  "rb_inv demo_ring" "ring_cmds demo_ring = [\<lparr>buffptr = 4096, esize = 3\<rparr>, \<lparr>buffptr = 8192, esize = 4\<rparr>]"
  by (simp_all add: demo_ring_def ring_simps drop_Cons' take_Cons')

section \<open>Adding\<close>

text \<open>C11: from an initialised ring, any sequence of entries can be added without leaving the array,
  and the ring then holds, oldest first, exactly the last ten of them.\<close>

theorem ring_keeps_last_ten:
  "\<exists>b. add_all aesd_circular_buffer_add_entry aesd_circular_buffer_init es = Done b \<and> rb_inv b \<and>
     ring_cmds b = lastn AESDCHAR_MAX_WRITE_OPERATIONS_SUPPORTED es"
  using ring.history_from_init [of es] by (auto simp: slots_def)

text \<open>C35: the byte counter of the ring adds up every entry ever added, modulo 256: it is neither reduced
  when the oldest entry is overwritten nor wide enough for ten entries.\<close>

theorem total_size_counts_everything:
  assumes "add_all aesd_circular_buffer_add_entry aesd_circular_buffer_init es = Done b"
  shows "unat (total_size b) = sum_list (map (\<lambda>e. unat (esize e)) es) mod 256"
  using assms by (rule ring.counter_wraps)

theorem total_size_counts_everything_witness:
  "\<exists>b. add_all aesd_circular_buffer_add_entry aesd_circular_buffer_init
     (replicate 11 \<lparr>buffptr = 4096, esize = 100\<rparr>) = Done b \<and> unat (total_size b) = 76"
proof -
  let ?es = "replicate 11 \<lparr>buffptr = 4096, esize = 100\<rparr>"
  obtain b where b: "add_all aesd_circular_buffer_add_entry aesd_circular_buffer_init ?es = Done b"
    using ring.history_from_init by blast
  from total_size_counts_everything [OF b] have "unat (total_size b) = 76"
    by (simp add: sum_list_replicate)
  with b show ?thesis by blast
qed

section \<open>Finding a position\<close>

text \<open>C10: the search answers with the entry that holds byte \<open>off\<close> of the concatenated commands,
  oldest first, and the offset inside it, and with \<open>NULL\<close> exactly past the end.\<close>

theorem find_position:
  assumes "rb_inv b" and "sum_list (cmd_sizes b) < 2 ^ 64"
  shows "case aesd_circular_buffer_find_entry_offset_for_fpos b off of
      None \<Rightarrow> False
    | Some None \<Rightarrow> sum_list (cmd_sizes b) \<le> unat off
    | Some (Some (i, r)) \<Rightarrow>
        (\<exists>k < length (ring_cmds b). entry b ! unat i = ring_cmds b ! k \<and>
           unat r < unat (esize (ring_cmds b ! k)) \<and>
           unat off = sum_list (take k (cmd_sizes b)) + unat r)"
proof (cases "seek_entry (cmd_sizes b) (unat off)")
  case None
  then show ?thesis by (simp add: find_seek [OF assms] flip: seek_entry_None)
next
  case (Some kr)
  then obtain k r where seek: "seek_entry (cmd_sizes b) (unat off) = Some (k, r)" by (cases kr) simp
  from seek_entry_SomeD [OF seek] have k: "k < length (ring_cmds b)" "r < unat (esize (ring_cmds b ! k))"
    "unat off = sum_list (take k (cmd_sizes b)) + r"
    by auto
  then have "unat (of_nat r :: u64) = r"
    using less_trans [OF k(2) unsigned_less] by (intro unat_of_nat_small) simp
  with seek k find_slot [OF assms(1) k(1)] show ?thesis
    by (auto simp: find_seek [OF assms])
qed

theorem find_position_witness:
  "case aesd_circular_buffer_find_entry_offset_for_fpos demo_ring 5 of
      None \<Rightarrow> False
    | Some None \<Rightarrow> sum_list (cmd_sizes demo_ring) \<le> unat (5 :: u64)
    | Some (Some (i, r)) \<Rightarrow>
        (\<exists>k < length (ring_cmds demo_ring). entry demo_ring ! unat i = ring_cmds demo_ring ! k \<and>
           unat r < unat (esize (ring_cmds demo_ring ! k)) \<and>
           unat (5 :: u64) = sum_list (take k (cmd_sizes demo_ring)) + unat r)"
  by (rule find_position) (simp_all add: demo_ring_facts)

text \<open>the search returns for every ring whose output slot is not 10, whatever the rest of the ring
  holds; with the output slot at 10 and only empty entries it never returns. (The reachable rings
  are of the first kind.)\<close>

theorem find_terminates_iff:
  assumes "length (entry b) = 10" and "\<forall>e \<in> set (entry b). esize e = 0"
  shows "(\<exists>r. aesd_circular_buffer_find_entry_offset_for_fpos b off = Some r) \<longleftrightarrow> out_offs b \<noteq> 10"
  using find_returns [of b off] find_loop_hangs [of b off "out_offs b" False 0 0] assms
  by (auto simp: aesd_circular_buffer_find_entry_offset_for_fpos_def)

theorem find_terminates_iff_witness:
  "(\<nexists>r. aesd_circular_buffer_find_entry_offset_for_fpos (aesd_circular_buffer_init\<lparr>out_offs := 10\<rparr>) 0 = Some r)
   \<and> (\<exists>r. aesd_circular_buffer_find_entry_offset_for_fpos aesd_circular_buffer_init 0 = Some r)"
  using find_terminates_iff [of "aesd_circular_buffer_init\<lparr>out_offs := 10\<rparr>" 0]
    find_terminates_iff [of aesd_circular_buffer_init 0]
  by (simp add: aesd_circular_buffer_init_def zero_entry_def)

end
