(* ===== verification/Driver_Properties.thy ===== *)
theory Driver_Properties
  imports Reference_Kernel
begin

text \<open>
  What the character driver promises to the processes that use it, each property over the
  handlers themselves, with a concrete instance in the kernel \<open>ref_kernel\<close>.
\<close>

section \<open>Writing\<close>

text \<open>C1: a write whose reallocation succeeds is the abstract append: the bytes the kernel could copy from
  the caller go to the end of the pending command; once that holds a newline the whole pending
  command becomes the newest of at most ten commands and nothing is pending. The call returns the
  number of those bytes, leaves the file position alone and keeps the device invariant.\<close>

theorem write_appends:
  assumes "dev_inv st" and "ready K st filp"
    and "lock_law K" "krealloc_law K" "copy_from_user_law K"
    and "length buf = unat count" "unat count < 2 ^ 31"
    and "fst (krealloc K (heap st) (pend_ptr st) (esize (dev_entry (aesd_device st)) + count)) \<noteq> 0"
  shows "\<exists>n st'. aesd_write K st filp buf count pos = Done (n, pos, st') \<and>
    n = count - fst (copy_from_user K buf count) \<and>
    dev_inv st' \<and> absdev st' = dev_append (absdev st) (take (unat n) buf)"
proof -
  obtain q h1 where grow: "krealloc K (heap st) (pend_ptr st) (esize (dev_entry (aesd_device st)) + count) = (q, h1)"
    by fastforce
  with assms(8) have q: "q \<noteq> 0" by simp
  show ?thesis
    by (rule write_refines [OF assms(1-7) grow q, of pos]) blast
qed

theorem write_appends_witness:
  "\<exists>n st'. aesd_write ref_kernel loaded ref_file ''hi'' 2 0 = Done (n, 0, st') \<and>
    n = 2 - fst (copy_from_user ref_kernel ''hi'' 2) \<and> dev_inv st' \<and>
    absdev st' = dev_append (absdev loaded) (take (unat n) ''hi'')"
  by (rule write_appends [OF loaded_inv(1) loaded_ready])
    (simp_all add: ref_laws loaded_simps zero_dev_def zero_entry_def ref_select ref_krealloc_def
      fresh_ptr_def Let_def)

text \<open>When \<open>krealloc\<close> has no memory the write does not report \<open>-ENOMEM\<close>: it goes on with the
  null pointer and faults, holding the mutex.\<close>

theorem write_without_memory_faults:
  assumes "dev_inv st" and "ready K st filp"
    and "lock_law K" "krealloc_law K" "copy_from_user_law K"
    and "length buf = unat count"
    and "fst (krealloc K (heap st) (pend_ptr st) (esize (dev_entry (aesd_device st)) + count)) = 0"
  shows "aesd_write K st filp buf count pos = Fault"
proof -
  obtain h1 where "krealloc K (heap st) (pend_ptr st) (esize (dev_entry (aesd_device st)) + count) = (0, h1)"
    using assms(7) by (cases "krealloc K (heap st) (pend_ptr st) (esize (dev_entry (aesd_device st)) + count)") simp
  then show ?thesis
    by (rule write_no_memory [OF assms(1-6)])
qed

theorem write_without_memory_faults_witness:
  "aesd_write (ref_kernel\<lparr>krealloc := \<lambda>h p n. if n = 0 then (ZERO_SIZE_PTR, h(p := None)) else (0, h)\<rparr>)
     loaded ref_file ''hi'' 2 0 = Fault"
  by (rule write_without_memory_faults [OF loaded_inv(1)])
    (auto simp: ready_def lock_law_def krealloc_law_def copy_from_user_law_def ref_kernel_def ref_file_def
      loaded_simps zero_dev_def zero_entry_def)

text \<open>a write that completes a command while ten are stored leaks exactly the block of the oldest
  one: the ring forgets it and nobody frees it. No other write leaks.\<close>

theorem eviction_leaks_oldest:
  assumes "dev_inv st" and "ready K st filp"
    and "lock_law K" "krealloc_law K" "copy_from_user_law K"
    and "length buf = unat count" "unat count < 2 ^ 31"
    and "aesd_write K st filp buf count pos = Done (n, pos, st')"
  shows "leaked st' = leaked st \<union>
    (if newline \<in> set (a_pend (absdev st) @ take (unat n) buf) \<and> length (ring_ptrs st) = 10
     then {hd (ring_ptrs st)} else {})"
proof -
  obtain q h1 where grow: "krealloc K (heap st) (pend_ptr st) (esize (dev_entry (aesd_device st)) + count) = (q, h1)"
    by fastforce
  have "q \<noteq> 0"
    using write_no_memory [OF assms(1-6), of h1 pos] grow assms(8) by auto
  then show ?thesis
    by (rule write_leak [OF assms(1-7) grow _ assms(8)])
qed

text \<open>A device that holds ten one-byte commands.\<close>

definition ten_cmds :: kstate where
  "ten_cmds = ten_dev (replicate 10 [newline])"

lemma ten_newlines: "ten_lines (replicate 10 [newline])"
  by (simp add: ten_lines_def)

lemmas ten_cmds_inv = ten_dev_inv [OF ten_newlines, folded ten_cmds_def]
  and ten_cmds_ready = ten_dev_ready [of "replicate 10 [newline]", folded ten_cmds_def]
  and ten_cmds_absdev = ten_dev_cmds [OF ten_newlines, folded ten_cmds_def]
  and ten_cmds_ptrs = ten_dev_ring(2) [OF ten_newlines, folded ten_cmds_def]
  and ten_cmds_simps = ten_dev_simps [of "replicate 10 [newline]", folded ten_cmds_def]

theorem eviction_leaks_oldest_witness:
  "\<exists>st'. aesd_write ref_kernel ten_cmds ref_file [newline] 1 0 = Done (1, 0, st') \<and>
     1000 \<in> leaked st'"
proof -
  have "fst (krealloc ref_kernel (heap ten_cmds) (pend_ptr ten_cmds)
      (esize (dev_entry (aesd_device ten_cmds)) + 1)) \<noteq> 0"
    by (simp add: ref_select ref_krealloc_def fresh_ptr_def pend_ptr_def ten_cmds_simps zero_entry_def
        ten_ptrs_eq Let_def)
  then obtain q h1 where grow: "krealloc ref_kernel (heap ten_cmds) (pend_ptr ten_cmds)
      (esize (dev_entry (aesd_device ten_cmds)) + 1) = (q, h1)" "q \<noteq> 0"
    by (metis prod.collapse)
  have user: "length [newline] = unat (1 :: u64)" "unat (1 :: u64) < 2 ^ 31" by simp_all
  obtain st' where st': "aesd_write ref_kernel ten_cmds ref_file [newline] 1 0
      = Done (1 - fst (copy_from_user ref_kernel [newline] 1), 0, st')"
    by (rule write_refines [OF ten_cmds_inv ten_cmds_ready ref_laws(1) ref_laws(6) ref_laws(3) user grow, of 0])
  from eviction_leaks_oldest [OF ten_cmds_inv ten_cmds_ready ref_laws(1) ref_laws(6) ref_laws(3) user st']
  have "1000 \<in> leaked st'"
    by (simp add: ten_cmds_ptrs ref_select) (simp add: ten_ptrs_eq)
  with st' show ?thesis by (simp add: ref_select)
qed

section \<open>Reading\<close>

text \<open>C3: a read below the end of the content delivers a prefix of the rest of the content, at most
  \<open>count\<close> bytes and never beyond the command the position is in, and advances the position by
  what it returns; at or past the end it returns 0 and moves the position back to 0. The device
  is left as it was.\<close>

theorem read_delivers:
  assumes "dev_inv st" and "ready K st filp" and "lock_law K" "copy_to_user_law K"
    and "unat count < 2 ^ 31"
  shows "if unat pos < length (content (absdev st))
    then \<exists>k r n bs. seek_entry (map length (a_cmds (absdev st))) (unat pos) = Some (k, r) \<and>
      aesd_read K st filp count pos = Done (n, pos + n, bs, st) \<and>
      bs = take (unat n) (drop (unat pos) (content (absdev st))) \<and>
      unat n \<le> unat count \<and> unat n \<le> length (a_cmds (absdev st) ! k) - r
    else aesd_read K st filp count pos = Done (0, 0, [], st)"
proof (cases "seek_entry (map length (a_cmds (absdev st))) (unat pos)")
  case None
  then have "length (content (absdev st)) \<le> unat pos"
    by (simp add: seek_entry_None content_def length_concat)
  then show ?thesis
    using read_eof [OF assms(1-3)] by simp
next
  case (Some kr)
  then obtain k r where hit: "seek_entry (map length (a_cmds (absdev st))) (unat pos) = Some (k, r)"
    by (cases kr) simp
  define src where "src = take (unat count) (drop r (a_cmds (absdev st) ! k))"
  define m where "m = length src - unat (fst (copy_to_user K src (of_nat (length src))))"
  have call: "aesd_read K st filp count pos = Done (of_nat m, pos + of_nat m, take m src, st)"
    unfolding m_def src_def by (rule read_hit [OF assms hit])
  have m: "m \<le> unat count" "m \<le> length (a_cmds (absdev st) ! k) - r"
    by (auto simp: m_def src_def)
  moreover from m(1) have "unat (of_nat m :: u64) = m"
    using assms(5) by (intro unat_of_nat_small) simp
  moreover have "take m src = take m (drop (unat pos) (content (absdev st)))"
    using m unfolding content_split(1) [OF hit] by (simp add: src_def min_def)
  ultimately show ?thesis
    using call hit content_split(2) [OF hit] by auto
qed

lemma ten_cmds_cmds: "a_cmds (absdev ten_cmds) = replicate 10 [newline]"
  by (simp add: ten_cmds_absdev)

lemma concat_replicate_single: "concat (replicate n [x]) = replicate n x"
  by (induction n) simp_all

lemma ten_cmds_content: "content (absdev ten_cmds) = replicate 10 newline"
  by (simp add: content_def ten_cmds_cmds concat_replicate_single)

theorem read_delivers_witness:
  "\<exists>k r n bs. seek_entry (replicate 10 1) 4 = Some (k, r) \<and>
      aesd_read ref_kernel ten_cmds ref_file 5 4 = Done (n, 4 + n, bs, ten_cmds) \<and>
      bs = take (unat n) (drop 4 (content (absdev ten_cmds))) \<and>
      unat n \<le> 5 \<and> unat n \<le> length (a_cmds (absdev ten_cmds) ! k) - r"
  using read_delivers [OF ten_cmds_inv ten_cmds_ready ref_laws(1) ref_laws(4), of 5 4]
  by (simp add: ten_cmds_content ten_cmds_cmds)

text \<open>C4: a process that reads until it gets 0 gets the whole content of the device from its position on,
  with a buffer of any size, and its position is back at the start. One call per byte and one more
  are enough.\<close>

theorem read_until_eof_delivers_content:
  assumes "dev_inv st" and "ready K st filp"
    and "lock_law K" "copy_to_user_law K" "copies_all K"
    and "0 < unat count" "unat count < 2 ^ 31"
    and "length (content (absdev st)) - unat pos < fuel"
  shows "read_until_eof fuel K st filp count pos = Done (drop (unat pos) (content (absdev st)), 0, st)"
  using read_until_eof_content [OF assms(1-7)] assms(8) .

theorem read_until_eof_delivers_content_witness:
  "read_until_eof 11 ref_kernel ten_cmds ref_file 3 0 = Done (replicate 10 newline, 0, ten_cmds)"
  using read_until_eof_delivers_content [OF ten_cmds_inv ten_cmds_ready ref_laws(1) ref_laws(4) ref_laws(9),
      of 3 0 11]
  by (simp add: ten_cmds_content)

section \<open>Seeking\<close>

text \<open>\<open>llseek\<close> moves to the offset counted from the start, the current position or the byte counter
  of the ring, as long as that lies between 0 and the counter. Outside, and for any other
  \<open>whence\<close>, it answers \<open>-EINVAL\<close> and also makes \<open>-EINVAL\<close> the new file position.\<close>

theorem llseek_moves:
  assumes "dev_inv st" and "ready K st filp" and "lock_law K" "llseek_law K"
  shows "(let base = (if whence = 0 then Some 0 else if whence = 1 then Some (sint (f_pos filp))
                      else if whence = 2 then Some (int (unat (total_size (buffer (aesd_device st))))) else None)
     in case base of
          None \<Rightarrow> aesd_llseek K st filp offset whence = Done (- EINVAL, filp\<lparr>f_pos := - EINVAL\<rparr>, st)
        | Some p \<Rightarrow>
            if 0 \<le> p + sint offset \<and> p + sint offset \<le> int (unat (total_size (buffer (aesd_device st))))
            then \<exists>pos. sint pos = p + sint offset \<and>
                   aesd_llseek K st filp offset whence = Done (pos, filp\<lparr>f_pos := pos\<rparr>, st)
            else aesd_llseek K st filp offset whence = Done (- EINVAL, filp\<lparr>f_pos := - EINVAL\<rparr>, st))"
proof -
  let ?size = "int (unat (total_size (buffer (aesd_device st))))"
  note moves = llseek_result [OF assms, where whence = whence and offset = offset, OF _ refl, folded EINVAL_def]
  consider "whence = 0" | "whence = 1" | "whence = 2" | "whence \<notin> {0, 1, 2}" by auto
  then show ?thesis
  proof cases
    case 1
    with moves [where base = 0] show ?thesis by (simp add: Let_def)
  next
    case 2
    with moves [where base = "sint (f_pos filp)"] show ?thesis by (simp add: Let_def)
  next
    case 3
    with moves [where base = ?size] show ?thesis by (auto simp: Let_def split: if_splits)
  next
    case 4
    with llseek_bad_whence [OF assms 4] show ?thesis by (simp add: EINVAL_def)
  qed
qed

theorem llseek_moves_witness:
  "aesd_llseek ref_kernel ten_cmds ref_file 11 0 = Done (- EINVAL, ref_file\<lparr>f_pos := - EINVAL\<rparr>, ten_cmds)"
  using llseek_moves [OF ten_cmds_inv ten_cmds_ready ref_laws(1) ref_laws(7), of 0 11]
  by (simp add: ten_cmds_simps)

text \<open>C9: the seek command of \<open>ioctl\<close> with the name of a stored command and an offset inside it, on a ring
  that has not wrapped yet, followed by reading until end of file, delivers that command from that
  offset and all later commands.\<close>

theorem ioctl_then_read:
  assumes "dev_inv st" and "ready K st filp"
    and "lock_law K" "copy_to_user_law K" "copies_all K" "copy_seekto_law K"
    and "fst (copy_seekto_from_user K arg) = 0"
    and "out_offs (buffer (aesd_device st)) = 0"
    and "unat (write_cmd arg) < length (a_cmds (absdev st))"
    and "unat (write_cmd_offset arg) < length (a_cmds (absdev st) ! unat (write_cmd arg))"
    and "0 < unat count" "unat count < 2 ^ 31"
    and "length (content (absdev st)) < fuel"
  shows "\<exists>filp'. aesd_ioctl K st filp (AESDCHAR_IOCSEEKTO K) arg = Done (0, filp', st) \<and>
    read_until_eof fuel K st filp' count (f_pos filp') =
      Done (drop (unat (write_cmd_offset arg)) (a_cmds (absdev st) ! unat (write_cmd arg)) @
            concat (drop (Suc (unat (write_cmd arg))) (a_cmds (absdev st))), 0, st)"
proof -
  let ?cmds = "a_cmds (absdev st)" and ?c = "unat (write_cmd arg)" and ?o = "unat (write_cmd_offset arg)"
  let ?b = "buffer (aesd_device st)"
  define p where "p = length (concat (take ?c ?cmds)) + ?o"
  define filp' where "filp' = filp\<lparr>f_pos := of_nat p\<rparr>"
  have wf: "dev_wf st" using assms(1) by (simp add: dev_inv_def)
  have arg: "snd (copy_seekto_from_user K arg) = arg"
    using assms(6,7) unfolding copy_seekto_law_def by (metis prod.collapse)
  have "seekable ?b (write_cmd arg) (write_cmd_offset arg)" "seek_pos ?b (write_cmd arg) (write_cmd_offset arg) = p"
    using seekable_unwrapped [OF wf assms(8)] assms(9,10) by (simp_all add: p_def)
  then have call: "aesd_ioctl K st filp (AESDCHAR_IOCSEEKTO K) arg = Done (0, filp', st)"
    using assms(7) by (simp add: ioctl_result [OF assms(1-3)] arg Let_def filp'_def)
  have hit: "seek_entry (map length ?cmds) p = Some (?c, ?o)"
    using seek_entry_SomeI [of ?c "map length ?cmds" ?o] assms(9,10)
    by (simp add: p_def length_concat take_map)
  have "p < length (content (absdev st))"
    using content_split(2) [OF hit] .
  then have pos: "unat (f_pos filp') = p"
    using content_bound [OF wf] by (simp add: filp'_def unat_of_nat_small)
  have ready: "ready K st filp'"
    using assms(2) by (simp add: ready_def filp'_def)
  have "read_until_eof fuel K st filp' count (f_pos filp') = Done (drop p (content (absdev st)), 0, st)"
    using read_until_eof_content [OF assms(1) ready assms(3-5,11,12), of "f_pos filp'" fuel] assms(13)
    by (simp add: pos)
  with call content_split(1) [OF hit] show ?thesis by auto
qed

theorem ioctl_then_read_witness:
  "\<exists>filp'. aesd_ioctl ref_kernel ten_cmds ref_file (AESDCHAR_IOCSEEKTO ref_kernel)
       \<lparr>write_cmd = 8, write_cmd_offset = 0\<rparr> = Done (0, filp', ten_cmds) \<and>
    read_until_eof 11 ref_kernel ten_cmds filp' 5 (f_pos filp') = Done ([newline, newline], 0, ten_cmds)"
  using ioctl_then_read [OF ten_cmds_inv ten_cmds_ready ref_laws(1) ref_laws(4) ref_laws(9) ref_laws(5),
      of "\<lparr>write_cmd = 8, write_cmd_offset = 0\<rparr>" 5 11]
  by (simp add: ref_select ten_cmds_simps ten_cmds_cmds ten_cmds_content concat_replicate_single)

text \<open>once the ring is full the seek command reads its argument as a slot number and not as a command
  counted from the oldest: slot \<open>j\<close> holds command \<open>age b j\<close>, the bound is the length of that
  command, and the position is the sum of the lengths of the commands in the slots below, whatever
  their age. Everything else about the call is refused with \<open>-EINVAL\<close> and no effect.\<close>

theorem ioctl_after_wrap:
  assumes "dev_inv st" and "ready K st filp" and "lock_law K" "copy_seekto_law K"
    and "fst (copy_seekto_from_user K arg) = 0"
    and "full (buffer (aesd_device st))"
  shows "aesd_ioctl K st filp (AESDCHAR_IOCSEEKTO K) arg =
    (let lens = map (\<lambda>j. length (a_cmds (absdev st) ! age (buffer (aesd_device st)) j)) [0..<10];
         c = unat (write_cmd arg); off = unat (write_cmd_offset arg)
     in if c < 10 \<and> off < lens ! c
        then Done (0, filp\<lparr>f_pos := of_nat (sum_list (take c lens) + off)\<rparr>, st)
        else Done (- EINVAL, filp, st))"
proof -
  have wf: "dev_wf st" using assms(1) by (simp add: dev_inv_def)
  have arg: "snd (copy_seekto_from_user K arg) = arg"
    using assms(4,5) unfolding copy_seekto_law_def by (metis prod.collapse)
  show ?thesis
  proof (cases "unat (write_cmd arg) < 10")
    case True
    then have "take (unat (write_cmd arg)) [0..<10] = [0..<unat (write_cmd arg)]"
      by (simp add: take_upt)
    with True show ?thesis
      using seekable_full [OF wf assms(6), of "write_cmd arg" "write_cmd_offset arg"] assms(5)
      by (simp add: ioctl_result [OF assms(1-3)] arg Let_def take_map)
  next
    case False
    then show ?thesis
      using seekable_full(1) [OF wf assms(6), of "write_cmd arg" "write_cmd_offset arg"] assms(5)
      by (simp add: ioctl_result [OF assms(1-3)] arg Let_def)
  qed
qed

theorem ioctl_after_wrap_witness:
  "aesd_ioctl ref_kernel ten_cmds ref_file (AESDCHAR_IOCSEEKTO ref_kernel)
     \<lparr>write_cmd = 12, write_cmd_offset = 0\<rparr> = Done (- EINVAL, ref_file, ten_cmds)"
  using ioctl_after_wrap [OF ten_cmds_inv ten_cmds_ready ref_laws(1) ref_laws(5),
      of "\<lparr>write_cmd = 12, write_cmd_offset = 0\<rparr>"]
  by (simp add: ref_select ten_cmds_simps)

text \<open>a seek command whose argument cannot be copied in returns the positive number \<open>EFAULT\<close>,
  which the caller reads as success; an unknown command returns \<open>-ENOTTY\<close>. Both leave the file
  and the device as they were.\<close>

theorem ioctl_errors:
  assumes "dev_inv st" and "ready K st filp" and "lock_law K"
  shows "(fst (copy_seekto_from_user K arg) \<noteq> 0 \<longrightarrow>
      aesd_ioctl K st filp (AESDCHAR_IOCSEEKTO K) arg = Done (14, filp, st)) \<and>
    (cmd \<noteq> AESDCHAR_IOCSEEKTO K \<longrightarrow> aesd_ioctl K st filp cmd arg = Done (- ENOTTY, filp, st))"
  by (simp add: ioctl_result [OF assms] EFAULT_def)

definition faulting_kernel :: kernel where
  "faulting_kernel = ref_kernel\<lparr>copy_seekto_from_user := \<lambda>src. (8, src)\<rparr>"

theorem ioctl_errors_witness:
  "aesd_ioctl faulting_kernel ten_cmds ref_file (AESDCHAR_IOCSEEKTO faulting_kernel)
     \<lparr>write_cmd = 0, write_cmd_offset = 0\<rparr> = Done (14, ref_file, ten_cmds)"
proof -
  have "lock_law faulting_kernel" and "ready faulting_kernel ten_cmds ref_file"
    using ref_laws(1) ten_cmds_ready by (simp_all add: faulting_kernel_def lock_law_def ready_def ref_select)
  from ioctl_errors [OF ten_cmds_inv this(2,1), of "\<lparr>write_cmd = 0, write_cmd_offset = 0\<rparr>"]
  show ?thesis by (simp add: faulting_kernel_def)
qed

section \<open>All calls together\<close>

text \<open>C2: whatever sequence of handler calls is made on a loaded module, by whatever processes and with
  whatever answers of the kernel within its laws: the device invariant holds, the stored commands
  are the last ten of the commands the accepted bytes form, the rest is pending, and content and
  pending bytes together are the end of everything that was accepted, in order.\<close>

theorem device_is_log:
  assumes "history ws st"
  shows "dev_inv st \<and> a_cmds (absdev st) = lastn 10 (fst (commands [] ws)) \<and>
    a_pend (absdev st) = snd (commands [] ws) \<and>
    (\<exists>lost. concat ws = lost @ content (absdev st) @ a_pend (absdev st))"
  using history_inv [OF assms] history_log [OF assms] history_suffix [OF assms] by blast

text \<open>C5: no handler faults or hangs in a reachable state, except a write that gets no memory; reading,
  seeking and the ioctl return and change nothing of the device, and after every call the mutex is
  free.\<close>

theorem handlers_safe:
  assumes "history ws st" and "kernel_ok K" and "private_data filp = dev_addr st"
    and "length buf = unat count" "unat count < 2 ^ 31"
  shows "(\<exists>ret pos' bs. aesd_read K st filp count pos = Done (ret, pos', bs, st)) \<and>
    (\<exists>ret filp'. aesd_llseek K st filp off whence = Done (ret, filp', st)) \<and>
    (\<exists>ret filp'. aesd_ioctl K st filp cmd arg = Done (ret, filp', st)) \<and>
    (fst (krealloc K (heap st) (pend_ptr st) (esize (dev_entry (aesd_device st)) + count)) \<noteq> 0 \<longrightarrow>
      (\<exists>ret st'. aesd_write K st filp buf count pos = Done (ret, pos, st') \<and> \<not> lock (aesd_device st'))) \<and>
    \<not> lock (aesd_device st)"
proof -
  have inv: "dev_inv st" using history_inv [OF assms(1)] by simp
  have w: "\<exists>ret st'. aesd_write K st filp buf count pos = Done (ret, pos, st') \<and> \<not> lock (aesd_device st')"
    if "fst (krealloc K (heap st) (pend_ptr st) (esize (dev_entry (aesd_device st)) + count)) \<noteq> 0"
    using write_cases [OF inv assms(2,3,4,5), of pos] that by (auto simp: dev_inv_def)
  show ?thesis
    using read_keeps [OF inv assms(2,3,5), of pos] llseek_keeps [OF inv assms(2,3), of off whence]
      ioctl_keeps [OF inv assms(2,3), of cmd arg] w inv
    by (simp add: dev_inv_def)
qed

lemma loaded_grows:
  "n \<noteq> 0 \<Longrightarrow> unat n < 2 ^ 31 \<Longrightarrow>
     fst (krealloc ref_kernel (heap loaded) (pend_ptr loaded) (esize (dev_entry (aesd_device loaded)) + n)) \<noteq> 0"
  by (simp add: loaded_simps pend_ptr_def zero_dev_def zero_entry_def ref_select ref_krealloc_def fresh_ptr_def Let_def)

text \<open>One write on the loaded module, as a two-step history.\<close>

lemma history_hi: "\<exists>st. history [''hi''] st"
proof -
  have user: "length ''hi'' = unat (2 :: u64)" "unat (2 :: u64) < 2 ^ 31" by simp_all
  have "fst (krealloc ref_kernel (heap loaded) (pend_ptr loaded) (esize (dev_entry (aesd_device loaded)) + 2)) \<noteq> 0"
    by (rule loaded_grows) simp_all
  then obtain q h1 where grow: "krealloc ref_kernel (heap loaded) (pend_ptr loaded)
      (esize (dev_entry (aesd_device loaded)) + 2) = (q, h1)" "q \<noteq> 0"
    by (metis prod.collapse)
  obtain st where "aesd_write ref_kernel loaded ref_file ''hi'' 2 0
      = Done (2 - fst (copy_from_user ref_kernel ''hi'' 2), 0, st)"
    by (rule write_refines [OF loaded_inv(1) loaded_ready ref_laws(1) ref_laws(6) ref_laws(3) user grow, of 0])
  then have call: "aesd_write ref_kernel loaded ref_file ''hi'' 2 0 = Done (2, 0, st)"
    by (simp add: ref_select)
  have addr: "private_data ref_file = dev_addr loaded"
    by (simp add: ref_file_def loaded_simps)
  have "sint (2 :: s64) = 2"
    by (rule trans [OF sint_small]) simp_all
  then have "accepted 2 ''hi'' = ''hi''"
    by (simp add: accepted_def)
  then have "history ([] @ [''hi'']) st"
    using dev_step.do_write [OF ref_kernel_ok addr user call] history_loaded history.step by metis
  then show ?thesis by auto
qed

theorem device_is_log_witness:
  "\<exists>st. history [''hi''] st \<and> a_cmds (absdev st) = [] \<and> a_pend (absdev st) = ''hi''"
  using history_hi device_is_log by (force simp: newline_def)

theorem handlers_safe_witness:
  "\<exists>ret st'. aesd_write ref_kernel loaded ref_file ''hi'' 2 0 = Done (ret, 0, st') \<and> \<not> lock (aesd_device st')"
  using handlers_safe [OF history_loaded ref_kernel_ok, of ref_file "''hi''" 2 0]
    loaded_grows [of 2]
  by (simp add: ref_file_def loaded_simps(2))

text \<open>seeking to the end of the device lands at the number of bytes of all commands ever completed,
  modulo 256, and not at the end of the content, which holds only the last ten of them.\<close>

theorem seek_end_position:
  assumes "history ws st" and "ready K st filp" and "lock_law K" "llseek_law K"
  shows "\<exists>pos. aesd_llseek K st filp 0 2 = Done (pos, filp\<lparr>f_pos := pos\<rparr>, st) \<and>
    sint pos = int (length (concat (fst (commands [] ws))) mod 256) \<and>
    length (content (absdev st)) = length (concat (lastn 10 (fst (commands [] ws))))"
proof -
  have inv: "dev_inv st" and "total_size (buffer (aesd_device st)) = of_nat (length (concat (fst (commands [] ws))))"
    using history_inv [OF assms(1)] by simp_all
  from this(2) have total: "unat (total_size (buffer (aesd_device st))) = length (concat (fst (commands [] ws))) mod 256"
    by (simp add: unat_of_nat)
  have "(2 :: s32) = 0 \<and> P \<or> (2 :: s32) = 1 \<and> Q \<or> (2 :: s32) = 2 \<and> x = x" for P Q and x :: int
    by simp
  from llseek_result [OF inv assms(2-4) this refl, of 0] total show ?thesis
    by (auto simp: content_def history_log [OF assms(1)])
qed

theorem seek_end_position_witness:
  "\<exists>pos. aesd_llseek ref_kernel loaded ref_file 0 2 = Done (pos, ref_file\<lparr>f_pos := pos\<rparr>, loaded) \<and> sint pos = 0"
  using seek_end_position [OF history_loaded loaded_ready ref_laws(1) ref_laws(7)] by auto

section \<open>Loading, unloading and interruption\<close>

text \<open>loading either succeeds, with an empty device that is registered under a free device number and
  no memory allocated, or returns an error with every registration undone.\<close>

theorem init_all_or_nothing:
  assumes "chrdev_law K" and "heap_ok (heap st)" and "aesd_init_module K st = (rc, st')"
  shows "if rc = 0
    then dev_inv st' \<and> absdev st' = \<lparr>a_cmds = [], a_pend = []\<rparr> \<and> heap st' = heap st \<and>
      (\<exists>dev. dev \<notin> chrdevs st \<and> chrdevs st' = insert dev (chrdevs st) \<and>
        cdevs st' = insert dev (cdevs st) \<and> MKDEV K (aesd_major st') (aesd_minor st') = dev)
    else chrdevs st' = chrdevs st \<and> cdevs st' = cdevs st"
proof (cases "rc = 0")
  case True
  with assms(3) have init: "aesd_init_module K st = (0, st')" by simp
  from True init_ok [OF assms(1,2) init] show ?thesis by simp
next
  case False
  with init_fails_clean [OF assms(1,3)] show ?thesis by simp
qed

theorem init_all_or_nothing_witness:
  "dev_inv loaded \<and> heap loaded = heap boot \<and> (\<exists>dev. chrdevs loaded = {dev})"
  using init_all_or_nothing [OF ref_chrdev_law boot_heap_ok init_boot] by (auto simp: boot_def)

text \<open>unloading a device in any reachable state returns, gives back the device number and frees the
  block of every stored command exactly once; the pending bytes and the blocks of overwritten
  commands stay allocated.\<close>

theorem cleanup_frees_ring:
  assumes "history ws st" and "kfree_law K" and "chrdev_law K"
  shows "\<exists>st'. aesd_cleanup_module K st = Done st' \<and>
    chrdevs st' = chrdevs st - {MKDEV K (aesd_major st) (aesd_minor st)} \<and>
    cdevs st' = cdevs st - {MKDEV K (aesd_major st) (aesd_minor st)} \<and>
    dom (heap st') = leaked st \<union> ({pend_ptr st} \<inter> dom (heap st))"
proof -
  have inv: "dev_inv st" using history_inv [OF assms(1)] by simp
  then have "pend_ptr st \<notin> set (ring_ptrs st)"
    by (simp add: dev_inv_def dev_wf_def)
  with cleanup_ok [OF inv assms(2,3)] show ?thesis
    by (auto simp: leaked_def)
qed

theorem cleanup_frees_ring_witness:
  "\<exists>st'. aesd_cleanup_module ref_kernel loaded = Done st' \<and> dom (heap st') = {}"
proof -
  obtain st' where st': "aesd_cleanup_module ref_kernel loaded = Done st'"
    "dom (heap st') = leaked loaded \<union> ({pend_ptr loaded} \<inter> dom (heap loaded))"
    using cleanup_frees_ring [OF history_loaded ref_laws(2) ref_laws(8)] by blast
  have "dom (heap loaded) = {}"
    by (simp add: loaded_simps(3))
  with st' show ?thesis by (simp add: leaked_def)
qed

text \<open>A call whose wait for the mutex is interrupted returns \<open>-ERESTARTSYS\<close> and changes neither the
  device, nor the file, nor the position.\<close>

theorem interrupted_calls:
  assumes "lock_law K" and "private_data filp = dev_addr st"
    and "fst (mutex_lock_interruptible K (lock (aesd_device st))) \<noteq> 0"
  shows "aesd_read K st filp count pos = Done (- ERESTARTSYS, pos, [], st) \<and>
    aesd_write K st filp buf count pos = Done (- ERESTARTSYS, pos, st) \<and>
    aesd_llseek K st filp off whence = Done (- ERESTARTSYS, filp, st) \<and>
    aesd_ioctl K st filp cmd arg = Done (- ERESTARTSYS, filp, st)"
  using interrupted [OF assms] by simp

theorem interrupted_calls_witness:
  "aesd_write (ref_kernel\<lparr>mutex_lock_interruptible := \<lambda>held. (- 4, held)\<rparr>) loaded ref_file ''hi'' 2 0
     = Done (- ERESTARTSYS, 0, loaded)"
proof -
  let ?K = "ref_kernel\<lparr>mutex_lock_interruptible := \<lambda>held. (- 4, held)\<rparr>"
  have "lock_law ?K" and "private_data ref_file = dev_addr loaded"
    and "fst (mutex_lock_interruptible ?K (lock (aesd_device loaded))) \<noteq> 0"
    by (simp_all add: lock_law_def ref_select ref_file_def loaded_simps(2))
  from interrupted_calls [OF this] show ?thesis by blast
qed

end
