(* ===== verification/Handler_Steps.thy ===== *)
theory Handler_Steps
  imports Driver_System
begin

text \<open>
  The file operations of \<^verbatim>\<open>aesd-char-driver/main.c\<close> one statement at a time, in several threads on one
  device. Between any two statements of a thread any other thread can take a step; the only thing
  that keeps them apart is the device's mutex. The theory relates these interleavings to whole
  handler calls: \<open>rest\<close> is what a handler still has to do at a point, and \<open>serial\<close> runs calls one after
  the other.
\<close>

section \<open>Whole calls\<close>

datatype call =
    Read u64
  | Write string
  | Seek s64 s32
  | Ioctl u32 aesd_seekto

text \<open>What a call returns: the handler's value, the bytes delivered to the user, and the file with its
  position, which the kernel stores back after a read or write.\<close>

type_synonym answer = "s64 \<times> string \<times> kfile"

definition handler :: "kernel \<Rightarrow> kfile \<Rightarrow> call \<Rightarrow> kstate \<Rightarrow> (answer \<times> kstate) outcome" where
  "handler K f c st =
     (case c of
        Read count \<Rightarrow> and_then (aesd_read K st f count (f_pos f)) (\<lambda>(n, pos, bs, st).
          Done ((n, bs, f\<lparr>f_pos := pos\<rparr>), st))
      | Write buf \<Rightarrow> and_then (aesd_write K st f buf (of_nat (length buf)) (f_pos f)) (\<lambda>(n, pos, st).
          Done ((n, [], f\<lparr>f_pos := pos\<rparr>), st))
      | Seek offset whence \<Rightarrow> and_then (aesd_llseek K st f offset whence) (\<lambda>(n, f, st). Done ((n, [], f), st))
      | Ioctl cmd arg \<Rightarrow> and_then (aesd_ioctl K st f cmd arg) (\<lambda>(n, f, st). Done ((n, [], f), st)))"

fun serial :: "kstate \<Rightarrow> (kernel \<times> kfile \<times> call) list \<Rightarrow> (answer list \<times> kstate) outcome" where
  "serial st [] = Done ([], st)"
| "serial st ((K, f, c) # cs) =
     and_then (handler K f c st) (\<lambda>(a, st).
       and_then (serial st cs) (\<lambda>(as, st). Done (a # as, st)))"

lemma serial_append:
  "serial st (cs @ ds) =
     and_then (serial st cs) (\<lambda>(as, st). and_then (serial st ds) (\<lambda>(bs, st). Done (as @ bs, st)))"
proof (induction cs arbitrary: st)
  case Nil
  then show ?case by (cases "serial st ds") auto
next
  case (Cons c cs)
  obtain K f d where c: "c = (K, f, d)" by (cases c)
  show ?case
  proof (cases "handler K f d st")
    case (Done r)
    then show ?thesis
      by (cases "serial (snd r) cs") (simp_all add: c Cons.IH and_then_assoc split_beta)
  qed (simp_all add: c)
qed

section \<open>Statements\<close>

text \<open>What a thread executes next, with the local variables that are still used. \<open>dev\<close> is a pointer, so
  every statement sees the device as it is then.\<close>

datatype hpoint =
    Idle
  | At_lock call
  | Read_find u64
  | Read_copy u64 u8 u64
  | Write_grow string
  | Write_copy string
  | Write_size s64
  | Write_test s64 u64
  | Write_add s64 u64
  | Write_null s64 u64
  | Write_zero s64 u64
  | Seek_size s64 s32
  | Seek_store s64
  | Ioctl_copy u32 aesd_seekto
  | Ioctl_check u32 u32
  | Ioctl_loop u32 u32 nat s64
  | Ioctl_store s64
  | At_unlock s64 string
  | Returned s64 string

fun first_point :: "call \<Rightarrow> hpoint" where
  "first_point (Read count) = Read_find count"
| "first_point (Write buf) = Write_grow buf"
| "first_point (Seek offset whence) = Seek_size offset whence"
| "first_point (Ioctl cmd arg) = Ioctl_copy cmd arg"

definition set_lock :: "bool \<Rightarrow> kstate \<Rightarrow> kstate" where
  "set_lock b st = st\<lparr>aesd_device := (aesd_device st)\<lparr>lock := b\<rparr>\<rparr>"

definition set_pending :: "(aesd_buffer_entry \<Rightarrow> aesd_buffer_entry) \<Rightarrow> kstate \<Rightarrow> kstate" where
  "set_pending g st = st\<lparr>aesd_device := (aesd_device st)\<lparr>dev_entry := g (dev_entry (aesd_device st))\<rparr>\<rparr>"

text \<open>The statements of each handler between its lock and its unlock; a point of another handler faults.\<close>

fun read_stmt :: "kernel \<Rightarrow> kfile \<Rightarrow> hpoint \<Rightarrow> kstate \<Rightarrow> (kfile \<times> hpoint \<times> kstate) outcome" where
  "read_stmt K f (Read_find count) st =
     (case aesd_circular_buffer_find_entry_offset_for_fpos (buffer (aesd_device st)) (f_pos f) of
        None \<Rightarrow> Hang
      | Some None \<Rightarrow> Done (f\<lparr>f_pos := 0\<rparr>, At_unlock 0 [], st)
      | Some (Some (i, entry_offset_byte_rtn)) \<Rightarrow> Done (f, Read_copy count i entry_offset_byte_rtn, st))"
| "read_stmt K f (Read_copy count i entry_offset_byte_rtn) st =
     (let buffer_entry = entry (buffer (aesd_device st)) ! unat i;
          num_of_writes = esize buffer_entry - entry_offset_byte_rtn;
          num_of_writes = (if count < num_of_writes then count else num_of_writes)
      in and_then (load_bytes (heap st) (buffptr buffer_entry) entry_offset_byte_rtn num_of_writes) (\<lambda>src.
           let (rest, delivered) = copy_to_user K src num_of_writes;
               not_copied = (ucast rest :: s32);
               retval = num_of_writes - scast not_copied
           in Done (f\<lparr>f_pos := f_pos f + retval\<rparr>, At_unlock retval delivered, st)))"
| "read_stmt K f pt st = Fault"

fun write_stmt :: "kernel \<Rightarrow> kfile \<Rightarrow> hpoint \<Rightarrow> kstate \<Rightarrow> (kfile \<times> hpoint \<times> kstate) outcome" where
  "write_stmt K f (Write_grow buf) st =
     (let e = dev_entry (aesd_device st);
          (p, h) = krealloc K (heap st) (buffptr e) (esize e + of_nat (length buf))
      in Done (f, Write_copy buf, set_pending (\<lambda>e. e\<lparr>buffptr := p\<rparr>) (st\<lparr>heap := h\<rparr>)))"
| "write_stmt K f (Write_copy buf) st =
     (let e = dev_entry (aesd_device st);
          (num_not_copied, bs) = copy_from_user K buf (of_nat (length buf))
      in and_then (store_bytes (heap st) (buffptr e) (esize e) bs) (\<lambda>h.
           Done (f, Write_size (of_nat (length buf) - num_not_copied), st\<lparr>heap := h\<rparr>)))"
| "write_stmt K f (Write_size retval) st =
     Done (f, Write_test retval 0, set_pending (\<lambda>e. e\<lparr>esize := esize e + retval\<rparr>) st)"
| "write_stmt K f (Write_test retval i) st =
     (let e = dev_entry (aesd_device st)
      in if i < esize e then
           and_then (load_byte (heap st) (buffptr e) i) (\<lambda>c.
             Done (f, if c = newline then Write_add retval i else Write_test retval (i + 1), st))
         else Done (f, At_unlock retval [], st))"
| "write_stmt K f (Write_add retval i) st =
     (let dev = aesd_device st
      in and_then (aesd_circular_buffer_add_entry (buffer dev) (dev_entry dev)) (\<lambda>b.
           Done (f, Write_null retval i, st\<lparr>aesd_device := dev\<lparr>buffer := b\<rparr>\<rparr>)))"
| "write_stmt K f (Write_null retval i) st =
     Done (f, Write_zero retval i, set_pending (\<lambda>e. e\<lparr>buffptr := 0\<rparr>) st)"
| "write_stmt K f (Write_zero retval i) st =
     Done (f, Write_test retval (i + 1), set_pending (\<lambda>e. e\<lparr>esize := 0\<rparr>) st)"
| "write_stmt K f pt st = Fault"

fun seek_stmt :: "kernel \<Rightarrow> kfile \<Rightarrow> hpoint \<Rightarrow> kstate \<Rightarrow> (kfile \<times> hpoint \<times> kstate) outcome" where
  "seek_stmt K f (Seek_size offset whence) st =
     (let (file_pos, f) = fixed_size_llseek K f offset whence (ucast (total_size (buffer (aesd_device st))))
      in Done (f, Seek_store file_pos, st))"
| "seek_stmt K f (Seek_store file_pos) st = Done (f\<lparr>f_pos := file_pos\<rparr>, At_unlock file_pos [], st)"
| "seek_stmt K f pt st = Fault"

fun ioctl_stmt :: "kernel \<Rightarrow> kfile \<Rightarrow> hpoint \<Rightarrow> kstate \<Rightarrow> (kfile \<times> hpoint \<times> kstate) outcome" where
  "ioctl_stmt K f (Ioctl_copy cmd arg) st =
     (if cmd = AESDCHAR_IOCSEEKTO K then
        (let (rest, seekto) = copy_seekto_from_user K arg
         in Done (f, if rest \<noteq> 0 then At_unlock EFAULT []
                     else Ioctl_check (write_cmd seekto) (write_cmd_offset seekto), st))
      else Done (f, At_unlock (- ENOTTY) [], st))"
| "ioctl_stmt K f pt st = Fault"

fun adjust_stmt :: "kernel \<Rightarrow> kfile \<Rightarrow> hpoint \<Rightarrow> kstate \<Rightarrow> (kfile \<times> hpoint \<times> kstate) outcome" where
  "adjust_stmt K f (Ioctl_check cmd cmd_offset) st =
     (let b = buffer (aesd_device st)
      in if private_data f \<noteq> dev_addr st then Fault
         else Done (f, if cmd \<ge> of_nat AESDCHAR_MAX_WRITE_OPERATIONS_SUPPORTED \<or>
                          buffptr (entry b ! unat cmd) = 0 \<or> esize (entry b ! unat cmd) \<le> ucast cmd_offset
                       then At_unlock (- EINVAL) [] else Ioctl_loop cmd cmd_offset 0 0, st))"
| "adjust_stmt K f (Ioctl_loop cmd cmd_offset i total_len) st =
     Done (f, if i < AESDCHAR_MAX_WRITE_OPERATIONS_SUPPORTED then
                (if of_nat i = cmd then Ioctl_store (total_len + ucast cmd_offset)
                 else Ioctl_loop cmd cmd_offset (Suc i) (total_len + esize (entry (buffer (aesd_device st)) ! i)))
              else Ioctl_store total_len, st)"
| "adjust_stmt K f (Ioctl_store total_len) st = Done (f\<lparr>f_pos := total_len\<rparr>, At_unlock 0 [], st)"
| "adjust_stmt K f pt st = Fault"

text \<open>With the lock and the unlock, which all four share.\<close>

fun handler_stmt :: "kernel \<Rightarrow> kfile \<Rightarrow> hpoint \<Rightarrow> kstate \<Rightarrow> (kfile \<times> hpoint \<times> kstate) outcome" where
  "handler_stmt K f Idle st = Done (f, Idle, st)"
| "handler_stmt K f (At_lock c) st =
     (if private_data f \<noteq> dev_addr st then Fault
      else
        (let (rc, held) = mutex_lock_interruptible K (lock (aesd_device st))
         in Done (f, if rc \<noteq> 0 then Returned (- ERESTARTSYS) [] else first_point c, set_lock held st)))"
| "handler_stmt K f (At_unlock retval bs) st =
     Done (f, Returned retval bs, set_lock (mutex_unlock K (lock (aesd_device st))) st)"
| "handler_stmt K f (Returned retval bs) st = Done (f, Returned retval bs, st)"
| "handler_stmt K f (Read_find count) st = read_stmt K f (Read_find count) st"
| "handler_stmt K f (Read_copy count i entry_offset_byte_rtn) st = read_stmt K f (Read_copy count i entry_offset_byte_rtn) st"
| "handler_stmt K f (Write_grow buf) st = write_stmt K f (Write_grow buf) st"
| "handler_stmt K f (Write_copy buf) st = write_stmt K f (Write_copy buf) st"
| "handler_stmt K f (Write_size retval) st = write_stmt K f (Write_size retval) st"
| "handler_stmt K f (Write_test retval i) st = write_stmt K f (Write_test retval i) st"
| "handler_stmt K f (Write_add retval i) st = write_stmt K f (Write_add retval i) st"
| "handler_stmt K f (Write_null retval i) st = write_stmt K f (Write_null retval i) st"
| "handler_stmt K f (Write_zero retval i) st = write_stmt K f (Write_zero retval i) st"
| "handler_stmt K f (Seek_size offset whence) st = seek_stmt K f (Seek_size offset whence) st"
| "handler_stmt K f (Seek_store file_pos) st = seek_stmt K f (Seek_store file_pos) st"
| "handler_stmt K f (Ioctl_copy cmd arg) st = ioctl_stmt K f (Ioctl_copy cmd arg) st"
| "handler_stmt K f (Ioctl_check cmd cmd_offset) st = adjust_stmt K f (Ioctl_check cmd cmd_offset) st"
| "handler_stmt K f (Ioctl_loop cmd cmd_offset i total_len) st = adjust_stmt K f (Ioctl_loop cmd cmd_offset i total_len) st"
| "handler_stmt K f (Ioctl_store total_len) st = adjust_stmt K f (Ioctl_store total_len) st"

section \<open>One thread alone\<close>

text \<open>What is left of a handler at a point, in one piece.\<close>

definition leave :: "kernel \<Rightarrow> kfile \<Rightarrow> s64 \<Rightarrow> string \<Rightarrow> kstate \<Rightarrow> (answer \<times> kstate) outcome" where
  "leave K f retval bs st = Done ((retval, bs, f), set_lock (mutex_unlock K (lock (aesd_device st))) st)"

definition finish_write :: "kernel \<Rightarrow> kfile \<Rightarrow> s64 \<Rightarrow> u64 \<Rightarrow> kstate \<Rightarrow> (answer \<times> kstate) outcome" where
  "finish_write K f retval i st =
     and_then (write_loop (heap st) i (aesd_device st)) (\<lambda>dev. leave K f retval [] (st\<lparr>aesd_device := dev\<rparr>))"

definition finish_copy :: "kernel \<Rightarrow> kfile \<Rightarrow> u64 \<Rightarrow> u8 \<Rightarrow> u64 \<Rightarrow> kstate \<Rightarrow> (answer \<times> kstate) outcome" where
  "finish_copy K f count i off st =
     (let buffer_entry = entry (buffer (aesd_device st)) ! unat i;
          num_of_writes = esize buffer_entry - off;
          num_of_writes = (if count < num_of_writes then count else num_of_writes)
      in and_then (load_bytes (heap st) (buffptr buffer_entry) off num_of_writes) (\<lambda>src.
           let (r, delivered) = copy_to_user K src num_of_writes;
               retval = num_of_writes - scast (ucast r :: s32)
           in leave K (f\<lparr>f_pos := f_pos f + retval\<rparr>) retval delivered st))"

definition finish_store :: "kernel \<Rightarrow> kfile \<Rightarrow> string \<Rightarrow> kstate \<Rightarrow> (answer \<times> kstate) outcome" where
  "finish_store K f buf st =
     (let e = dev_entry (aesd_device st);
          (num_not_copied, bs) = copy_from_user K buf (of_nat (length buf));
          retval = of_nat (length buf) - num_not_copied
      in and_then (store_bytes (heap st) (buffptr e) (esize e) bs) (\<lambda>h.
           finish_write K f retval 0 (set_pending (\<lambda>e. e\<lparr>esize := esize e + retval\<rparr>) (st\<lparr>heap := h\<rparr>))))"

definition finish_check :: "kernel \<Rightarrow> kfile \<Rightarrow> u32 \<Rightarrow> u32 \<Rightarrow> kstate \<Rightarrow> (answer \<times> kstate) outcome" where
  "finish_check K f cmd off st =
     and_then (aesd_adjust_file_offset st f cmd off) (\<lambda>(n, f). leave K f n [] st)"

lemmas finish_defs = finish_write_def finish_copy_def finish_store_def finish_check_def leave_def

fun rest :: "kernel \<Rightarrow> kfile \<Rightarrow> hpoint \<Rightarrow> kstate \<Rightarrow> (answer \<times> kstate) outcome" where
  "rest K f Idle st = Fault"
| "rest K f (At_lock c) st = handler K f c st"
| "rest K f (Returned retval bs) st = Done ((retval, bs, f), st)"
| "rest K f (At_unlock retval bs) st = leave K f retval bs st"
| "rest K f (Read_copy count i off) st = finish_copy K f count i off st"
| "rest K f (Read_find count) st =
     (case aesd_circular_buffer_find_entry_offset_for_fpos (buffer (aesd_device st)) (f_pos f) of
        None \<Rightarrow> Hang
      | Some None \<Rightarrow> leave K (f\<lparr>f_pos := 0\<rparr>) 0 [] st
      | Some (Some (i, off)) \<Rightarrow> finish_copy K f count i off st)"
| "rest K f (Write_test retval i) st = finish_write K f retval i st"
| "rest K f (Write_zero retval i) st = finish_write K f retval (i + 1) (set_pending (\<lambda>e. e\<lparr>esize := 0\<rparr>) st)"
| "rest K f (Write_null retval i) st =
     finish_write K f retval (i + 1) (set_pending (\<lambda>_. \<lparr>buffptr = 0, esize = 0\<rparr>) st)"
| "rest K f (Write_add retval i) st =
     and_then (aesd_circular_buffer_add_entry (buffer (aesd_device st)) (dev_entry (aesd_device st))) (\<lambda>b.
       finish_write K f retval (i + 1)
         (st\<lparr>aesd_device := (aesd_device st)\<lparr>buffer := b, dev_entry := \<lparr>buffptr = 0, esize = 0\<rparr>\<rparr>\<rparr>))"
| "rest K f (Write_size retval) st = finish_write K f retval 0 (set_pending (\<lambda>e. e\<lparr>esize := esize e + retval\<rparr>) st)"
| "rest K f (Write_copy buf) st = finish_store K f buf st"
| "rest K f (Write_grow buf) st =
     (let e = dev_entry (aesd_device st);
          (p, h) = krealloc K (heap st) (buffptr e) (esize e + of_nat (length buf))
      in finish_store K f buf (set_pending (\<lambda>e. e\<lparr>buffptr := p\<rparr>) (st\<lparr>heap := h\<rparr>)))"
| "rest K f (Seek_store file_pos) st = leave K (f\<lparr>f_pos := file_pos\<rparr>) file_pos [] st"
| "rest K f (Seek_size offset whence) st =
     (let (file_pos, f) = fixed_size_llseek K f offset whence (ucast (total_size (buffer (aesd_device st))))
      in leave K (f\<lparr>f_pos := file_pos\<rparr>) file_pos [] st)"
| "rest K f (Ioctl_store total_len) st = leave K (f\<lparr>f_pos := total_len\<rparr>) 0 [] st"
| "rest K f (Ioctl_loop cmd off i total_len) st =
     leave K (f\<lparr>f_pos := adjust_loop (buffer (aesd_device st)) cmd off i total_len\<rparr>) 0 [] st"
| "rest K f (Ioctl_check cmd off) st = finish_check K f cmd off st"
| "rest K f (Ioctl_copy cmd arg) st =
     (if cmd = AESDCHAR_IOCSEEKTO K then
        (let (r, seekto) = copy_seekto_from_user K arg
         in if r \<noteq> 0 then leave K f EFAULT [] st
            else finish_check K f (write_cmd seekto) (write_cmd_offset seekto) st)
      else leave K f (- ENOTTY) [] st)"

lemma adjust_loop_step:
  "adjust_loop b cmd off i total_len =
     (if i < AESDCHAR_MAX_WRITE_OPERATIONS_SUPPORTED then
        (if of_nat i = cmd then total_len + ucast off
         else adjust_loop b cmd off (Suc i) (total_len + esize (entry b ! i)))
      else total_len)"
  by (rule adjust_loop.simps)

lemma entry_fields: "(e :: aesd_buffer_entry)\<lparr>buffptr := p, esize := n\<rparr> = \<lparr>buffptr = p, esize = n\<rparr>"
  by (cases e) simp

lemma heap_device: "(st :: kstate)\<lparr>heap := h, aesd_device := dev\<rparr> = st\<lparr>aesd_device := dev, heap := h\<rparr>"
  by (cases st) simp

lemma rest_lock:
  assumes "handler_stmt K f (At_lock c) st = Done (f', pt', st')"
  shows "rest K f' pt' st' = handler K f c st"
proof (cases c)
  case (Read count)
  then show ?thesis using assms
    by (auto simp: handler_def aesd_read_def Let_def split_beta set_lock_def finish_defs and_then_assoc
        split: if_splits option.splits)
next
  case (Write buf)
  then show ?thesis using assms
    by (auto simp: handler_def aesd_write_def Let_def split_beta set_lock_def set_pending_def finish_defs and_then_assoc
        heap_device split: if_splits)
next
  case (Seek off whence)
  then show ?thesis using assms
    by (auto simp: handler_def aesd_llseek_def Let_def split_beta set_lock_def finish_defs split: if_splits)
next
  case (Ioctl cmd arg)
  then show ?thesis using assms
    by (auto simp: handler_def aesd_ioctl_def Let_def split_beta set_lock_def finish_defs and_then_assoc
        aesd_adjust_file_offset_def split: if_splits)
qed

lemma rest_stmt:
  assumes "handler_stmt K f pt st = Done (f', pt', st')" and "pt \<noteq> Idle"
  shows "rest K f' pt' st' = rest K f pt st"
proof (cases pt)
  case (At_lock c)
  then show ?thesis using rest_lock assms by simp
next
  case (Write_test r i)
  then show ?thesis using assms(1)
    by (auto simp: Let_def finish_write_def write_loop.simps [of _ i] set_pending_def and_then_assoc split: if_splits)
next
  case (Ioctl_loop cmd off i n)
  then show ?thesis using assms(1)
    by (auto simp: adjust_loop_step [of _ _ _ i] del: adjust_loop.simps split: if_splits)
qed (use assms in \<open>auto simp: Let_def finish_defs set_pending_def aesd_adjust_file_offset_def split_beta entry_fields split: if_splits option.splits\<close>)


text \<open>A thread that runs alone.\<close>

definition stmt_of :: "kernel \<Rightarrow> kfile \<times> hpoint \<times> kstate \<Rightarrow> kfile \<times> hpoint \<times> kstate \<Rightarrow> bool" where
  "stmt_of K = (\<lambda>(f, pt, st) next. pt \<noteq> Idle \<and> handler_stmt K f pt st = Done next)"

definition alone :: "kernel \<Rightarrow> kfile \<times> hpoint \<times> kstate \<Rightarrow> kfile \<times> hpoint \<times> kstate \<Rightarrow> bool" where
  "alone K = (stmt_of K)\<^sup>*\<^sup>*"

lemma alone_rest:
  assumes "alone K x y"
  shows "(\<lambda>(f, pt, st). rest K f pt st) y = (\<lambda>(f, pt, st). rest K f pt st) x"
  using assms unfolding alone_def
  by (induction rule: rtranclp_induct) (auto simp: stmt_of_def rest_stmt)

lemma alone_handler:
  "alone K (f, At_lock c, st) (f', Returned n bs, st') \<Longrightarrow> handler K f c st = Done ((n, bs, f'), st')"
  using alone_rest by fastforce

lemma alone_step: "alone K x (f, pt, st) \<Longrightarrow> pt \<noteq> Idle \<Longrightarrow> handler_stmt K f pt st = Done y \<Longrightarrow> alone K x y"
  unfolding alone_def by (rule rtranclp.rtrancl_into_rtrancl) (auto simp: stmt_of_def)

section \<open>Several threads\<close>

record kthread =
  kern :: kernel
  tfile :: kfile
  point :: hpoint

fun inside :: "hpoint \<Rightarrow> bool" where
  "inside Idle \<longleftrightarrow> False"
| "inside (At_lock c) \<longleftrightarrow> False"
| "inside (Returned retval bs) \<longleftrightarrow> False"
| "inside pt \<longleftrightarrow> True"

text \<open>A thread at the mutex waits while another holds it, unless it is interrupted.\<close>

definition waits :: "kthread \<Rightarrow> kstate \<Rightarrow> bool" where
  "waits t st \<longleftrightarrow> (\<exists>c. point t = At_lock c) \<and> lock (aesd_device st) \<and>
     fst (mutex_lock_interruptible (kern t) (lock (aesd_device st))) = 0"

fun small_call :: "call \<Rightarrow> bool" where
  "small_call (Read count) \<longleftrightarrow> unat count < 2 ^ 31"
| "small_call (Write buf) \<longleftrightarrow> length buf < 2 ^ 31"
| "small_call c \<longleftrightarrow> True"

text \<open>The calls that got the mutex, in the order in which they got it, and what the finished ones returned.\<close>

fun taken :: "kthread \<Rightarrow> hpoint \<Rightarrow> (kernel \<times> kfile \<times> call) list" where
  "taken t pt' = (case point t of At_lock c \<Rightarrow> if inside pt' then [(kern t, tfile t, c)] else [] | _ \<Rightarrow> [])"

fun given :: "kthread \<Rightarrow> answer list" where
  "given t = (case point t of At_unlock n bs \<Rightarrow> [(n, bs, tfile t)] | _ \<Rightarrow> [])"

inductive system :: "kstate \<Rightarrow> (kernel \<times> kfile \<times> call) list \<Rightarrow> answer list \<Rightarrow> kstate \<Rightarrow> kthread list \<Rightarrow> bool"
  for st0 where
  start: "\<forall>t \<in> set ts. point t = Idle \<Longrightarrow> system st0 [] [] st0 ts"
| invoke: "system st0 calls answers st ts \<Longrightarrow> i < length ts \<Longrightarrow> point (ts ! i) = Idle \<or> (\<exists>n bs. point (ts ! i) = Returned n bs) \<Longrightarrow>
    kernel_ok K \<Longrightarrow> small_call c \<Longrightarrow>
    system st0 calls answers st (ts[i := (ts ! i)\<lparr>kern := K, point := At_lock c\<rparr>])"
| stmt: "system st0 calls answers st ts \<Longrightarrow> i < length ts \<Longrightarrow> \<not> waits (ts ! i) st \<Longrightarrow> point (ts ! i) \<noteq> Idle \<Longrightarrow>
    handler_stmt (kern (ts ! i)) (tfile (ts ! i)) (point (ts ! i)) st = Done (f', pt', st') \<Longrightarrow>
    system st0 (calls @ taken (ts ! i) pt') (answers @ given (ts ! i)) st' (ts[i := (ts ! i)\<lparr>tfile := f', point := pt'\<rparr>])"

inductive_cases systemE: "system st0 calls answers st ts"

text \<open>Nobody is inside and the finished calls have the effect of the serial ones, or one thread is, it
  holds the mutex, and it has got to its point from the state the others left.\<close>

definition holds :: "kstate \<Rightarrow> (kernel \<times> kfile \<times> call) list \<Rightarrow> answer list \<Rightarrow> kstate \<Rightarrow> kthread list \<Rightarrow> nat \<Rightarrow> bool" where
  "holds st0 calls answers st ts i \<longleftrightarrow> inside (point (ts ! i)) \<and>
     (\<forall>j < length ts. inside (point (ts ! j)) \<longrightarrow> j = i) \<and>
     (\<exists>cs f c st1. calls = cs @ [(kern (ts ! i), f, c)] \<and> serial st0 cs = Done (answers, st1) \<and>
       \<not> lock (aesd_device st1) \<and> alone (kern (ts ! i)) (f, At_lock c, st1) (tfile (ts ! i), point (ts ! i), st))"

definition ordered :: "kstate \<Rightarrow> (kernel \<times> kfile \<times> call) list \<Rightarrow> answer list \<Rightarrow> kstate \<Rightarrow> kthread list \<Rightarrow> bool" where
  "ordered st0 calls answers st ts \<longleftrightarrow>
     (if lock (aesd_device st) then \<exists>i < length ts. holds st0 calls answers st ts i
      else (\<forall>i < length ts. \<not> inside (point (ts ! i))) \<and> serial st0 calls = Done (answers, st))"

lemma orderedI:
  "lock (aesd_device st) \<Longrightarrow> i < length ts \<Longrightarrow> holds st0 calls answers st ts i \<Longrightarrow> ordered st0 calls answers st ts"
  by (auto simp: ordered_def)

lemma ordered_insideD:
  assumes "ordered st0 calls answers st ts" and "i < length ts" and "inside (point (ts ! i))"
  shows "lock (aesd_device st)" and "holds st0 calls answers st ts i"
  using assms by (auto simp: ordered_def holds_def split: if_splits)

lemma first_point_inside [simp]: "inside (first_point c)" by (cases c) simp_all

lemma inside_stmt:
  assumes "handler_stmt K f pt st = Done (f', pt', st')" and "inside pt"
  shows "(\<exists>n bs. pt = At_unlock n bs \<and> pt' = Returned n bs \<and> f' = f \<and>
      lock (aesd_device st') = mutex_unlock K (lock (aesd_device st))) \<or>
    (\<forall>n bs. pt \<noteq> At_unlock n bs) \<and> inside pt' \<and> lock (aesd_device st') = lock (aesd_device st)"
  using assms
  by (cases pt) (auto simp: Let_def split_beta set_lock_def set_pending_def split: if_splits option.splits)


text \<open>Each kind of step keeps \<open>ordered\<close>.\<close>

definition lawful :: "kthread \<Rightarrow> bool" where
  "lawful t \<longleftrightarrow> point t = Idle \<or> kernel_ok (kern t) \<and> (\<forall>c. point t = At_lock c \<longrightarrow> small_call c)"

definition lawful_calls :: "(kernel \<times> kfile \<times> call) list \<Rightarrow> bool" where
  "lawful_calls calls \<longleftrightarrow> (\<forall>(K, f, c) \<in> set calls. kernel_ok K \<and> small_call c)"

lemma holds_other:
  "holds st0 calls answers st ts k \<Longrightarrow> ts' ! k = ts ! k \<Longrightarrow>
    \<forall>j < length ts'. inside (point (ts' ! j)) \<longrightarrow> j = k \<Longrightarrow> holds st0 calls answers st ts' k"
  by (simp add: holds_def)

lemma holds_inside: "holds st0 calls answers st ts k \<Longrightarrow> inside (point (ts ! k))"
  and holds_only: "holds st0 calls answers st ts k \<Longrightarrow> j < length ts \<Longrightarrow> inside (point (ts ! j)) \<Longrightarrow> j = k"
  by (simp_all add: holds_def)

lemma ordered_outside:
  assumes "ordered st0 calls answers st ts" and "i < length ts" and "\<not> inside (point (ts ! i))" and "\<not> inside (point t)"
  shows "ordered st0 calls answers st (ts[i := t])"
proof (cases "lock (aesd_device st)")
  case True
  then obtain k where k: "k < length ts" "holds st0 calls answers st ts k"
    using assms(1) by (auto simp: ordered_def)
  then have "k \<noteq> i" using assms(3) holds_inside by blast
  then have same: "ts[i := t] ! k = ts ! k" by simp
  have "j = k" if "j < length ts" "inside (point (ts[i := t] ! j))" for j
    using that assms(4) holds_only [OF k(2), of j] assms(2) by (cases "j = i") simp_all
  then have "holds st0 calls answers st (ts[i := t]) k"
    using holds_other [OF k(2) same] by simp
  with True k(1) show ?thesis by (simp add: orderedI)
next
  case False
  have "\<not> inside (point (ts[i := t] ! j))" if "j < length ts" for j
    using False assms that by (cases "j = i") (simp_all add: ordered_def)
  with False assms(1) show ?thesis by (simp add: ordered_def)
qed

lemma ordered_lock:
  assumes o: "ordered st0 calls answers st ts" and i: "i < length ts" "point (ts ! i) = At_lock c"
    and K: "lock_law (kern (ts ! i))" and free: "\<not> waits (ts ! i) st"
    and stmt: "handler_stmt (kern (ts ! i)) (tfile (ts ! i)) (At_lock c) st = Done (f', pt', st')"
  shows "ordered st0 (calls @ taken (ts ! i) pt') answers st' (ts[i := (ts ! i)\<lparr>tfile := f', point := pt'\<rparr>])"
proof -
  let ?K = "kern (ts ! i)"
  obtain rc held where lk: "mutex_lock_interruptible ?K (lock (aesd_device st)) = (rc, held)" by fastforce
  have s: "f' = tfile (ts ! i)" "pt' = (if rc \<noteq> 0 then Returned (- ERESTARTSYS) [] else first_point c)" "st' = set_lock held st"
    using stmt lk by (auto split: if_splits)
  show ?thesis
  proof (cases "rc = 0")
    case False
    then have "held = lock (aesd_device st)" using K lk by (simp add: lock_law_def)
    then have "st' = st" by (simp add: s(3) set_lock_def)
    with False o ordered_outside [OF o i(1)] i(2) s(1,2) show ?thesis by simp
  next
    case True
    then have held: held using K lk by (simp add: lock_law_def) (metis (full_types))
    have nl: "\<not> lock (aesd_device st)" using free lk True i(2) by (auto simp: waits_def)
    then have none: "\<forall>j < length ts. \<not> inside (point (ts ! j))" and ser: "serial st0 calls = Done (answers, st)"
      using o by (simp_all add: ordered_def)
    have "alone ?K (f', At_lock c, st) (f', pt', st')"
      unfolding alone_def using stmt s(1) by (intro r_into_rtranclp) (simp add: stmt_of_def)
    then have "holds st0 (calls @ taken (ts ! i) pt') answers st' (ts[i := (ts ! i)\<lparr>tfile := f', point := pt'\<rparr>]) i"
      using none ser nl i s(1,2) True by (auto simp: holds_def nth_list_update)
    then show ?thesis
      using held i(1) by (intro orderedI [of _ i]) (simp_all add: s(3) set_lock_def)
  qed
qed

lemma ordered_inside:
  assumes o: "ordered st0 calls answers st ts" and i: "i < length ts" "inside (point (ts ! i))"
    and K: "lock_law (kern (ts ! i))"
    and stmt: "handler_stmt (kern (ts ! i)) (tfile (ts ! i)) (point (ts ! i)) st = Done (f', pt', st')"
  shows "ordered st0 calls (answers @ given (ts ! i)) st' (ts[i := (ts ! i)\<lparr>tfile := f', point := pt'\<rparr>])"
proof -
  let ?t = "ts ! i" and ?ts = "ts[i := (ts ! i)\<lparr>tfile := f', point := pt'\<rparr>]"
  note d = ordered_insideD [OF o i]
  from d(2) obtain cs f c st1 where only: "\<forall>j < length ts. inside (point (ts ! j)) \<longrightarrow> j = i"
      and c: "calls = cs @ [(kern ?t, f, c)]" "serial st0 cs = Done (answers, st1)" "\<not> lock (aesd_device st1)"
      "alone (kern ?t) (f, At_lock c, st1) (tfile ?t, point ?t, st)"
    by (auto simp: holds_def)
  have go: "alone (kern ?t) (f, At_lock c, st1) (f', pt', st')"
    by (rule alone_step [OF c(4) _ stmt]) (use i(2) in auto)
  from inside_stmt [OF stmt i(2)] show ?thesis
  proof (elim disjE conjE exE)
    fix n bs
    assume u: "point ?t = At_unlock n bs" "pt' = Returned n bs" "f' = tfile ?t"
      and "lock (aesd_device st') = mutex_unlock (kern ?t) (lock (aesd_device st))"
    then have free: "\<not> lock (aesd_device st')" using K by (simp add: lock_law_def)
    have "handler (kern ?t) f c st1 = Done ((n, bs, f'), st')"
      using alone_handler go u(2) by blast
    then have "serial st0 calls = Done (answers @ given ?t, st')"
      using c(1,2) u(1,3) by (simp add: serial_append)
    moreover have "\<not> inside (point (?ts ! j))" if "j < length ts" for j
      using only that u(2) by (cases "j = i") auto
    ultimately show ?thesis
      using free by (simp add: ordered_def)
  next
    assume "\<forall>n bs. point ?t \<noteq> At_unlock n bs" and in': "inside pt'" and "lock (aesd_device st') = lock (aesd_device st)"
    then have "given ?t = []" "lock (aesd_device st')"
      using d(1) by (auto split: hpoint.split)
    moreover have "holds st0 calls answers st' ?ts i"
      using c(1-3) go in' only i(1) by (auto simp: holds_def nth_list_update)
    ultimately show ?thesis
      using i(1) by (intro orderedI [of _ i]) simp_all
  qed
qed

lemma not_lock_again: "handler_stmt K f pt st = Done (f', pt', st') \<Longrightarrow> pt' \<noteq> At_lock c"
  by (cases pt; cases c)
    (auto simp: Let_def split_beta split: if_splits option.splits elim!: first_point.elims)

lemma lawful_update: "\<forall>t \<in> set ts. lawful t \<Longrightarrow> lawful u \<Longrightarrow> \<forall>t \<in> set (ts[i := u]). lawful t"
  by (auto dest: set_update_subset_insert [THEN subsetD])

lemma system_ordered:
  assumes "system st0 calls answers st ts" and "\<not> lock (aesd_device st0)"
  shows "ordered st0 calls answers st ts \<and> lawful_calls calls \<and> (\<forall>t \<in> set ts. lawful t)"
  using assms
proof (induction rule: system.induct)
  case (start ts)
  then show ?case by (auto simp: ordered_def lawful_def lawful_calls_def)
next
  case (invoke calls answers st ts i K c)
  then have "\<not> inside (point (ts ! i))" by auto
  then show ?case
    using invoke ordered_outside [OF _ invoke.hyps(2)] lawful_update [of ts "(ts ! i)\<lparr>kern := K, point := At_lock c\<rparr>" i]
    by (simp add: lawful_def)
next
  case (stmt calls answers st ts i f' pt' st')
  let ?t = "ts ! i"
  have o: "ordered st0 calls answers st ts" and law: "lawful ?t" using stmt by auto
  then have K: "kernel_ok (kern ?t)" "lock_law (kern ?t)" using stmt.hyps(4) by (auto simp: lawful_def kernel_ok_def)
  have "ordered st0 (calls @ taken ?t pt') (answers @ given ?t) st' (ts[i := ?t\<lparr>tfile := f', point := pt'\<rparr>])"
  proof (cases "inside (point ?t)")
    case True
    then have "taken ?t pt' = []" by (auto split: hpoint.split)
    with ordered_inside [OF o stmt.hyps(2) True K(2) stmt.hyps(5)] show ?thesis by simp
  next
    case False
    then consider c where "point ?t = At_lock c" | n bs where "point ?t = Returned n bs"
      using stmt.hyps(4) by (cases "point ?t") auto
    then show ?thesis
    proof cases
      case 1
      with ordered_lock [OF o stmt.hyps(2) 1 K(2) stmt.hyps(3)] stmt.hyps(5) show ?thesis by simp
    next
      case 2
      with stmt.hyps(5) have "pt' = Returned n bs" "st' = st" by simp_all
      with 2 ordered_outside [OF o stmt.hyps(2) False, of "?t\<lparr>tfile := f', point := pt'\<rparr>"] show ?thesis by simp
    qed
  qed
  moreover have "lawful (?t\<lparr>tfile := f', point := pt'\<rparr>)"
    using K(1) not_lock_again [OF stmt.hyps(5)] by (simp add: lawful_def)
  then have "\<forall>t \<in> set (ts[i := ?t\<lparr>tfile := f', point := pt'\<rparr>]). lawful t"
    using lawful_update stmt.IH stmt.prems by blast
  moreover have "lawful_calls (calls @ taken ?t pt')"
    using stmt.IH stmt.prems K(1) law by (auto simp: lawful_def lawful_calls_def split: hpoint.splits if_splits)
  ultimately show ?case by blast
qed

section \<open>Serial calls as a history of the device\<close>

text \<open>The bytes each write accepted.\<close>

fun written :: "(kernel \<times> kfile \<times> call) list \<Rightarrow> answer list \<Rightarrow> string list" where
  "written ((K, f, c) # cs) ((n, bs, f') # as) =
     (case c of Write buf \<Rightarrow> accepted n buf | _ \<Rightarrow> []) # written cs as"
| "written cs as = []"

lemma handler_step:
  assumes "handler K f c st = Done ((n, bs, f'), st')" and "kernel_ok K" and "small_call c"
  shows "dev_step st (case c of Write buf \<Rightarrow> accepted n buf | _ \<Rightarrow> []) st'"
proof -
  have addr: "private_data f = dev_addr st"
    using assms(1) by (cases c)
      (auto simp: handler_def aesd_read_def aesd_write_def aesd_llseek_def aesd_ioctl_def split: if_splits)
  show ?thesis
  proof (cases c)
    case (Write buf)
    then have "length buf = unat (of_nat (length buf) :: u64)" "unat (of_nat (length buf) :: u64) < 2 ^ 31"
      using assms(3) by (simp_all add: unat_of_nat)
    with Write assms(1) dev_step.do_write [OF assms(2) addr this] show ?thesis by (auto simp: handler_def)
  qed (use assms addr in \<open>auto simp: handler_def intro: dev_step.intros\<close>)
qed

lemma serial_history:
  "serial st calls = Done (answers, st') \<Longrightarrow> history ws st \<Longrightarrow> lawful_calls calls \<Longrightarrow>
    history (ws @ written calls answers) st'"
proof (induction calls arbitrary: st ws answers)
  case (Cons x calls)
  obtain K f c where x: "x = (K, f, c)" by (cases x)
  then obtain n bs f' st1 as where h: "handler K f c st = Done ((n, bs, f'), st1)"
      "serial st1 calls = Done (as, st')" "answers = (n, bs, f') # as"
    using Cons.prems(1) by auto
  have law: "kernel_ok K" "small_call c" "lawful_calls calls" using Cons.prems(3) x by (simp_all add: lawful_calls_def)
  from Cons.IH [OF h(2) history.step [OF Cons.prems(2) handler_step [OF h(1) law(1,2)]] law(3)]
  show ?case by (simp add: x h(3))
qed simp

section \<open>The mutex is released\<close>

text \<open>Statements a thread has left at most; \<open>2 ^ 64\<close> bounds the bytes \<open>aesd_write\<close> looks at.\<close>

fun stmts_left :: "hpoint \<Rightarrow> kstate \<Rightarrow> nat" where
  "stmts_left Idle st = 0"
| "stmts_left (Returned n bs) st = 0"
| "stmts_left (At_unlock n bs) st = 1"
| "stmts_left (Read_copy count i off) st = 2"
| "stmts_left (Read_find count) st = 3"
| "stmts_left (Write_test n i) st = 2 + 4 * (unat (esize (dev_entry (aesd_device st))) - unat i)"
| "stmts_left (Write_zero n i) st = 3"
| "stmts_left (Write_null n i) st = 4"
| "stmts_left (Write_add n i) st = 5"
| "stmts_left (Write_size n) st = 3 + 4 * 2 ^ 64"
| "stmts_left (Write_copy buf) st = 4 + 4 * 2 ^ 64"
| "stmts_left (Write_grow buf) st = 5 + 4 * 2 ^ 64"
| "stmts_left (Seek_store p) st = 2"
| "stmts_left (Seek_size off whence) st = 3"
| "stmts_left (Ioctl_store p) st = 2"
| "stmts_left (Ioctl_loop cmd off i p) st = 3 + (10 - i)"
| "stmts_left (Ioctl_check cmd off) st = 14"
| "stmts_left (Ioctl_copy cmd arg) st = 15"
| "stmts_left (At_lock c) st = 6 + 4 * 2 ^ 64"

lemma stmts_decrease:
  assumes "handler_stmt K f pt st = Done (f', pt', st')" and "inside pt"
  shows "stmts_left pt' st' < stmts_left pt st"
proof (cases pt)
  case (Write_test n i)
  let ?n = "esize (dev_entry (aesd_device st))"
  have "unat (i + 1) = unat i + 1 \<and> unat i < unat ?n" if "i < ?n"
    using that by unat_arith
  with assms Write_test show ?thesis
    by (auto simp: Let_def split: if_splits)
next
  case (Write_size n)
  have "unat (esize (dev_entry (aesd_device st)) + n) < 2 ^ 64"
    using unsigned_less [of "esize (dev_entry (aesd_device st)) + n"] by simp
  with assms Write_size show ?thesis by (auto simp: set_pending_def)
qed (use assms in \<open>auto simp: Let_def split_beta set_pending_def split: if_splits option.splits\<close>)

lemma rest_returns:
  assumes "rest K f pt st = Done r" and "pt \<noteq> Idle"
  shows "\<exists>y. handler_stmt K f pt st = Done y"
proof (cases pt)
  case (At_lock c)
  have "private_data f = dev_addr st"
    using assms(1) At_lock by (cases c)
      (auto simp: handler_def aesd_read_def aesd_write_def aesd_llseek_def aesd_ioctl_def split: if_splits)
  with At_lock show ?thesis by (simp add: split_beta)
next
  case (Write_test n i)
  with assms(1) show ?thesis
    by (auto simp: finish_write_def write_loop.simps [of _ i] Let_def split: if_splits)
qed (use assms in \<open>auto simp: Let_def split_beta finish_copy_def finish_store_def finish_check_def aesd_adjust_file_offset_def split: if_splits option.splits\<close>)


text \<open>The thread that holds the mutex has a next statement, unless its write found no memory.\<close>

definition starved :: "kernel \<Rightarrow> call \<Rightarrow> kstate \<Rightarrow> bool" where
  "starved K c st \<longleftrightarrow> (\<exists>buf. c = Write buf \<and>
     fst (krealloc K (heap st) (pend_ptr st) (esize (dev_entry (aesd_device st)) + of_nat (length buf))) = 0)"

lemma handler_returns:
  assumes "dev_inv st" and "kernel_ok K" and "small_call c" and addr: "private_data f = dev_addr st" and "\<not> starved K c st"
  shows "\<exists>r. handler K f c st = Done r"
proof (cases c)
  case (Read count)
  with assms(3) read_keeps [OF assms(1,2) addr, of count "f_pos f"] show ?thesis by (auto simp: handler_def)
next
  case (Write buf)
  then have "length buf = unat (of_nat (length buf) :: u64)" "unat (of_nat (length buf) :: u64) < 2 ^ 31"
    using assms(3) by (simp_all add: unat_of_nat)
  with Write assms(5) write_cases [OF assms(1,2) addr this, of "f_pos f"] show ?thesis
    by (auto simp: handler_def starved_def)
next
  case (Seek off whence)
  with llseek_keeps [OF assms(1,2) addr, of off whence] show ?thesis by (auto simp: handler_def)
next
  case (Ioctl cmd arg)
  with ioctl_keeps [OF assms(1,2) addr, of cmd arg] show ?thesis by (auto simp: handler_def)
qed

lemma alone_addr:
  assumes "alone K (f, At_lock c, st) (f', pt, st')" and "inside pt"
  shows "private_data f = dev_addr st"
proof -
  from assms(1) have "(f, At_lock c, st) = (f', pt, st') \<or> (\<exists>z. stmt_of K (f, At_lock c, st) z)"
    unfolding alone_def by (meson converse_rtranclpE)
  with assms(2) show ?thesis by (auto simp: stmt_of_def split: if_splits)
qed

lemma holder_goes_on:
  assumes o: "holds st0 calls answers st ts i" and law: "lawful_calls calls" and h: "history ws st0"
  shows "\<exists>st1. serial st0 (butlast calls) = Done (answers, st1) \<and>
    ((\<exists>K f c. last calls = (K, f, c) \<and> starved K c st1) \<or>
     (\<exists>f' pt' st'. handler_stmt (kern (ts ! i)) (tfile (ts ! i)) (point (ts ! i)) st = Done (f', pt', st') \<and>
        stmts_left pt' st' < stmts_left (point (ts ! i)) st))"
proof -
  let ?t = "ts ! i"
  obtain cs f c st1 where c: "calls = cs @ [(kern ?t, f, c)]" "serial st0 cs = Done (answers, st1)"
      "alone (kern ?t) (f, At_lock c, st1) (tfile ?t, point ?t, st)" and in_i: "inside (point ?t)"
    using o unfolding holds_def by blast
  have K: "kernel_ok (kern ?t)" "small_call c" "lawful_calls cs" using law c(1) by (simp_all add: lawful_calls_def)
  have inv: "dev_inv st1" using history_inv [OF serial_history [OF c(2) h K(3)]] by blast
  show ?thesis
  proof (cases "starved (kern ?t) c st1")
    case False
    then obtain r where "handler (kern ?t) f c st1 = Done r"
      using handler_returns [OF inv K(1,2) alone_addr [OF c(3) in_i]] by blast
    then have "rest (kern ?t) (tfile ?t) (point ?t) st = Done r" using alone_rest [OF c(3)] by simp
    moreover have "point ?t \<noteq> Idle" using in_i by auto
    ultimately obtain f' pt' st' where y: "handler_stmt (kern ?t) (tfile ?t) (point ?t) st = Done (f', pt', st')"
      using rest_returns by (metis prod_cases3)
    have "serial st0 (butlast calls) = Done (answers, st1)" using c(1,2) by simp
    with y stmts_decrease [OF y in_i] show ?thesis by blast
  next
    case True
    have "serial st0 (butlast calls) = Done (answers, st1)" "last calls = (kern ?t, f, c)" using c(1,2) by simp_all
    with True show ?thesis by blast
  qed
qed


section \<open>Completing a call\<close>

lemma stmt_to_end:
  assumes "inside pt" and "rest K f pt st = Done ((n, bs, f'), st')"
  shows "(pt = At_unlock n bs \<and> handler_stmt K f pt st = Done (f', Returned n bs, st')) \<or>
    (\<exists>f1 pt1 st1. handler_stmt K f pt st = Done (f1, pt1, st1) \<and> inside pt1 \<and> (\<forall>m cs. pt \<noteq> At_unlock m cs) \<and>
      rest K f1 pt1 st1 = Done ((n, bs, f'), st') \<and> stmts_left pt1 st1 < stmts_left pt st)"
proof -
  have "pt \<noteq> Idle" using assms(1) by auto
  then obtain f1 pt1 st1 where y: "handler_stmt K f pt st = Done (f1, pt1, st1)"
    using rest_returns [OF assms(2)] by (metis prod_cases3)
  have r: "rest K f1 pt1 st1 = Done ((n, bs, f'), st')"
    using rest_stmt [OF y \<open>pt \<noteq> Idle\<close>] assms(2) by simp
  from inside_stmt [OF y assms(1)] show ?thesis
  proof (elim disjE conjE exE)
    fix m cs
    assume "pt = At_unlock m cs" "pt1 = Returned m cs"
    with y r show ?thesis by simp
  qed (use y r stmts_decrease [OF y assms(1)] in blast)
qed

lemma run_to_end:
  assumes "inside pt" and "rest K f pt st = Done ((n, bs, f'), st')"
  shows "alone K (f, pt, st) (f', Returned n bs, st')"
  using assms
proof (induction "stmts_left pt st" arbitrary: f pt st rule: less_induct)
  case less
  have ni: "pt \<noteq> Idle" using less.prems(1) by auto
  from stmt_to_end [OF less.prems] show ?case
  proof (elim disjE conjE exE)
    assume "handler_stmt K f pt st = Done (f', Returned n bs, st')"
    with ni show ?thesis
      unfolding alone_def by (intro r_into_rtranclp) (simp add: stmt_of_def)
  next
    fix f1 pt1 st1
    assume y: "handler_stmt K f pt st = Done (f1, pt1, st1)" and n: "inside pt1" "rest K f1 pt1 st1 = Done ((n, bs, f'), st')"
      and dec: "stmts_left pt1 st1 < stmts_left pt st"
    have "stmt_of K (f, pt, st) (f1, pt1, st1)" using y ni by (simp add: stmt_of_def)
    then show ?thesis
      using less.hyps [OF dec n] unfolding alone_def by (rule converse_rtranclp_into_rtranclp)
  qed
qed

lemma handler_alone:
  assumes "handler K f c st = Done ((n, bs, f'), st')"
  shows "alone K (f, At_lock c, st) (f', Returned n bs, st')"
proof -
  have h: "rest K f (At_lock c) st = Done ((n, bs, f'), st')" using assms by simp
  then obtain f1 pt1 st1 where y: "handler_stmt K f (At_lock c) st = Done (f1, pt1, st1)"
    using rest_returns by (metis hpoint.distinct(1) prod_cases3)
  have r: "rest K f1 pt1 st1 = Done ((n, bs, f'), st')"
    using rest_lock [OF y] assms by simp
  have "stmt_of K (f, At_lock c, st) (f1, pt1, st1)" using y by (simp add: stmt_of_def)
  moreover have "alone K (f1, pt1, st1) (f', Returned n bs, st')"
  proof (cases "inside pt1")
    case True
    then show ?thesis using r by (rule run_to_end)
  next
    case False
    then have "pt1 = Returned (- ERESTARTSYS) []" using y by (auto simp: split_beta split: if_splits)
    with r show ?thesis by (simp add: alone_def)
  qed
  ultimately show ?thesis
    unfolding alone_def by (rule converse_rtranclp_into_rtranclp)
qed

lemma system_to_end:
  assumes "system st0 calls answers st ts" and "i < length ts" and "inside (point (ts ! i))"
    and "rest (kern (ts ! i)) (tfile (ts ! i)) (point (ts ! i)) st = Done ((n, bs, f'), st')"
  shows "system st0 calls (answers @ [(n, bs, f')]) st' (ts[i := (ts ! i)\<lparr>tfile := f', point := Returned n bs\<rparr>])"
  using assms
proof (induction "stmts_left (point (ts ! i)) st" arbitrary: st ts rule: less_induct)
  case less
  let ?t = "ts ! i"
  have ni: "point ?t \<noteq> Idle" and nw: "\<not> waits ?t st" and nt: "taken ?t pt' = []" for pt'
    using less.prems(3) by (auto simp: waits_def split: hpoint.split)
  from stmt_to_end [OF less.prems(3,4)] show ?case
  proof (elim disjE conjE exE)
    assume u: "point ?t = At_unlock n bs" and y: "handler_stmt (kern ?t) (tfile ?t) (point ?t) st = Done (f', Returned n bs, st')"
    then have "f' = tfile ?t" by simp
    with system.stmt [OF less.prems(1,2) nw ni y] nt u show ?thesis by simp
  next
    fix f1 pt1 st1
    assume y: "handler_stmt (kern ?t) (tfile ?t) (point ?t) st = Done (f1, pt1, st1)" and nu: "\<forall>m cs. point ?t \<noteq> At_unlock m cs"
      and n: "inside pt1" "rest (kern ?t) f1 pt1 st1 = Done ((n, bs, f'), st')"
      and dec: "stmts_left pt1 st1 < stmts_left (point ?t) st"
    have g: "given ?t = []" using nu by (auto split: hpoint.split)
    let ?ts = "ts[i := ?t\<lparr>tfile := f1, point := pt1\<rparr>]"
    have "system st0 calls answers st1 ?ts"
      using system.stmt [OF less.prems(1,2) nw ni y] nt g by simp
    then show ?thesis
      using less.hyps [of ?ts st1] less.prems(2) n dec by simp
  qed
qed

end
