(* ===== verification/Handler_Properties.thy ===== *)
theory Handler_Properties
  imports Handler_Steps Reference_Kernel
begin

text \<open>
  What the mutex of the character driver gives: the statements of concurrent handler calls, however
  they are interleaved, have the effect of whole calls one after the other.
\<close>

text \<open>C6: threads in the handlers of the driver with their statements interleaved in any way. While the
  mutex is free, no thread is between its lock and its unlock, and device, heap and answers are those
  of running the calls one after the other in the order in which they got the mutex. While it is taken,
  one thread is, and the calls before its own are already complete.\<close>

theorem handlers_serializable:
  assumes "system st0 calls answers st ts" and "\<not> lock (aesd_device st0)"
  shows "if lock (aesd_device st)
    then (\<exists>!i. i < length ts \<and> inside (point (ts ! i))) \<and>
      (\<exists>st1. serial st0 (butlast calls) = Done (answers, st1) \<and> \<not> lock (aesd_device st1))
    else (\<forall>i < length ts. \<not> inside (point (ts ! i))) \<and> serial st0 calls = Done (answers, st)"
proof -
  have o: "ordered st0 calls answers st ts" using system_ordered [OF assms] by blast
  show ?thesis
  proof (cases "lock (aesd_device st)")
    case True
    then obtain i where i: "i < length ts" "holds st0 calls answers st ts i" using o by (auto simp: ordered_def)
    then have "\<exists>!i. i < length ts \<and> inside (point (ts ! i))"
      using holds_inside holds_only by (intro ex1I [of _ i]) blast+
    moreover have "\<exists>st1. serial st0 (butlast calls) = Done (answers, st1) \<and> \<not> lock (aesd_device st1)"
      using i(2) unfolding holds_def by (metis butlast_snoc)
    ultimately show ?thesis using True by simp
  next
    case False
    with o show ?thesis by (simp add: ordered_def)
  qed
qed

text \<open>C7: on a device with a history, the statements of any threads leave, whenever the mutex is free, a
  device whose history continues with the bytes the writes accepted, in the order in which they got
  the mutex: it is well formed and holds the last ten of the commands these bytes form.\<close>

theorem statements_keep_log:
  assumes "system st0 calls answers st ts" and "history ws st0" and "\<not> lock (aesd_device st)"
  shows "history (ws @ written calls answers) st \<and> dev_inv st \<and>
    a_cmds (absdev st) = lastn 10 (fst (commands [] (ws @ written calls answers)))"
proof -
  have free: "\<not> lock (aesd_device st0)"
    using history_inv [OF assms(2)] by (simp add: dev_inv_def)
  have "ordered st0 calls answers st ts" "lawful_calls calls"
    using system_ordered [OF assms(1) free] by blast+
  then have "history (ws @ written calls answers) st"
    using serial_history [OF _ assms(2)] assms(3) by (simp add: ordered_def)
  then show ?thesis
    using history_inv history_log by blast
qed

text \<open>C8: a taken mutex is released: the thread that holds it has a next statement that returns and leaves
  it fewer statements to its unlock, whatever the other threads have done, unless its call is a write
  that gets no memory; that one stops with the mutex held.\<close>

theorem mutex_released:
  assumes "system st0 calls answers st ts" and "history ws st0" and "lock (aesd_device st)"
  shows "\<exists>i < length ts. inside (point (ts ! i)) \<and>
    (\<exists>st1. serial st0 (butlast calls) = Done (answers, st1) \<and>
      ((\<exists>K f c. last calls = (K, f, c) \<and> starved K c st1) \<or>
       (\<exists>f' pt' st'. handler_stmt (kern (ts ! i)) (tfile (ts ! i)) (point (ts ! i)) st = Done (f', pt', st') \<and>
          stmts_left pt' st' < stmts_left (point (ts ! i)) st)))"
proof -
  have free: "\<not> lock (aesd_device st0)"
    using history_inv [OF assms(2)] by (simp add: dev_inv_def)
  have o: "ordered st0 calls answers st ts" and law: "lawful_calls calls"
    using system_ordered [OF assms(1) free] by blast+
  then obtain i where "i < length ts" "holds st0 calls answers st ts i"
    using assms(3) by (auto simp: ordered_def)
  then show ?thesis
    using holds_inside [of st0 calls answers st ts i] holder_goes_on [OF _ law assms(2), of answers st ts i] by blast
qed

text \<open>a thread that runs alone through the statements of a handler gets exactly the result of the whole
  handler.\<close>

theorem statements_are_handler:
  "alone K (f, At_lock c, st) (f', Returned n bs, st') \<longleftrightarrow> handler K f c st = Done ((n, bs, f'), st')"
  using alone_handler handler_alone by blast

section \<open>An interleaving on the reference kernel\<close>

text \<open>A read and a seek on the empty device: the read has the mutex, and the seek waits for it.\<close>

definition two_idle :: "kthread list" where
  "two_idle = replicate 2 \<lparr>kern = ref_kernel, tfile = ref_file, point = Idle\<rparr>"

definition overlap :: "hpoint \<Rightarrow> kthread list" where
  "overlap pt = [\<lparr>kern = ref_kernel, tfile = ref_file, point = pt\<rparr>,
     \<lparr>kern = ref_kernel, tfile = ref_file, point = At_lock (Seek 0 0)\<rparr>]"

lemma ref_file_zero: "ref_file\<lparr>f_pos := 0\<rparr> = ref_file"
  by (simp add: ref_file_def)

lemma overlap_invoked: "system loaded [] [] loaded (overlap (At_lock (Read 10)))"
proof -
  have "system loaded [] [] loaded two_idle"
    by (rule system.start) (simp add: two_idle_def)
  from system.invoke [OF this, of 0 ref_kernel "Read 10"]
  have "system loaded [] [] loaded (two_idle[0 := \<lparr>kern = ref_kernel, tfile = ref_file, point = At_lock (Read 10)\<rparr>])"
    by (simp add: two_idle_def ref_kernel_ok)
  from system.invoke [OF this, of 1 ref_kernel "Seek 0 0"] show ?thesis
    by (simp add: two_idle_def overlap_def ref_kernel_ok numeral_2_eq_2)
qed

lemma overlap_locked:
  "system loaded [(ref_kernel, ref_file, Read 10)] [] (set_lock True loaded) (overlap (Read_find 10))"
proof -
  have "handler_stmt ref_kernel ref_file (At_lock (Read 10)) loaded = Done (ref_file, Read_find 10, set_lock True loaded)"
    by (simp add: ref_select ref_file_def loaded_simps)
  moreover have "\<not> lock (aesd_device loaded)" by (simp add: loaded_simps zero_dev_def)
  ultimately show ?thesis
    using system.stmt [OF overlap_invoked, of 0] by (simp add: overlap_def waits_def)
qed

lemma free_device: "handler ref_kernel ref_file (Read 10) loaded = Done ((0, [], ref_file), loaded)"
proof -
  have "aesd_read ref_kernel loaded ref_file 10 (f_pos ref_file) = Done (0, 0, [], loaded)"
    by (rule read_eof [OF loaded_inv(1) loaded_ready ref_laws(1)]) (simp add: loaded_inv content_def)
  then show ?thesis by (simp add: handler_def ref_file_zero)
qed

lemma overlap_done:
  "system loaded [(ref_kernel, ref_file, Read 10)] [(0, [], ref_file)] loaded (overlap (Returned 0 []))"
proof -
  have "handler_stmt ref_kernel ref_file (At_lock (Read 10)) loaded = Done (ref_file, Read_find 10, set_lock True loaded)"
    by (simp add: ref_select ref_file_def loaded_simps)
  from rest_lock [OF this] free_device
  have "rest ref_kernel ref_file (Read_find 10) (set_lock True loaded) = Done ((0, [], ref_file), loaded)"
    by (simp del: rest.simps)
  with system_to_end [OF overlap_locked, of 0] show ?thesis
    by (simp add: overlap_def del: rest.simps)
qed

theorem handlers_serializable_witness:
  "serial loaded [(ref_kernel, ref_file, Read 10)] = Done ([(0, [], ref_file)], loaded) \<and>
   (\<exists>!i. i < length (overlap (Read_find 10)) \<and> inside (point (overlap (Read_find 10) ! i)))"
proof -
  have free: "\<not> lock (aesd_device loaded)" by (simp add: loaded_simps zero_dev_def)
  have "lock (aesd_device (set_lock True loaded))" by (simp add: set_lock_def)
  with free handlers_serializable [OF overlap_done free] handlers_serializable [OF overlap_locked free]
  show ?thesis by presburger
qed

theorem statements_keep_log_witness:
  "history [[]] loaded"
  using statements_keep_log [OF overlap_done history_loaded] by (simp add: loaded_simps zero_dev_def)

theorem mutex_released_witness:
  "\<exists>f' pt' st'. handler_stmt ref_kernel ref_file (Read_find 10) (set_lock True loaded) = Done (f', pt', st') \<and>
     stmts_left pt' st' < 3"
proof -
  have "lock (aesd_device (set_lock True loaded))" by (simp add: set_lock_def)
  note r = mutex_released [OF overlap_locked history_loaded this]
  have two: "i < length (overlap pt) \<Longrightarrow> i = 0 \<or> i = 1" for i pt by (auto simp: overlap_def)
  have th: "kern (overlap pt ! 0) = ref_kernel" "tfile (overlap pt ! 0) = ref_file" "point (overlap pt ! 0) = pt"
    "point (overlap pt ! 1) = At_lock (Seek 0 0)" for pt by (simp_all add: overlap_def)
  from r obtain i where i: "i < length (overlap (Read_find 10))" "inside (point (overlap (Read_find 10) ! i))"
    and s: "\<exists>f' pt' st'. handler_stmt (kern (overlap (Read_find 10) ! i)) (tfile (overlap (Read_find 10) ! i))
         (point (overlap (Read_find 10) ! i)) (set_lock True loaded) = Done (f', pt', st') \<and>
       stmts_left pt' st' < stmts_left (point (overlap (Read_find 10) ! i)) (set_lock True loaded)"
    unfolding starved_def last.simps by (simp del: handler_stmt.simps) blast
  from two [OF i(1)] i(2) have "i = 0" using th(4) by auto
  with s show ?thesis by (simp add: th del: handler_stmt.simps)
qed

end
