(* ===== verification/C_Strings.thy ===== *)
theory C_Strings
  imports Aesd_Prelude
begin

text \<open>
  The pieces of the C library's string handling the server uses, on character blocks and on the
  text before the terminating NUL: \<open>strlen\<close>, \<open>strcat\<close>, \<open>strstr\<close>, \<open>strtok\<close> and \<open>atoi\<close>.
\<close>

definition NUL :: char where "NUL = CHR 0x00"

section \<open>Blocks\<close>

text \<open>A block is the list of its allocated bytes; the string in it ends before the first NUL. Without a NUL
  in the block \<open>strlen\<close> runs off its end.\<close>

definition c_text :: "string \<Rightarrow> string" where
  "c_text b = takeWhile (\<lambda>c. c \<noteq> NUL) b"

definition c_strlen :: "string \<Rightarrow> nat outcome" where
  "c_strlen b = (if NUL \<in> set b then Done (length (c_text b)) else Fault)"

definition c_strcat :: "string \<Rightarrow> string \<Rightarrow> string outcome" where
  "c_strcat b s =
     and_then (c_strlen b) (\<lambda>n.
       if n + length s < length b
       then Done (take n b @ s @ [NUL] @ drop (n + length s + 1) b) else Fault)"

lemma c_text_app: "NUL \<notin> set s \<Longrightarrow> c_text (s @ NUL # b) = s"
  by (simp add: c_text_def takeWhile_append)

lemma NUL_split: "NUL \<in> set b \<Longrightarrow> \<exists>r. b = c_text b @ NUL # r"
  unfolding c_text_def
  by (metis (mono_tags, lifting) dropWhile_eq_Nil_conv hd_dropWhile list.exhaust_sel takeWhile_dropWhile_id)

lemma NUL_c_text: "NUL \<notin> set (c_text b)"
  by (auto simp: c_text_def dest: set_takeWhileD)

lemma c_strcat_ok:
  assumes "NUL \<in> set b" and "NUL \<notin> set s" and "length (c_text b) + length s < length b"
  shows "\<exists>b'. c_strcat b s = Done b' \<and> c_text b' = c_text b @ s \<and> NUL \<in> set b' \<and> length b' = length b"
proof -
  let ?b' = "take (length (c_text b)) b @ s @ [NUL] @ drop (length (c_text b) + length s + 1) b"
  have t: "take (length (c_text b)) b = c_text b"
    using NUL_split [OF assms(1)] by (metis append_eq_conv_conj)
  have "c_text ?b' = c_text b @ s"
    using c_text_app [of "c_text b @ s"] assms(2) NUL_c_text [of b] by (simp add: t)
  moreover have "length ?b' = length b"
    using assms(3) by simp
  moreover have "c_strcat b s = Done ?b'"
    using assms by (simp add: c_strcat_def c_strlen_def)
  ultimately show ?thesis by auto
qed

section \<open>Searching and cutting\<close>

fun c_strstr :: "string \<Rightarrow> string \<Rightarrow> bool" where
  "c_strstr [] pat \<longleftrightarrow> pat = []"
| "c_strstr (c # cs) pat \<longleftrightarrow> take (length pat) (c # cs) = pat \<or> c_strstr cs pat"

lemma c_strstr_iff: "c_strstr s pat \<longleftrightarrow> (\<exists>u v. s = u @ pat @ v)"
proof (induction s)
  case (Cons c cs)
  have "take (length pat) (c # cs) = pat \<longleftrightarrow> (\<exists>v. c # cs = pat @ v)"
    by (metis append_eq_conv_conj append_take_drop_id)
  moreover have "(\<exists>u v. c # cs = u @ pat @ v) \<longleftrightarrow> (\<exists>v. c # cs = pat @ v) \<or> (\<exists>u v. cs = u @ pat @ v)"
    by (metis append_Cons append_Nil list.exhaust list.inject)
  ultimately show ?case using Cons by simp
qed simp

text \<open>One call of \<open>strtok\<close> on the text that is left: the token, and what the next call goes on with.
  \<open>None\<close> is the null pointer.\<close>

definition c_strtok :: "string \<Rightarrow> char \<Rightarrow> string option \<times> string" where
  "c_strtok s delim =
     (let s = dropWhile (\<lambda>c. c = delim) s
      in if s = [] then (None, [])
         else (Some (takeWhile (\<lambda>c. c \<noteq> delim) s), tl (dropWhile (\<lambda>c. c \<noteq> delim) s)))"

section \<open>Numbers\<close>

definition is_digit :: "char \<Rightarrow> bool" where
  "is_digit c \<longleftrightarrow> 48 \<le> (of_char c :: nat) \<and> (of_char c :: nat) \<le> 57"

definition is_space :: "char \<Rightarrow> bool" where
  "is_space c \<longleftrightarrow> c = CHR '' '' \<or> (9 \<le> (of_char c :: nat) \<and> (of_char c :: nat) \<le> 13)"

fun digits_value :: "nat \<Rightarrow> string \<Rightarrow> nat" where
  "digits_value acc [] = acc"
| "digits_value acc (c # cs) =
     (if is_digit c then digits_value (10 * acc + (of_char c - 48)) cs else acc)"

text \<open>\<open>atoi\<close> of a null pointer reads address 0; a value outside \<open>int\<close> is undefined behaviour. Both are
  \<open>Fault\<close>.\<close>

definition c_atoi :: "string option \<Rightarrow> int outcome" where
  "c_atoi t =
     (case t of
        None \<Rightarrow> Fault
      | Some s \<Rightarrow>
          (let s = dropWhile is_space s;
               (neg, s) = (case s of [] \<Rightarrow> (False, [])
                           | c # cs \<Rightarrow> if c = CHR ''-'' then (True, cs)
                                       else if c = CHR ''+'' then (False, cs) else (False, s));
               v = (if neg then - int (digits_value 0 s) else int (digits_value 0 s))
           in if - (2 ^ 31) \<le> v \<and> v < 2 ^ 31 then Done v else Fault))"

text \<open>Decimal notation, the form a client sends.\<close>

fun decimal :: "nat \<Rightarrow> string" where
  "decimal n = (if n < 10 then [] else decimal (n div 10)) @ [char_of (48 + n mod 10)]"

declare decimal.simps [simp del]

lemma digit_char: "d < 10 \<Longrightarrow> is_digit (char_of (48 + d)) \<and> (of_char (char_of (48 + d)) :: nat) = 48 + d"
  by (simp add: is_digit_def)

lemma digits_value_append:
  "\<forall>c \<in> set s. is_digit c \<Longrightarrow> digits_value acc (s @ t) = digits_value (digits_value acc s) t"
  by (induction s arbitrary: acc) auto

lemma decimal_digits: "\<forall>c \<in> set (decimal n). is_digit c"
proof (induction n rule: decimal.induct)
  case (1 n)
  then show ?case
    using digit_char [of "n mod 10"] by (subst decimal.simps) (auto split: if_splits)
qed

lemma decimal_value: "digits_value 0 (decimal n) = n"
proof (induction n rule: decimal.induct)
  case (1 n)
  show ?case
  proof (cases "n < 10")
    case True
    then show ?thesis
      using digit_char [of n] by (subst decimal.simps) simp
  next
    case False
    then show ?thesis
      using 1 digit_char [of "n mod 10"] decimal_digits [of "n div 10"]
      by (subst decimal.simps) (simp add: digits_value_append)
  qed
qed

lemma decimal_nonempty: "decimal n \<noteq> []"
  by (subst decimal.simps) simp

lemma digit_not_space: "is_digit c \<Longrightarrow> \<not> is_space c \<and> c \<noteq> CHR ''-'' \<and> c \<noteq> CHR ''+''"
  by (auto simp: is_digit_def is_space_def)

lemma atoi_decimal:
  assumes "n < 2 ^ 31" and "t = [] \<or> \<not> is_digit (hd t)"
  shows "c_atoi (Some (decimal n @ t)) = Done (int n)"
proof -
  obtain c cs where d: "decimal n = c # cs"
    using decimal_nonempty [of n] by (cases "decimal n") auto
  with decimal_digits [of n] have c: "\<not> is_space c" "c \<noteq> CHR ''-''" "c \<noteq> CHR ''+''"
    using digit_not_space by auto
  have "digits_value m t = m" for m
    using assms(2) by (cases t) auto
  then have "digits_value 0 (decimal n @ t) = n"
    using digits_value_append [OF decimal_digits] decimal_value by simp
  with c assms(1) show ?thesis
    by (simp add: c_atoi_def d)
qed

end
