(* ===== verification/Socket_Server.thy ===== *)
theory Socket_Server
  imports C_Strings "HOL-Library.Word"
begin

text \<open>
  The request handling of \<^verbatim>\<open>server/aesdsocket.c\<close>: collecting a line from the socket, handing it to the
  device or file behind a stdio stream, and sending the stream's content back. The system calls
  on the device are a parameter \<open>dev_ops\<close>; stdio above them is modelled as far as the server uses it.
\<close>

section \<open>Leaving the process\<close>

text \<open>A call either returns or ends the whole process with \<open>exit\<close>.\<close>

datatype 'a run = Ret 'a | Exit int

fun run_then :: "'a run outcome \<Rightarrow> ('a \<Rightarrow> 'b run outcome) \<Rightarrow> 'b run outcome" where
  "run_then (Done (Ret a)) f = f a"
| "run_then (Done (Exit c)) f = Done (Exit c)"
| "run_then Fault f = Fault"
| "run_then Hang f = Hang"

section \<open>Streams\<close>

text \<open>\<open>d_write\<close>, \<open>d_rewind\<close>, \<open>d_ioctl\<close> and \<open>d_read\<close> are \<open>write(2)\<close> of one buffer (with \<open>False\<close> for an
  error), \<open>lseek(fd, 0, SEEK_SET)\<close>, \<open>ioctl(fd, AESDCHAR_IOCSEEKTO, &seekto)\<close> and \<open>read(2)\<close> until it
  returns 0, on the state \<open>'d\<close> of device and open file; \<open>d_split\<close> says how stdio cuts a string into
  the buffers it writes.\<close>

record 'd dev_ops =
  d_open :: "'d \<Rightarrow> 'd option"
  d_write :: "'d \<Rightarrow> string \<Rightarrow> (bool \<times> 'd) outcome"
  d_rewind :: "'d \<Rightarrow> 'd outcome"
  d_ioctl :: "'d \<Rightarrow> u32 \<Rightarrow> u32 \<Rightarrow> (s64 \<times> 'd) outcome"
  d_read :: "'d \<Rightarrow> (string \<times> 'd) outcome"
  d_split :: "string \<Rightarrow> string list"

fun write_chunks :: "'d dev_ops \<Rightarrow> string list \<Rightarrow> 'd \<Rightarrow> (bool \<times> 'd) outcome" where
  "write_chunks ops [] d = Done (True, d)"
| "write_chunks ops (c # cs) d =
     and_then (d_write ops d c) (\<lambda>(ok, d). if ok then write_chunks ops cs d else Done (False, d))"

definition c_fputs :: "'d dev_ops \<Rightarrow> string \<Rightarrow> 'd \<Rightarrow> (bool \<times> 'd) outcome" where
  "c_fputs ops s d = write_chunks ops (d_split ops s) d"

text \<open>\<open>getline\<close> on what is left of the stream.\<close>

definition c_getline :: "string \<Rightarrow> (string \<times> string) option" where
  "c_getline s =
     (if s = [] then None
      else (let l = takeWhile (\<lambda>c. c \<noteq> newline) s; r = dropWhile (\<lambda>c. c \<noteq> newline) s
            in if r = [] then Some (l, []) else Some (l @ [newline], tl r)))"

lemma c_getline_split:
  assumes "c_getline s = Some (l, r)"
  shows "s = l @ r" "l \<noteq> []" "r \<noteq> [] \<Longrightarrow> last l = newline"
proof -
  have s: "s = takeWhile (\<lambda>c. c \<noteq> newline) s @ dropWhile (\<lambda>c. c \<noteq> newline) s" by simp
  have "s = l @ r \<and> l \<noteq> [] \<and> (r \<noteq> [] \<longrightarrow> last l = newline)"
  proof (cases "dropWhile (\<lambda>c. c \<noteq> newline) s")
    case Nil
    with s assms show ?thesis by (auto simp: c_getline_def split: if_splits)
  next
    case (Cons x xs)
    then have "x = newline" using hd_dropWhile [of "\<lambda>c. c \<noteq> newline" s] by simp
    with Cons s assms show ?thesis by (auto simp: c_getline_def split: if_splits)
  qed
  then show "s = l @ r" "l \<noteq> []" "r \<noteq> [] \<Longrightarrow> last l = newline" by blast+
qed

section \<open>The file operations of the server\<close>

definition parse_seekto :: "string \<Rightarrow> (u32 \<times> u32) outcome" where
  "parse_seekto writestr =
     (let (iocseekto, rest) = c_strtok writestr (CHR '':'');
          (t2, rest) = c_strtok rest (CHR '','')
      in and_then (c_atoi t2) (\<lambda>write_cmd.
           let (t3, rest) = c_strtok rest (CHR '','')
           in and_then (c_atoi t3) (\<lambda>write_cmd_offset.
                Done (word_of_int write_cmd, word_of_int write_cmd_offset))))"

definition appendToFile :: "'d dev_ops \<Rightarrow> 'd option \<Rightarrow> string \<Rightarrow> 'd run outcome" where
  "appendToFile ops fp writestr =
     (case fp of
        None \<Rightarrow> Done (Exit 1)
      | Some d \<Rightarrow>
          if c_strstr writestr ''AESDCHAR_IOCSEEKTO'' then
            and_then (parse_seekto writestr) (\<lambda>(write_cmd, write_cmd_offset).
              and_then (d_ioctl ops d write_cmd write_cmd_offset) (\<lambda>(result_ret, d). Done (Ret d)))
          else
            and_then (c_fputs ops writestr d) (\<lambda>(ok, d).
              and_then (d_rewind ops d) (\<lambda>d. if ok then Done (Ret d) else Done (Exit 1))))"

text \<open>The \<open>getline\<close> loop: the arguments of the \<open>send\<close> calls, whose results the code ignores.\<close>

function send_lines :: "string \<Rightarrow> string list" where
  "send_lines s = (case c_getline s of None \<Rightarrow> [] | Some (l, r) \<Rightarrow> l # send_lines r)"
  by pat_completeness auto
termination
proof (relation "measure length", simp)
  fix s x l r
  assume "c_getline s = Some x" and "(l, r) = x"
  then show "(r, s) \<in> measure length"
    using c_getline_split [of s l r] by (cases l) simp_all
qed

declare send_lines.simps [simp del]

definition serve_line :: "'d dev_ops \<Rightarrow> 'd \<Rightarrow> string \<Rightarrow> (string list \<times> 'd) run outcome" where
  "serve_line ops d data =
     run_then (appendToFile ops (d_open ops d) data) (\<lambda>d.
       and_then (d_read ops d) (\<lambda>(text, d). Done (Ret (send_lines text, d))))"

section \<open>Receiving\<close>

text \<open>What successive calls of \<open>recv\<close> answer; \<open>Recv []\<close> is the 0 of a closed connection. A sequence that
  ends stands for a call that never answers.\<close>

datatype recv_result = Recv_error | Recv string

text \<open>The bytes of one answer: each is appended to \<open>data\<close> as a string of its own; at a newline the line is
  served and the rest of the answer is not looked at.\<close>

fun scan_chunk :: "'d dev_ops \<Rightarrow> string \<Rightarrow> string \<Rightarrow> 'd \<Rightarrow> (string \<times> string list option \<times> 'd) run outcome" where
  "scan_chunk ops data [] d = Done (Ret (data, None, d))"
| "scan_chunk ops data (c # cs) d =
     and_then (c_strcat data (c_text [c, NUL])) (\<lambda>data.
       if c = newline then
         run_then (serve_line ops d (c_text data)) (\<lambda>(lines, d). Done (Ret (data, Some lines, d)))
       else scan_chunk ops data cs d)"

text \<open>\<open>data_len\<close> is a number and not a word, and an answer of \<^verbatim>\<open>recv\<close> may be longer than \<^verbatim>\<open>BUF_SIZE\<close>: both allow more runs
  than the program has, whose \<open>size_t\<close> would wrap after 2^64 bytes only.\<close>

fun receive_loop :: "(string \<Rightarrow> nat \<Rightarrow> string option) \<Rightarrow> 'd dev_ops \<Rightarrow> recv_result list \<Rightarrow>
    string \<Rightarrow> nat \<Rightarrow> 'd \<Rightarrow> (string list \<times> 'd) run outcome" where
  "receive_loop c_realloc ops [] data data_len d = Hang"
| "receive_loop c_realloc ops (Recv_error # rs) data data_len d = Done (Ret ([], d))"
| "receive_loop c_realloc ops (Recv buffer # rs) data data_len d =
     (let valread = length buffer
      in if valread = 0 then receive_loop c_realloc ops rs data data_len d
         else
           (let data_len = data_len + valread
            in case c_realloc data (data_len + valread + 1) of
                 None \<Rightarrow> Done (Exit 0)
               | Some data \<Rightarrow>
                   run_then (scan_chunk ops data buffer d) (\<lambda>(data, reply, d).
                     case reply of
                       Some lines \<Rightarrow> Done (Ret (lines, d))
                     | None \<Rightarrow> receive_loop c_realloc ops rs data data_len d)))"

definition receive_data :: "(nat \<Rightarrow> string option) \<Rightarrow> (string \<Rightarrow> nat \<Rightarrow> string option) \<Rightarrow> 'd dev_ops \<Rightarrow>
    recv_result list \<Rightarrow> 'd \<Rightarrow> (string list \<times> 'd) run outcome" where
  "receive_data c_malloc c_realloc ops recvs d =
     (case c_malloc 1 of
        None \<Rightarrow> Fault
      | Some data \<Rightarrow>
          (case c_malloc 1024 of
             None \<Rightarrow> Fault
           | Some buffer \<Rightarrow> receive_loop c_realloc ops recvs (replicate 1 NUL) 0 d))"

section \<open>Sending back\<close>

lemma send_lines_concat: "concat (send_lines s) = s"
proof (induction s rule: send_lines.induct)
  case (1 s)
  show ?case
  proof (cases "c_getline s")
    case None
    then have "s = []" by (auto simp: c_getline_def Let_def split: if_splits)
    with None show ?thesis by (subst send_lines.simps) simp
  next
    case (Some lr)
    then obtain l r where lr: "c_getline s = Some (l, r)" by (cases lr) simp
    with 1 [OF lr refl] c_getline_split(1) [OF lr] show ?thesis
      by (subst send_lines.simps) simp
  qed
qed

lemma send_lines_Some: "c_getline s = Some (l, r) \<Longrightarrow> send_lines s = l # send_lines r"
  by (subst send_lines.simps) simp

lemma send_lines_Nil [simp]: "send_lines [] = []"
  by (subst send_lines.simps) (simp add: c_getline_def)

lemma c_getline_None: "c_getline s = None \<longleftrightarrow> s = []"
  by (auto simp: c_getline_def Let_def)

text \<open>No empty line is sent, and every line but the last ends with the newline.\<close>

lemma send_lines_shape:
  "(\<forall>l \<in> set (send_lines s). l \<noteq> []) \<and> (\<forall>l \<in> set (butlast (send_lines s)). last l = newline)"
proof (induction s rule: send_lines.induct)
  case (1 s)
  show ?case
  proof (cases "c_getline s")
    case None
    then show ?thesis by (simp add: c_getline_None)
  next
    case (Some lr)
    then obtain l r where lr: "c_getline s = Some (l, r)" by (cases lr) simp
    have "send_lines r \<noteq> [] \<Longrightarrow> last l = newline"
      using c_getline_split(3) [OF lr] by (cases "r = []") auto
    with 1 [OF lr refl] c_getline_split(2) [OF lr] show ?thesis
      unfolding send_lines_Some [OF lr] by (cases "send_lines r = []") auto
  qed
qed

lemma run_then_assoc: "run_then (run_then x f) g = run_then x (\<lambda>a. run_then (f a) g)"
  by (cases "(x, f)" rule: run_then.cases) auto

lemma run_then_Ret: "run_then x (\<lambda>(a, b). Done (Ret (a, b))) = x"
proof (cases x)
  case (Done r)
  then show ?thesis by (cases r) auto
qed simp_all

section \<open>Collecting the line\<close>

definition nonul :: "string \<Rightarrow> string" where
  "nonul s = filter (\<lambda>c. c \<noteq> NUL) s"

definition upto_newline :: "string \<Rightarrow> string" where
  "upto_newline s = takeWhile (\<lambda>c. c \<noteq> newline) s @ [newline]"

lemma c_text_single: "c_text [c, NUL] = nonul [c]"
  by (simp add: c_text_def nonul_def)

lemma nonul_append: "nonul (xs @ ys) = nonul xs @ nonul ys"
  by (simp add: nonul_def)

lemma nonul_Cons: "nonul (c # cs) = nonul [c] @ nonul cs"
  using nonul_append [of "[c]" cs] by simp

lemma upto_newline_Cons: "upto_newline (c # cs) = (if c = newline then [newline] else c # upto_newline cs)"
  by (simp add: upto_newline_def)

lemma newline_not_NUL: "newline \<noteq> NUL"
  by (simp add: newline_def NUL_def)

lemma scan_step:
  assumes "NUL \<in> set data" and "length (c_text data) < length data - 1"
  shows "\<exists>data'. c_strcat data (c_text [c, NUL]) = Done data' \<and> c_text data' = c_text data @ nonul [c] \<and>
    NUL \<in> set data' \<and> length data' = length data \<and> length (c_text data') \<le> Suc (length (c_text data))"
proof -
  have "length (nonul [c]) \<le> 1" by (simp add: nonul_def)
  with assms(2) have "length (c_text data) + length (nonul [c]) < length data" by linarith
  from c_strcat_ok [OF assms(1) _ this] show ?thesis
    unfolding c_text_single by (auto simp: nonul_def)
qed

lemma scan_no_newline:
  "NUL \<in> set data \<Longrightarrow> length (c_text data) + length cs < length data \<Longrightarrow> newline \<notin> set cs \<Longrightarrow>
    \<exists>data'. scan_chunk ops data cs d = Done (Ret (data', None, d)) \<and> NUL \<in> set data' \<and>
      c_text data' = c_text data @ nonul cs"
proof (induction cs arbitrary: data)
  case Nil
  then show ?case by (simp add: nonul_def)
next
  case (Cons c cs)
  then have "length (c_text data) < length data - 1" by simp
  from scan_step [OF Cons.prems(1) this, of c] obtain data' where d':
    "c_strcat data (c_text [c, NUL]) = Done data'" "c_text data' = c_text data @ nonul [c]"
    "NUL \<in> set data'" "length data' = length data" "length (c_text data') \<le> Suc (length (c_text data))" by blast
  then have "length (c_text data') + length cs < length data'" using Cons.prems(2) by simp
  from Cons.IH [OF d'(3) this] Cons.prems(3) d'(1,2) nonul_Cons [of c cs] show ?case by auto
qed

lemma scan_newline:
  "NUL \<in> set data \<Longrightarrow> length (c_text data) + length cs < length data \<Longrightarrow> newline \<in> set cs \<Longrightarrow>
    \<exists>data'. scan_chunk ops data cs d =
      run_then (serve_line ops d (c_text data @ nonul (upto_newline cs)))
        (\<lambda>(lines, d). Done (Ret (data', Some lines, d)))"
proof (induction cs arbitrary: data)
  case (Cons c cs)
  then have "length (c_text data) < length data - 1" by simp
  from scan_step [OF Cons.prems(1) this, of c] obtain data' where d':
    "c_strcat data (c_text [c, NUL]) = Done data'" "c_text data' = c_text data @ nonul [c]"
    "NUL \<in> set data'" "length data' = length data" "length (c_text data') \<le> Suc (length (c_text data))" by blast
  then have len: "length (c_text data') + length cs < length data'" using Cons.prems(2) by simp
  show ?case
  proof (cases "c = newline")
    case True
    then show ?thesis
      using d'(1,2) by (auto simp: upto_newline_Cons)
  next
    case False
    with Cons.IH [OF d'(3) len] Cons.prems(3) d'(1,2) nonul_Cons [of c "upto_newline cs"] show ?thesis
      by (auto simp: upto_newline_Cons)
  qed
qed simp

text \<open>What a connection asks for, without the buffer: nothing yet, nothing at all, or a line.\<close>

datatype request = Waiting | Dropped | Line string

fun request_of :: "string \<Rightarrow> recv_result list \<Rightarrow> request" where
  "request_of acc [] = Waiting"
| "request_of acc (Recv_error # rs) = Dropped"
| "request_of acc (Recv b # rs) =
     (if newline \<in> set b then Line (acc @ nonul (upto_newline b)) else request_of (acc @ nonul b) rs)"

definition realloc_law :: "(string \<Rightarrow> nat \<Rightarrow> string option) \<Rightarrow> bool" where
  "realloc_law c_realloc \<longleftrightarrow>
     (\<forall>b n b'. c_realloc b n = Some b' \<longrightarrow> length b' = n \<and> take (min n (length b)) b' = take (min n (length b)) b)"

lemma realloc_text:
  assumes "realloc_law c_realloc" and "c_realloc b n = Some b'" and "NUL \<in> set b" and "length (c_text b) < n"
  shows "c_text b' = c_text b" "NUL \<in> set b'" "length b' = n"
proof -
  obtain r where b: "b = c_text b @ NUL # r" using NUL_split [OF assms(3)] by blast
  have law: "length b' = n" "take (min n (length b)) b' = take (min n (length b)) b"
    using assms(1,2) unfolding realloc_law_def by blast+
  have k: "Suc (length (c_text b)) \<le> min n (length b)"
    using assms(4) arg_cong [OF b, of length] by simp
  have "take (Suc (length (c_text b))) b' = take (Suc (length (c_text b))) b"
    using arg_cong [OF law(2), of "take (Suc (length (c_text b)))"] k by (simp add: min_absorb1)
  also have "\<dots> = c_text b @ [NUL]"
    using b by (metis Cons_eq_appendI append.assoc append_Nil append_eq_conv_conj length_append_singleton)
  finally have "b' = c_text b @ NUL # drop (Suc (length (c_text b))) b'"
    by (metis append.assoc append_Cons append_Nil append_take_drop_id)
  then show "c_text b' = c_text b" "NUL \<in> set b'" "length b' = n"
    using c_text_app [OF NUL_c_text] law(1) by (metis, metis in_set_conv_decomp, blast)
qed

lemma receive_loop_request:
  assumes law: "realloc_law c_realloc" and mem: "\<And>b n. c_realloc b n \<noteq> None"
  shows "NUL \<in> set data \<Longrightarrow> length (c_text data) \<le> len \<Longrightarrow>
    receive_loop c_realloc ops recvs data len d =
      (case request_of (c_text data) recvs of
         Waiting \<Rightarrow> Hang
       | Dropped \<Rightarrow> Done (Ret ([], d))
       | Line w \<Rightarrow> serve_line ops d w)"
proof (induction recvs arbitrary: data len)
  case Nil
  then show ?case by simp
next
  case (Cons r rs)
  show ?case
  proof (cases r)
    case Recv_error
    then show ?thesis by simp
  next
    case (Recv b)
    show ?thesis
    proof (cases "b = []")
      case True
      with Recv Cons show ?thesis by (simp add: nonul_def)
    next
      case False
      obtain data1 where data1: "c_realloc data (len + length b + length b + 1) = Some data1"
        using mem by blast
      have n: "length (c_text data) < len + length b + length b + 1" using Cons.prems(2) by simp
      note t = realloc_text [OF law data1 Cons.prems(1) n]
      have fits: "length (c_text data1) + length b < length data1"
        using t Cons.prems(2) by simp
      show ?thesis
      proof (cases "newline \<in> set b")
        case True
        from scan_newline [OF t(2) fits True, of ops d] obtain data2 where scan:
          "scan_chunk ops data1 b d = run_then (serve_line ops d (c_text data @ nonul (upto_newline b)))
            (\<lambda>(lines, d). Done (Ret (data2, Some lines, d)))"
          unfolding t(1) by blast
        have "run_then (run_then x (\<lambda>(lines, d). Done (Ret (data2, Some lines, d)))) (\<lambda>(data, reply, d).
            case reply of Some lines \<Rightarrow> Done (Ret (lines, d)) | None \<Rightarrow> receive_loop c_realloc ops rs data (len + length b) d) = x"
          for x :: "(string list \<times> 'a) run outcome"
          using run_then_Ret [of x] by (simp add: run_then_assoc split_def)
        with True False Recv data1 scan show ?thesis by simp
      next
        case nl: False
        from scan_no_newline [OF t(2) fits nl, of ops d] obtain data2 where scan:
          "scan_chunk ops data1 b d = Done (Ret (data2, None, d))" "NUL \<in> set data2"
          "c_text data2 = c_text data @ nonul b"
          unfolding t(1) by blast
        have "length (c_text data2) \<le> len + length b"
          unfolding scan(3) nonul_def length_append
          by (rule add_mono [OF Cons.prems(2) length_filter_le])
        from Cons.IH [OF scan(2) this] nl False Recv data1 scan show ?thesis by simp
      qed
    qed
  qed
qed

text \<open>\<open>malloc\<close> and \<open>realloc\<close> that succeed.\<close>

definition memory_ok :: "(nat \<Rightarrow> string option) \<Rightarrow> (string \<Rightarrow> nat \<Rightarrow> string option) \<Rightarrow> bool" where
  "memory_ok c_malloc c_realloc \<longleftrightarrow> realloc_law c_realloc \<and> (\<forall>b n. c_realloc b n \<noteq> None) \<and>
     (\<forall>n. c_malloc n \<noteq> None)"

lemma receive_data_request:
  assumes "memory_ok c_malloc c_realloc"
  shows "receive_data c_malloc c_realloc ops recvs d =
    (case request_of [] recvs of
       Waiting \<Rightarrow> Hang
     | Dropped \<Rightarrow> Done (Ret ([], d))
     | Line w \<Rightarrow> serve_line ops d w)"
proof -
  have mem: "realloc_law c_realloc" "\<And>b n. c_realloc b n \<noteq> None" "\<And>n. c_malloc n \<noteq> None"
    using assms unfolding memory_ok_def by blast+
  obtain b1 b2 where "c_malloc 1 = Some b1" "c_malloc 1024 = Some b2"
    using mem(3) by (metis option.exhaust)
  moreover have "c_text (replicate 1 NUL) = []" by (simp add: c_text_def)
  ultimately show ?thesis
    using receive_loop_request [OF mem(1,2), of "replicate 1 NUL" 0 ops recvs d]
    by (simp add: receive_data_def)
qed

section \<open>The interface of the device\<close>

text \<open>\<open>rooms d cs\<close>: the device has room for each buffer when it is written.\<close>

fun rooms :: "'d dev_ops \<Rightarrow> ('d \<Rightarrow> nat \<Rightarrow> bool) \<Rightarrow> 'd \<Rightarrow> string list \<Rightarrow> bool" where
  "rooms ops room d [] = True"
| "rooms ops room d (c # cs) \<longleftrightarrow> room d (length c) \<and>
     (\<forall>ok d'. d_write ops d c = Done (ok, d') \<longrightarrow> rooms ops room d' cs)"

text \<open>What the server relies on: a file that is the log \<open>view\<close> of what was appended, of which \<open>cont\<close> can be
  read from the position \<open>pos\<close>; \<open>target\<close> is the position a seek command leads to, if it names one.\<close>

locale line_device =
  fixes ops :: "'d dev_ops"
    and good :: "'d \<Rightarrow> bool"
    and view :: "'d \<Rightarrow> 'v"
    and app :: "'v \<Rightarrow> string \<Rightarrow> 'v"
    and cont :: "'v \<Rightarrow> string"
    and pos :: "'d \<Rightarrow> nat"
    and room :: "'d \<Rightarrow> nat \<Rightarrow> bool"
    and target :: "'d \<Rightarrow> u32 \<Rightarrow> u32 \<Rightarrow> nat option"
  assumes open_ok: "good d \<Longrightarrow> \<exists>d'. d_open ops d = Some d' \<and> good d' \<and> view d' = view d \<and> pos d' = 0 \<and>
      room d' = room d \<and> target d' = target d"
    and write_ok: "good d \<Longrightarrow> room d (length s) \<Longrightarrow>
      \<exists>d'. d_write ops d s = Done (True, d') \<and> good d' \<and> view d' = app (view d) s"
    and rewind_ok: "good d \<Longrightarrow> \<exists>d'. d_rewind ops d = Done d' \<and> good d' \<and> view d' = view d \<and> pos d' = 0"
    and ioctl_ok: "good d \<Longrightarrow> \<exists>r d'. d_ioctl ops d c off = Done (r, d') \<and> good d' \<and> view d' = view d \<and>
      pos d' = (case target d c off of None \<Rightarrow> pos d | Some p \<Rightarrow> p)"
    and read_ok: "good d \<Longrightarrow> \<exists>d'. d_read ops d = Done (drop (pos d) (cont (view d)), d') \<and> good d' \<and> view d' = view d"
    and app_part: "good d \<Longrightarrow> newline \<notin> set s \<Longrightarrow> app (app (view d) s) t = app (view d) (s @ t)"
begin

lemma write_chunks_ok:
  assumes "good d" and "rooms ops room d cs" and "cs \<noteq> []" and "[] \<notin> set cs" and "newline \<notin> set (butlast (concat cs))"
  shows "\<exists>d'. write_chunks ops cs d = Done (True, d') \<and> good d' \<and> view d' = app (view d) (concat cs)"
  using assms
proof (induction cs arbitrary: d)
  case (Cons c cs)
  obtain d1 where d1: "d_write ops d c = Done (True, d1)" "good d1" "view d1 = app (view d) c"
    using write_ok [OF Cons.prems(1), of c] Cons.prems(2) by auto
  show ?case
  proof (cases "cs = []")
    case True
    with d1 show ?thesis by simp
  next
    case False
    with Cons.prems(4) have rest: "concat cs \<noteq> []" by (cases cs) auto
    then have "butlast (concat (c # cs)) = c @ butlast (concat cs)"
      unfolding concat.simps butlast_append by (simp only: if_False)
    with Cons.prems(5) have "newline \<notin> set c" and "newline \<notin> set (butlast (concat cs))"
      by simp_all
    with Cons.IH [OF d1(2) _ False] Cons.prems(2,4) d1 show ?thesis
      by (auto simp: app_part [OF Cons.prems(1)])
  qed
qed simp

lemma serve_line_appends:
  assumes "good d" and "\<not> c_strstr w ''AESDCHAR_IOCSEEKTO''"
    and "concat (d_split ops w) = w" "d_split ops w \<noteq> []" "[] \<notin> set (d_split ops w)"
    and "newline \<notin> set (butlast w)"
    and "\<And>d'. d_open ops d = Some d' \<Longrightarrow> rooms ops room d' (d_split ops w)"
  shows "\<exists>d'. serve_line ops d w = Done (Ret (send_lines (cont (app (view d) w)), d')) \<and> good d' \<and>
    view d' = app (view d) w"
proof -
  obtain d1 where d1: "d_open ops d = Some d1" "good d1" "view d1 = view d"
    using open_ok [OF assms(1)] by blast
  obtain d2 where d2: "write_chunks ops (d_split ops w) d1 = Done (True, d2)" "good d2" "view d2 = app (view d) w"
    using write_chunks_ok [OF d1(2) assms(7) [OF d1(1)] assms(4,5)] assms(3,6) d1(3) by auto
  obtain d3 where d3: "d_rewind ops d2 = Done d3" "good d3" "view d3 = view d2" "pos d3 = 0"
    using rewind_ok [OF d2(2)] by blast
  obtain d4 where d4: "d_read ops d3 = Done (drop (pos d3) (cont (view d3)), d4)" "good d4" "view d4 = view d3"
    using read_ok [OF d3(2)] by blast
  have "serve_line ops d w = Done (Ret (send_lines (cont (app (view d) w)), d4))"
    using assms(2) d1(1) d2(1,3) d3(1,3,4) d4(1)
    by (simp add: serve_line_def appendToFile_def c_fputs_def)
  with d2(3) d3(3) d4(2,3) show ?thesis by auto
qed

lemma serve_line_seeks:
  assumes "good d" and "c_strstr w ''AESDCHAR_IOCSEEKTO''" and "parse_seekto w = Done (c, off)"
  shows "\<exists>d'. serve_line ops d w =
      Done (Ret (send_lines (drop (case target d c off of None \<Rightarrow> 0 | Some p \<Rightarrow> p) (cont (view d))), d')) \<and>
    good d' \<and> view d' = view d"
proof -
  obtain d1 where d1: "d_open ops d = Some d1" "good d1" "view d1 = view d" "pos d1 = 0" "target d1 = target d"
    using open_ok [OF assms(1)] by blast
  obtain r d2 where d2: "d_ioctl ops d1 c off = Done (r, d2)" "good d2" "view d2 = view d1"
    "pos d2 = (case target d1 c off of None \<Rightarrow> pos d1 | Some p \<Rightarrow> p)"
    using ioctl_ok [OF d1(2)] by blast
  obtain d3 where d3: "d_read ops d2 = Done (drop (pos d2) (cont (view d2)), d3)" "good d3" "view d3 = view d2"
    using read_ok [OF d2(2)] by blast
  have "serve_line ops d w =
      Done (Ret (send_lines (drop (case target d c off of None \<Rightarrow> 0 | Some p \<Rightarrow> p) (cont (view d))), d3))"
    using assms(2,3) d1 d2 d3(1) by (cases "target d c off") (simp_all add: serve_line_def appendToFile_def)
  with d1(3) d2(3) d3(2,3) show ?thesis by auto
qed

end

section \<open>The text of a seek command\<close>

definition seek_text :: "nat \<Rightarrow> nat \<Rightarrow> string" where
  "seek_text c off = ''AESDCHAR_IOCSEEKTO:'' @ decimal c @ '','' @ decimal off @ [newline]"

lemma seek_text_marked: "c_strstr (seek_text c off) ''AESDCHAR_IOCSEEKTO''"
  unfolding c_strstr_iff seek_text_def
  by (rule exI [of _ "[]"], rule exI [of _ "'':'' @ decimal c @ '','' @ decimal off @ [newline]"]) simp

lemma strtok_token:
  assumes "t \<noteq> []" and "delim \<notin> set t"
  shows "c_strtok (t @ delim # rest) delim = (Some t, rest)" "c_strtok t delim = (Some t, [])"
proof -
  have hd: "hd t \<noteq> delim" using assms by (cases t) auto
  have skip: "dropWhile (\<lambda>c. c = delim) (t @ u) = t @ u" for u
    using assms(1) hd by (cases t) auto
  have all: "\<forall>c \<in> set t. c \<noteq> delim" using assms(2) by auto
  then have "takeWhile (\<lambda>c. c \<noteq> delim) (t @ delim # rest) = t" "dropWhile (\<lambda>c. c \<noteq> delim) (t @ delim # rest) = delim # rest"
    by (auto simp: takeWhile_append dropWhile_append)
  with skip [of "delim # rest"] assms(1) show "c_strtok (t @ delim # rest) delim = (Some t, rest)"
    by (simp add: c_strtok_def)
  have "takeWhile (\<lambda>c. c \<noteq> delim) t = t" using all by auto
  moreover have "dropWhile (\<lambda>c. c \<noteq> delim) t = []"
    using all by (simp only: dropWhile_eq_Nil_conv)
  then have "tl (dropWhile (\<lambda>c. c \<noteq> delim) t) = []" by (simp only: list.sel)
  ultimately show "c_strtok t delim = (Some t, [])"
    using skip [of "[]"] assms(1) by (simp add: c_strtok_def)
qed

lemma not_digit: "\<not> is_digit (CHR '','')" "\<not> is_digit newline" "\<not> is_digit (CHR '':'')"
  by (simp_all add: is_digit_def newline_def)

lemma parse_seek_text:
  assumes "c < 2 ^ 31" and "off < 2 ^ 31"
  shows "parse_seekto (seek_text c off) = Done (of_nat c, of_nat off)"
proof -
  let ?rest = "decimal c @ CHR '','' # decimal off @ [newline]"
  have "c_strtok (''AESDCHAR_IOCSEEKTO'' @ CHR '':'' # ?rest) (CHR '':'') = (Some ''AESDCHAR_IOCSEEKTO'', ?rest)"
    by (rule strtok_token(1)) simp_all
  then have t1: "c_strtok (seek_text c off) (CHR '':'') = (Some ''AESDCHAR_IOCSEEKTO'', ?rest)"
    by (simp add: seek_text_def)
  have "CHR '','' \<notin> set (decimal c)" and "CHR '','' \<notin> set (decimal off @ [newline])"
    using decimal_digits not_digit(1) by (auto simp: newline_def)
  then have t2: "c_strtok ?rest (CHR '','') = (Some (decimal c), decimal off @ [newline])"
    and t3: "c_strtok (decimal off @ [newline]) (CHR '','') = (Some (decimal off @ [newline]), [])"
    using strtok_token(1) [OF decimal_nonempty] strtok_token(2) by simp_all
  have "c_atoi (Some (decimal c)) = Done (int c)" "c_atoi (Some (decimal off @ [newline])) = Done (int off)"
    using atoi_decimal [OF assms(1), of "[]"] atoi_decimal [OF assms(2), of "[newline]"] not_digit(2) by simp_all
  then show ?thesis
    by (simp add: parse_seekto_def t1 t2 t3)
qed

text \<open>A marked line without a second field makes \<open>atoi\<close> read a null pointer.\<close>

lemma parse_no_field: "parse_seekto (''AESDCHAR_IOCSEEKTO'' @ [newline]) = Fault"
  by (simp add: parse_seekto_def c_strtok_def c_atoi_def newline_def)

section \<open>Sending a buffer\<close>

text \<open>The answers of successive \<open>send\<close> calls are a list; a list that ends is a call that does not
  return. The result is what \<open>send_all\<close> returns and the bytes the answers accepted.\<close>

fun send_all :: "int list \<Rightarrow> string \<Rightarrow> (bool \<times> string) outcome" where
  "send_all answers buffer =
     (if length buffer > 0 then
        (let bytes_to_send = (if length buffer < 1024 then length buffer else 1024)
         in case answers of
              [] \<Rightarrow> Hang
            | i # answers \<Rightarrow>
                if i < 1 then Done (False, [])
                else and_then (send_all answers (drop (nat i) buffer)) (\<lambda>(ok, sent).
                       Done (ok, take (nat i) buffer @ sent)))
      else Done (True, []))"

declare send_all.simps [simp del]

lemma send_all_prefix:
  "send_all answers buffer = Done (ok, sent) \<Longrightarrow> \<exists>rest. buffer = sent @ rest \<and> (ok \<longrightarrow> rest = [])"
proof (induction answers arbitrary: buffer ok sent)
  case Nil
  then show ?case by (subst (asm) send_all.simps) (auto split: if_splits)
next
  case (Cons i answers)
  show ?case
  proof (cases "buffer = [] \<or> i < 1")
    case True
    with Cons.prems show ?thesis by (subst (asm) send_all.simps) (auto split: if_splits)
  next
    case False
    with Cons.prems obtain s where s: "send_all answers (drop (nat i) buffer) = Done (ok, s)"
      "sent = take (nat i) buffer @ s"
      by (subst (asm) send_all.simps) auto
    from Cons.IH [OF s(1)] s(2) show ?thesis
      by (metis append.assoc append_take_drop_id)
  qed
qed

lemma send_all_complete:
  assumes "\<forall>i \<in> set answers. 1 \<le> i" and "length buffer \<le> length answers"
  shows "send_all answers buffer = Done (True, buffer)"
  using assms
proof (induction answers arbitrary: buffer)
  case Nil
  then show ?case by (subst send_all.simps) simp
next
  case (Cons i answers)
  show ?case
  proof (cases "buffer = []")
    case True
    then show ?thesis by (subst send_all.simps) simp
  next
    case False
    have "1 \<le> nat i" using Cons.prems(1) by (simp add: le_nat_iff)
    then have "length (drop (nat i) buffer) \<le> length answers"
      using Cons.prems(2) False by (cases buffer) auto
    with Cons.IH [of "drop (nat i) buffer"] Cons.prems(1) False show ?thesis
      by (subst send_all.simps) simp
  qed
qed

text \<open>The send loop of \<open>openFile\<close> tests \<open>len\<close>, the size of the line buffer, which nothing in the loop
  changes. The answers are a function of the call's number; \<open>ptr\<close> and \<open>read\<close> as in the code.\<close>

partial_function (option) openFile_send :: "(nat \<Rightarrow> int) \<Rightarrow> nat \<Rightarrow> u64 \<Rightarrow> int \<Rightarrow> int \<Rightarrow> nat option" where
  "openFile_send answers n len ptr rd =
     (if len > 0 then openFile_send answers (Suc n) len (ptr + answers n) (rd - answers n) else Some n)"

lemma openFile_send_never:
  assumes "openFile_send answers n len ptr rd = Some r"
  shows "len = 0"
proof (rule openFile_send.raw_induct [OF _ assms])
  fix loop :: "(nat \<Rightarrow> int) \<Rightarrow> nat \<Rightarrow> u64 \<Rightarrow> int \<Rightarrow> int \<Rightarrow> nat option" and answers n len ptr rd r
  assume IH: "\<And>answers n len ptr rd r. loop answers n len ptr rd = Some r \<Longrightarrow> len = 0"
    and step: "(if len > 0 then loop answers (Suc n) len (ptr + answers n) (rd - answers n) else Some n) = Some r"
  show "len = 0"
  proof (cases "len > 0")
    case True
    with step show ?thesis by (intro IH) simp
  next
    case False
    then show ?thesis by (simp add: word_gt_0)
  qed
qed

text \<open>\<open>openFile\<close> on a file of the given text; \<open>getline_len\<close> is the size of the buffer \<open>getline\<close> leaves in
  \<open>len\<close> for a line.\<close>

fun openFile_lines :: "(nat \<Rightarrow> int) \<Rightarrow> (string \<Rightarrow> u64) \<Rightarrow> nat \<Rightarrow> string list \<Rightarrow> unit run outcome" where
  "openFile_lines answers getline_len n [] = Done (Ret ())"
| "openFile_lines answers getline_len n (line # lines) =
     (case openFile_send answers n (getline_len line) 0 (int (length line)) of
        None \<Rightarrow> Hang
      | Some n \<Rightarrow> openFile_lines answers getline_len n lines)"

definition openFile :: "(nat \<Rightarrow> int) \<Rightarrow> (string \<Rightarrow> u64) \<Rightarrow> string option \<Rightarrow> unit run outcome" where
  "openFile answers getline_len fp =
     (case fp of
        None \<Rightarrow> Done (Exit 1)
      | Some text \<Rightarrow> openFile_lines answers getline_len 0 (send_lines text))"

lemma openFile_hangs:
  assumes "text \<noteq> []" and "\<And>line. line \<noteq> [] \<Longrightarrow> getline_len line \<noteq> 0"
  shows "openFile answers getline_len (Some text) = Hang"
proof -
  obtain l r where lr: "c_getline text = Some (l, r)"
    using assms(1) c_getline_None by (cases "c_getline text") auto
  have "getline_len l \<noteq> 0"
    using assms(2) c_getline_split(2) [OF lr] by blast
  then have "openFile_send answers 0 (getline_len l) 0 (int (length l)) = None"
    using openFile_send_never by (metis option.exhaust)
  then show ?thesis
    by (simp add: openFile_def send_lines_Some [OF lr])
qed

section \<open>The timer thread\<close>

text \<open>One time stamp: the stream is opened and written but never closed; \<open>streams\<close> counts the streams left
  open.\<close>

definition append_timestamp :: "'d dev_ops \<Rightarrow> string \<Rightarrow> nat \<times> 'd \<Rightarrow> (nat \<times> 'd) run outcome" where
  "append_timestamp ops stamp = (\<lambda>(streams, d).
     let fp = d_open ops d;
         streams = (if fp = None then streams else streams + 1)
     in run_then (appendToFile ops fp stamp) (\<lambda>d. Done (Ret (streams, d))))"

text \<open>The thread function's loop: nothing ever sets \<open>TIMER_DONE\<close>. The stamps are those of the rounds
  observed; after the last of them the thread sleeps.\<close>

fun threadproc :: "'d dev_ops \<Rightarrow> bool \<Rightarrow> string list \<Rightarrow> nat \<times> 'd \<Rightarrow> (nat \<times> 'd) run outcome" where
  "threadproc ops TIMER_DONE [] s = Done (Ret s)"
| "threadproc ops TIMER_DONE (t # ts) s =
     (if \<not> TIMER_DONE then run_then (append_timestamp ops t s) (threadproc ops TIMER_DONE ts)
      else Done (Ret s))"

end
