(* ===== verification/Device_Server.thy ===== *)
theory Device_Server
  imports Driver_System Socket_Server
begin

text \<open>
  The two files the server can be built for, as instances of its device interface: the character
  driver, whose system calls are the handlers of \<open>Char_Driver\<close>, and the plain data file.
\<close>

section \<open>The character device\<close>

text \<open>The state is the kernel the calls run in, the driver's state and the open file.\<close>

type_synonym kdev = "kernel \<times> kstate \<times> kfile"

definition driver_ops :: "u64 \<Rightarrow> (string \<Rightarrow> string list) \<Rightarrow> kdev dev_ops" where
  "driver_ops cdev_offset split =
     \<lparr>d_open = (\<lambda>(K, st, f). Some (K, st,
        snd (aesd_open cdev_offset \<lparr>i_cdev = dev_addr st + cdev_offset\<rparr> \<lparr>private_data = 0, f_pos = 0\<rparr>))),
      d_write = (\<lambda>(K, st, f) s. and_then (aesd_write K st f s (of_nat (length s)) (f_pos f))
        (\<lambda>(n, pos, st). Done (sint n = int (length s), (K, st, f\<lparr>f_pos := pos\<rparr>)))),
      d_rewind = (\<lambda>(K, st, f). and_then (aesd_llseek K st f 0 0) (\<lambda>(pos, f, st). Done (K, st, f))),
      d_ioctl = (\<lambda>(K, st, f) c off. and_then
        (aesd_ioctl K st f (AESDCHAR_IOCSEEKTO K) \<lparr>write_cmd = c, write_cmd_offset = off\<rparr>)
        (\<lambda>(ret, f, st). Done (ret, (K, st, f)))),
      d_read = (\<lambda>(K, st, f). and_then
        (read_until_eof (Suc (length (content (absdev st)))) K st f 4096 (f_pos f))
        (\<lambda>(text, pos, st). Done (text, (K, st, f\<lparr>f_pos := pos\<rparr>)))),
      d_split = split\<rparr>"

definition steady :: "kernel \<Rightarrow> bool" where
  "steady K \<longleftrightarrow> kernel_ok K \<and> copies_all K \<and> (\<forall>src n. fst (copy_from_user K src n) = 0) \<and>
     (\<forall>src. fst (copy_seekto_from_user K src) = 0) \<and> (\<forall>held. fst (mutex_lock_interruptible K held) = 0)"

definition dev_good :: "kdev \<Rightarrow> bool" where
  "dev_good = (\<lambda>(K, st, f). steady K \<and> dev_inv st \<and> private_data f = dev_addr st)"

definition dev_view :: "kdev \<Rightarrow> adev" where
  "dev_view = (\<lambda>(K, st, f). absdev st)"

definition dev_pos :: "kdev \<Rightarrow> nat" where
  "dev_pos = (\<lambda>(K, st, f). unat (f_pos f))"

definition dev_room :: "kdev \<Rightarrow> nat \<Rightarrow> bool" where
  "dev_room = (\<lambda>(K, st, f) n. n < 2 ^ 31 \<and>
     fst (krealloc K (heap st) (pend_ptr st) (esize (dev_entry (aesd_device st)) + of_nat n)) \<noteq> 0)"

definition dev_target :: "kdev \<Rightarrow> u32 \<Rightarrow> u32 \<Rightarrow> nat option" where
  "dev_target = (\<lambda>(K, st, f) c off.
     if seekable (buffer (aesd_device st)) c off then Some (seek_pos (buffer (aesd_device st)) c off) else None)"

lemma good_ready:
  assumes "dev_good (K, st, f)"
  shows "dev_inv st" "ready K st f" "kernel_ok K" "lock_law K" "copies_all K" "private_data f = dev_addr st"
  using assms by (simp_all add: dev_good_def steady_def ready_def kernel_ok_def)

lemma good_file:
  "dev_good (K, st, f) \<Longrightarrow> dev_inv st' \<Longrightarrow> private_data f' = dev_addr st' \<Longrightarrow> dev_good (K, st', f')"
  by (simp add: dev_good_def)

lemma driver_write:
  assumes good: "dev_good (K, st, f)" and room: "dev_room (K, st, f) (length s)"
  shows "\<exists>d'. d_write (driver_ops off split) (K, st, f) s = Done (True, d') \<and> dev_good d' \<and>
    dev_view d' = dev_append (absdev st) s"
proof -
  let ?n = "of_nat (length s) :: u64"
  have small: "length s < 2 ^ 31" and n: "length s = unat ?n" "unat ?n < 2 ^ 31"
    using room by (simp_all add: dev_room_def unat_of_nat)
  have laws: "lock_law K" "krealloc_law K" "copy_from_user_law K"
    using good_ready(3) [OF good] by (simp_all add: kernel_ok_def)
  have full: "?n - fst (copy_from_user K s ?n) = ?n"
    using good by (simp add: dev_good_def steady_def)
  obtain q h1 where grow: "krealloc K (heap st) (pend_ptr st) (esize (dev_entry (aesd_device st)) + ?n) = (q, h1)"
    by fastforce
  then have q: "q \<noteq> 0" using room by (simp add: dev_room_def)
  obtain st' where st': "aesd_write K st f s ?n (f_pos f) = Done (?n, f_pos f, st')" "dev_inv st'"
    "absdev st' = dev_append (absdev st) (take (unat ?n) s)" "dev_addr st' = dev_addr st"
    using write_refines [OF good_ready(1,2) [OF good] laws n grow q, of "f_pos f", unfolded full] by metis
  have "sint ?n = int (length s)"
    using sint_small [OF n(2)] n(1) by simp
  then have "d_write (driver_ops off split) (K, st, f) s = Done (True, (K, st', f))"
    using st'(1) by (simp add: driver_ops_def)
  moreover have "dev_good (K, st', f)"
    using good_file [OF good st'(2)] good_ready(6) [OF good] st'(4) by simp
  moreover have "dev_view (K, st', f) = dev_append (absdev st) s"
    using st'(3) n(1) by (simp add: dev_view_def)
  ultimately show ?thesis by blast
qed

lemma driver_rewind:
  assumes good: "dev_good (K, st, f)"
  shows "d_rewind (driver_ops off split) (K, st, f) = Done (K, st, f\<lparr>f_pos := 0\<rparr>)"
proof -
  have laws: "lock_law K" "llseek_law K"
    using good_ready(3) [OF good] by (simp_all add: kernel_ok_def)
  obtain pos where "sint pos = 0" "aesd_llseek K st f 0 0 = Done (pos, f\<lparr>f_pos := pos\<rparr>, st)"
    using llseek_result [OF good_ready(1,2) [OF good] laws, of 0 0 0 0] by auto
  moreover from this(1) have "pos = 0" by (metis signed_0 signed_word_eqI)
  ultimately show ?thesis by (simp add: driver_ops_def)
qed

lemma seek_pos_bound:
  assumes "dev_wf st" and "seekable (buffer (aesd_device st)) c off"
  shows "seek_pos (buffer (aesd_device st)) c off < 2 ^ 64"
proof -
  let ?es = "take (unat c) (entry (buffer (aesd_device st)))"
  have "unat (esize e) \<le> 2 ^ 31" if "e \<in> set ?es" for e
    using slot_size_bound [OF assms(1), of e] that by (auto dest: in_set_takeD)
  then have "sum_list (map (\<lambda>e. unat (esize e)) ?es) \<le> length ?es * 2 ^ 31"
    using sum_list_le [of "map (\<lambda>e. unat (esize e)) ?es" "2 ^ 31"] by simp
  moreover have "length ?es \<le> 10"
    using assms(2) by (simp add: seekable_def min.coboundedI2)
  moreover have "unat off < 2 ^ 32"
    using unsigned_less [of off] by simp
  ultimately show ?thesis by (simp add: seek_pos_def)
qed

lemma driver_ioctl:
  assumes good: "dev_good (K, st, f)"
  shows "\<exists>r f'. d_ioctl (driver_ops o1 split) (K, st, f) c off = Done (r, (K, st, f')) \<and>
    dev_good (K, st, f') \<and>
    unat (f_pos f') = (case dev_target (K, st, f) c off of None \<Rightarrow> unat (f_pos f) | Some p \<Rightarrow> p)"
proof -
  let ?arg = "\<lparr>write_cmd = c, write_cmd_offset = off\<rparr>" and ?b = "buffer (aesd_device st)"
  have wf: "dev_wf st" using good_ready(1) [OF good] by (simp add: dev_inv_def)
  have zero: "fst (copy_seekto_from_user K ?arg) = 0" and law: "copy_seekto_law K"
    using good by (simp_all add: dev_good_def steady_def kernel_ok_def)
  then have arg: "snd (copy_seekto_from_user K ?arg) = ?arg"
    unfolding copy_seekto_law_def by (metis prod.collapse)
  note res = ioctl_result [OF good_ready(1,2,4) [OF good], of "AESDCHAR_IOCSEEKTO K" ?arg]
  show ?thesis
  proof (cases "seekable ?b c off")
    case True
    then have "d_ioctl (driver_ops o1 split) (K, st, f) c off
        = Done (0, (K, st, f\<lparr>f_pos := of_nat (seek_pos ?b c off)\<rparr>))"
      by (simp add: driver_ops_def res zero arg Let_def)
    moreover have "dev_good (K, st, f\<lparr>f_pos := of_nat (seek_pos ?b c off)\<rparr>)"
      using good by (simp add: dev_good_def)
    ultimately show ?thesis
      using True seek_pos_bound [OF wf True] by (simp add: dev_target_def unat_of_nat_small)
  next
    case False
    then have "d_ioctl (driver_ops o1 split) (K, st, f) c off = Done (- EINVAL, (K, st, f))"
      by (simp add: driver_ops_def res zero arg Let_def)
    with False good show ?thesis by (simp add: dev_target_def)
  qed
qed

lemma driver_read:
  assumes good: "dev_good (K, st, f)"
  shows "d_read (driver_ops off split) (K, st, f)
    = Done (drop (unat (f_pos f)) (content (absdev st)), (K, st, f\<lparr>f_pos := 0\<rparr>))"
proof -
  have law: "copy_to_user_law K"
    using good_ready(3) [OF good] by (simp add: kernel_ok_def)
  have "read_until_eof (Suc (length (content (absdev st)))) K st f 4096 (f_pos f)
      = Done (drop (unat (f_pos f)) (content (absdev st)), 0, st)"
    by (rule read_until_eof_content [OF good_ready(1,2,4) [OF good] law good_ready(5) [OF good]]) simp_all
  then show ?thesis by (simp add: driver_ops_def del: read_until_eof.simps)
qed

lemma dev_append_part:
  "newline \<notin> set (a_pend a) \<Longrightarrow> newline \<notin> set s \<Longrightarrow> dev_append (dev_append a s) t = dev_append a (s @ t)"
  by (simp add: dev_append_def)

interpretation driver: line_device "driver_ops cdev_offset split" dev_good dev_view dev_append content
  dev_pos dev_room dev_target for cdev_offset split
proof (unfold_locales, goal_cases)
  case (1 d)
  obtain K st f where d: "d = (K, st, f)" by (cases d)
  have "dev_good (K, st, \<lparr>private_data = dev_addr st, f_pos = 0\<rparr>)"
    using good_file [OF 1 [unfolded d] good_ready(1) [OF 1 [unfolded d]]] by simp
  then show ?case
    by (simp add: d driver_ops_def aesd_open_def dev_view_def dev_pos_def dev_room_def dev_target_def)
next
  case (2 d s)
  then show ?case
    by (cases d) (use driver_write in \<open>auto simp: dev_view_def\<close>)
next
  case (3 d)
  obtain K st f where d: "d = (K, st, f)" by (cases d)
  then show ?case
    using driver_rewind 3 by (simp add: d dev_good_def dev_view_def dev_pos_def)
next
  case (4 d c off)
  obtain K st f where d: "d = (K, st, f)" by (cases d)
  obtain r f' where "d_ioctl (driver_ops cdev_offset split) (K, st, f) c off = Done (r, (K, st, f'))"
    "dev_good (K, st, f')"
    "unat (f_pos f') = (case dev_target (K, st, f) c off of None \<Rightarrow> unat (f_pos f) | Some p \<Rightarrow> p)"
    using driver_ioctl [OF 4 [unfolded d]] by blast
  then show ?case
    unfolding d by (cases "dev_target (K, st, f) c off") (auto simp: dev_view_def dev_pos_def)
next
  case (5 d)
  obtain K st f where d: "d = (K, st, f)" by (cases d)
  show ?case
    using driver_read [OF 5 [unfolded d]] 5 by (simp add: d dev_good_def dev_view_def dev_pos_def)
next
  case (6 d s t)
  then show ?case
    by (cases d) (simp add: dev_append_part dev_view_def dev_good_def dev_inv_def)
qed

section \<open>The data file\<close>

text \<open>A file opened with \<open>a+\<close>: its bytes and the reading position. A regular file refuses the ioctl.\<close>

definition file_ops :: "(string \<Rightarrow> string list) \<Rightarrow> (string \<times> nat) dev_ops" where
  "file_ops split =
     \<lparr>d_open = (\<lambda>(text, pos). Some (text, 0)),
      d_write = (\<lambda>(text, pos) s. Done (True, (text @ s, length text + length s))),
      d_rewind = (\<lambda>(text, pos). Done (text, 0)),
      d_ioctl = (\<lambda>(text, pos) c off. Done (- 1, (text, pos))),
      d_read = (\<lambda>(text, pos). Done (drop pos text, (text, length text))),
      d_split = split\<rparr>"

interpretation plain: line_device "file_ops split" "\<lambda>d. True" fst "(@)" "\<lambda>text. text" snd "\<lambda>d n. True"
  "\<lambda>d c off. None" for split
  by unfold_locales (auto simp: file_ops_def)

lemma file_write_chunks:
  "write_chunks (file_ops split) cs (u, p) =
     Done (True, (u @ concat cs, if cs = [] then p else length (u @ concat cs)))"
  by (induction cs arbitrary: u p) (auto simp: file_ops_def)

lemma timestamp_once:
  assumes "concat (split t) = t" and "\<not> c_strstr t ''AESDCHAR_IOCSEEKTO''"
  shows "append_timestamp (file_ops split) t (streams, (text, p)) = Done (Ret (streams + 1, (text @ t, 0)))"
proof -
  have "d_split (file_ops split) = split" "d_open (file_ops split) (text, p) = Some (text, 0)"
    "d_rewind (file_ops split) (u, q) = Done (u, 0)" for u q
    by (simp_all add: file_ops_def)
  with assms show ?thesis
    by (simp add: append_timestamp_def appendToFile_def c_fputs_def file_write_chunks)
qed

end
