(* ===== verification/Slist_Queue.thy ===== *)
theory Slist_Queue
  imports Aesd_Prelude
begin

text \<open>
  The singly linked lists of \<^verbatim>\<open>server/queue.h\<close>, the macros the socket server keeps its
  connections with. The nodes live in a heap that maps the address of a node to its link field
  and to the rest of the structure; reading or writing a node that is not live is \<open>Fault\<close>, a walk
  that never ends is \<open>Hang\<close>. The head \<open>slh_first\<close> is a pointer value.
\<close>

section \<open>Nodes and macros\<close>

type_synonym nptr = nat

record 'a qnode =
  sle_next :: nptr
  qdata :: 'a

type_synonym 'a qheap = "nptr \<rightharpoonup> 'a qnode"

definition SLIST_INIT :: nptr where
  "SLIST_INIT = 0"

definition SLIST_EMPTY :: "nptr \<Rightarrow> bool" where
  "SLIST_EMPTY head \<longleftrightarrow> head = 0"

definition SLIST_FIRST :: "nptr \<Rightarrow> nptr" where
  "SLIST_FIRST head = head"

definition SLIST_NEXT :: "'a qheap \<Rightarrow> nptr \<Rightarrow> nptr outcome" where
  "SLIST_NEXT m elm = (case m elm of None \<Rightarrow> Fault | Some n \<Rightarrow> Done (sle_next n))"

definition set_next :: "'a qheap \<Rightarrow> nptr \<Rightarrow> nptr \<Rightarrow> 'a qheap outcome" where
  "set_next m elm v = (case m elm of None \<Rightarrow> Fault | Some n \<Rightarrow> Done (m(elm \<mapsto> n\<lparr>sle_next := v\<rparr>)))"

definition SLIST_INSERT_HEAD :: "'a qheap \<Rightarrow> nptr \<Rightarrow> nptr \<Rightarrow> ('a qheap \<times> nptr) outcome" where
  "SLIST_INSERT_HEAD m head elm =
     and_then (set_next m elm (SLIST_FIRST head)) (\<lambda>m. Done (m, elm))"

definition SLIST_INSERT_AFTER :: "'a qheap \<Rightarrow> nptr \<Rightarrow> nptr \<Rightarrow> 'a qheap outcome" where
  "SLIST_INSERT_AFTER m slistelm elm =
     and_then (SLIST_NEXT m slistelm) (\<lambda>n.
       and_then (set_next m elm n) (\<lambda>m. set_next m slistelm elm))"

definition SLIST_REMOVE_HEAD :: "'a qheap \<Rightarrow> nptr \<Rightarrow> nptr outcome" where
  "SLIST_REMOVE_HEAD m head = SLIST_NEXT m (SLIST_FIRST head)"

definition SLIST_REMOVE_AFTER :: "'a qheap \<Rightarrow> nptr \<Rightarrow> 'a qheap outcome" where
  "SLIST_REMOVE_AFTER m elm =
     and_then (SLIST_NEXT m elm) (\<lambda>n. and_then (SLIST_NEXT m n) (\<lambda>nn. set_next m elm nn))"

text \<open>The loops are total on ended and on broken lists and have no value on cyclic ones:
  \<open>returns\<close> turns that into \<open>Hang\<close>.\<close>

definition returns :: "'r outcome option \<Rightarrow> 'r outcome" where
  "returns r = (case r of None \<Rightarrow> Hang | Some x \<Rightarrow> x)"

partial_function (option) find_prev :: "'a qheap \<Rightarrow> nptr \<Rightarrow> nptr \<Rightarrow> nptr outcome option" where
  "find_prev m elm curelm =
     (case SLIST_NEXT m curelm of
        Done n \<Rightarrow> if n = elm then Some (Done curelm) else find_prev m elm n
      | Fault \<Rightarrow> Some Fault
      | Hang \<Rightarrow> Some Hang)"

definition SLIST_REMOVE :: "'a qheap \<Rightarrow> nptr \<Rightarrow> nptr \<Rightarrow> ('a qheap \<times> nptr) outcome" where
  "SLIST_REMOVE m head elm =
     (if SLIST_FIRST head = elm
      then and_then (SLIST_REMOVE_HEAD m head) (\<lambda>head. Done (m, head))
      else and_then (returns (find_prev m elm (SLIST_FIRST head))) (\<lambda>curelm.
             and_then (SLIST_REMOVE_AFTER m curelm) (\<lambda>m. Done (m, head))))"

partial_function (option) find_last :: "'a qheap \<Rightarrow> nptr \<Rightarrow> nptr outcome option" where
  "find_last m curelm =
     (case SLIST_NEXT m curelm of
        Done n \<Rightarrow> if n \<noteq> 0 then find_last m n else Some (Done curelm)
      | Fault \<Rightarrow> Some Fault
      | Hang \<Rightarrow> Some Hang)"

definition SLIST_CONCAT :: "'a qheap \<Rightarrow> nptr \<Rightarrow> nptr \<Rightarrow> ('a qheap \<times> nptr \<times> nptr) outcome" where
  "SLIST_CONCAT m head1 head2 =
     (let curelm = SLIST_FIRST head1
      in if curelm = 0
         then (let head1 = SLIST_FIRST head2
               in Done (m, head1, if head1 \<noteq> 0 then SLIST_INIT else head2))
         else if SLIST_FIRST head2 \<noteq> 0
         then and_then (returns (find_last m curelm)) (\<lambda>curelm.
                and_then (set_next m curelm (SLIST_FIRST head2)) (\<lambda>m. Done (m, head1, SLIST_INIT)))
         else Done (m, head1, head2))"

definition SLIST_SWAP :: "nptr \<Rightarrow> nptr \<Rightarrow> nptr \<times> nptr" where
  "SLIST_SWAP head1 head2 =
     (let swap_first = SLIST_FIRST head1; head1 = SLIST_FIRST head2; head2 = swap_first
      in (head1, head2))"

text \<open>The iterations: \<open>next\<close> reads the link in the state \<open>'s\<close> the body works on. The plain one reads the
  link of the current node after the body, the safe one before it.\<close>

partial_function (option) SLIST_FOREACH ::
    "('s \<Rightarrow> nptr \<Rightarrow> nptr outcome) \<Rightarrow> (nptr \<Rightarrow> 's \<Rightarrow> 's outcome) \<Rightarrow> nptr \<Rightarrow> 's \<Rightarrow> 's outcome option" where
  "SLIST_FOREACH nxt body var s =
     (if var = 0 then Some (Done s)
      else case body var s of
             Done s \<Rightarrow>
               (case nxt s var of
                  Done var \<Rightarrow> SLIST_FOREACH nxt body var s
                | Fault \<Rightarrow> Some Fault | Hang \<Rightarrow> Some Hang)
           | Fault \<Rightarrow> Some Fault | Hang \<Rightarrow> Some Hang)"

partial_function (option) SLIST_FOREACH_SAFE ::
    "('s \<Rightarrow> nptr \<Rightarrow> nptr outcome) \<Rightarrow> (nptr \<Rightarrow> 's \<Rightarrow> 's outcome) \<Rightarrow> nptr \<Rightarrow> 's \<Rightarrow> 's outcome option" where
  "SLIST_FOREACH_SAFE nxt body var s =
     (if var = 0 then Some (Done s)
      else case nxt s var of
             Done tvar \<Rightarrow>
               (case body var s of
                  Done s \<Rightarrow> SLIST_FOREACH_SAFE nxt body tvar s
                | Fault \<Rightarrow> Some Fault | Hang \<Rightarrow> Some Hang)
           | Fault \<Rightarrow> Some Fault | Hang \<Rightarrow> Some Hang)"

section \<open>The list a head stands for\<close>

fun slist :: "'a qheap \<Rightarrow> nptr \<Rightarrow> nptr list \<Rightarrow> bool" where
  "slist m p [] \<longleftrightarrow> p = 0"
| "slist m p (x # xs) \<longleftrightarrow> p = x \<and> x \<noteq> 0 \<and> (\<exists>n. m x = Some n \<and> slist m (sle_next n) xs)"

lemma slist_unique: "slist m p xs \<Longrightarrow> slist m p ys \<Longrightarrow> xs = ys"
proof (induction xs arbitrary: p ys)
  case Nil
  then show ?case by (cases ys) auto
next
  case (Cons x xs)
  then show ?case by (cases ys) auto
qed

lemma slist_append:
  "slist m p (xs @ ys) \<Longrightarrow> \<exists>q. slist m q ys"
  by (induction xs arbitrary: p) auto

lemma slist_distinct: "slist m p xs \<Longrightarrow> distinct xs"
proof (induction xs arbitrary: p)
  case (Cons x xs)
  then obtain n where n: "m x = Some n" "slist m (sle_next n) xs" by auto
  have "x \<notin> set xs"
  proof
    assume "x \<in> set xs"
    then obtain as bs where xs: "xs = as @ x # bs" by (meson split_list)
    with n(2) obtain q where "slist m q (x # bs)" using slist_append by blast
    then have "slist m (sle_next n) bs" using n(1) by simp
    with n(2) have "xs = bs" by (rule slist_unique)
    with xs show False by simp
  qed
  with Cons.IH n(2) show ?case by simp
qed simp

lemma slist_live: "slist m p xs \<Longrightarrow> set xs \<subseteq> dom m" "slist m p xs \<Longrightarrow> 0 \<notin> set xs"
  by (induction xs arbitrary: p) auto

lemma slist_frame: "slist m p xs \<Longrightarrow> \<forall>x \<in> set xs. m' x = m x \<Longrightarrow> slist m' p xs"
  by (induction xs arbitrary: p) auto

lemma slist_upd [simp]: "q \<notin> set xs \<Longrightarrow> slist (m(q := v)) p xs = slist m p xs"
  using slist_frame [of m p xs "m(q := v)"] slist_frame [of "m(q := v)" p xs m] by auto

lemma slist_data [simp]: "slist (m(q \<mapsto> n\<lparr>qdata := d\<rparr>)) p xs = slist m p xs" if "m q = Some n"
proof (induction xs arbitrary: p)
  case (Cons x xs)
  then show ?case using that by auto
qed simp

lemma slist_null [simp]: "slist m 0 xs \<longleftrightarrow> xs = []"
  by (cases xs) auto

lemma slist_nonempty: "slist m p xs \<Longrightarrow> p \<noteq> 0 \<Longrightarrow> \<exists>ys. xs = p # ys"
  by (cases xs) auto

section \<open>What the macros do to it\<close>

text \<open>The links of some nodes change, what the nodes carry does not.\<close>

definition relinks :: "'a qheap \<Rightarrow> 'a qheap \<Rightarrow> nptr set \<Rightarrow> bool" where
  "relinks m m' S \<longleftrightarrow> (\<forall>q. map_option qdata (m' q) = map_option qdata (m q)) \<and> (\<forall>q. q \<notin> S \<longrightarrow> m' q = m q)"

lemma relinks_refl [simp]: "relinks m m S"
  by (simp add: relinks_def)

lemma relinks_mono: "relinks m m' S \<Longrightarrow> S \<subseteq> T \<Longrightarrow> relinks m m' T"
  by (auto simp: relinks_def)

lemma relinks_upd: "relinks m m1 S \<Longrightarrow> m1 y = Some n \<Longrightarrow> y \<in> S \<Longrightarrow> relinks m (m1(y \<mapsto> n\<lparr>sle_next := q\<rparr>)) S"
  by (auto simp: relinks_def dest!: spec [of _ y])

lemma insert_head_slist:
  assumes "slist m head xs" and "elm \<noteq> 0" and "elm \<notin> set xs" and "m elm = Some n"
  shows "SLIST_INSERT_HEAD m head elm = Done (m(elm \<mapsto> n\<lparr>sle_next := head\<rparr>), elm)"
    and "slist (m(elm \<mapsto> n\<lparr>sle_next := head\<rparr>)) elm (elm # xs)"
  using assms by (simp_all add: SLIST_INSERT_HEAD_def SLIST_FIRST_def set_next_def)

lemma slist_split:
  "slist m p (xs @ y # ys) \<Longrightarrow> \<exists>n. m y = Some n \<and> y \<noteq> 0 \<and> slist m (sle_next n) ys"
  by (induction xs arbitrary: p) auto

lemma slist_relink:
  "slist m p (xs @ y # zs) \<Longrightarrow> y \<notin> set xs \<Longrightarrow> m y = Some n \<Longrightarrow> slist (m(y \<mapsto> n\<lparr>sle_next := q\<rparr>)) q ws \<Longrightarrow>
     slist (m(y \<mapsto> n\<lparr>sle_next := q\<rparr>)) p (xs @ y # ws)"
  by (induction xs arbitrary: p) auto

lemma insert_after_slist:
  assumes l: "slist m head (xs @ y # ys)" and elm: "elm \<noteq> 0" "elm \<notin> set (xs @ y # ys)" "elm \<in> dom m"
  shows "\<exists>m'. SLIST_INSERT_AFTER m y elm = Done m' \<and> slist m' head (xs @ y # elm # ys) \<and> relinks m m' {elm, y}"
proof -
  obtain n where n: "m y = Some n" "y \<noteq> 0" "slist m (sle_next n) ys"
    using slist_split [OF l] by blast
  obtain e where e: "m elm = Some e" using elm(3) by blast
  let ?m1 = "m(elm \<mapsto> e\<lparr>sle_next := sle_next n\<rparr>)"
  let ?m2 = "?m1(y \<mapsto> n\<lparr>sle_next := elm\<rparr>)"
  have dist: "y \<notin> set xs" "y \<notin> set ys"
    using slist_distinct [OF l] by auto
  have l1: "slist ?m1 head (xs @ y # ys)"
    using l elm(2) by simp
  have y: "?m1 y = Some n"
    using n(1) elm(2) by auto
  have "slist ?m2 elm (elm # ys)"
    using n(3) elm dist by simp
  from slist_relink [OF l1 dist(1) y this] have "slist ?m2 head (xs @ y # elm # ys)" .
  moreover have "SLIST_INSERT_AFTER m y elm = Done ?m2"
    using n(1) e y by (simp add: SLIST_INSERT_AFTER_def SLIST_NEXT_def set_next_def)
  moreover have "relinks m ?m2 {elm, y}"
    using y e by (intro relinks_upd) auto
  ultimately show ?thesis by blast
qed

lemma remove_head_slist:
  assumes "slist m head (x # xs)"
  shows "\<exists>head'. SLIST_REMOVE_HEAD m head = Done head' \<and> slist m head' xs"
  using assms by (auto simp: SLIST_REMOVE_HEAD_def SLIST_FIRST_def SLIST_NEXT_def)

lemma find_prev_slist:
  "slist m p (xs @ y # elm # ys) \<Longrightarrow> elm \<notin> set (xs @ [y]) \<Longrightarrow> find_prev m elm p = Some (Done y)"
proof (induction xs arbitrary: p)
  case Nil
  then show ?case by (subst find_prev.simps) (auto simp: SLIST_NEXT_def)
next
  case (Cons x xs)
  then obtain n where n: "m x = Some n" "p = x" "slist m (sle_next n) (xs @ y # elm # ys)" by auto
  then have "sle_next n \<noteq> elm"
    using Cons.prems(2) by (cases xs) auto
  with n Cons.IH [OF n(3)] Cons.prems(2) show ?case
    by (subst find_prev.simps) (simp add: SLIST_NEXT_def)
qed

lemma find_prev_absent:
  assumes "m 0 = None"
  shows "slist m p xs \<Longrightarrow> elm \<notin> set xs \<Longrightarrow> elm \<noteq> 0 \<Longrightarrow> find_prev m elm p = Some Fault"
proof (induction xs arbitrary: p)
  case Nil
  with assms show ?case by (subst find_prev.simps) (simp add: SLIST_NEXT_def)
next
  case (Cons x xs)
  then obtain n where n: "m x = Some n" "p = x" "slist m (sle_next n) xs" by auto
  then have "sle_next n \<noteq> elm"
    using Cons.prems(2,3) by (cases xs) auto
  with n Cons.IH [OF n(3)] Cons.prems(2,3) show ?case
    by (subst find_prev.simps) (simp add: SLIST_NEXT_def)
qed

lemma remove_after_slist:
  assumes l: "slist m head (xs @ y # x # ys)"
  shows "\<exists>n. m y = Some n \<and> SLIST_REMOVE_AFTER m y = Done (m(y \<mapsto> n\<lparr>sle_next := sle_next (the (m x))\<rparr>)) \<and>
    slist (m(y \<mapsto> n\<lparr>sle_next := sle_next (the (m x))\<rparr>)) head (xs @ y # ys)"
proof -
  obtain n where n: "m y = Some n" "slist m (sle_next n) (x # ys)"
    using slist_split [OF l] by blast
  then obtain k where k: "m x = Some k" "slist m (sle_next k) ys" "sle_next n = x" by auto
  have dist: "y \<notin> set xs" "y \<notin> set ys" using slist_distinct [OF l] by auto
  have "SLIST_REMOVE_AFTER m y = Done (m(y \<mapsto> n\<lparr>sle_next := sle_next k\<rparr>))"
    using n k by (simp add: SLIST_REMOVE_AFTER_def SLIST_NEXT_def set_next_def)
  moreover have "slist (m(y \<mapsto> n\<lparr>sle_next := sle_next k\<rparr>)) (sle_next k) ys"
    using k dist by simp
  from slist_relink [OF l dist(1) n(1) this]
  have "slist (m(y \<mapsto> n\<lparr>sle_next := sle_next k\<rparr>)) head (xs @ y # ys)" .
  ultimately show ?thesis using n(1) k(1) by simp
qed

text \<open>Removing a node relinks at most its predecessor; every other node is as before, the removed one
  included.\<close>

lemma remove_slist:
  assumes l: "slist m head xs" and elm: "elm \<in> set xs"
  shows "\<exists>m' head'. SLIST_REMOVE m head elm = Done (m', head') \<and> slist m' head' (remove1 elm xs) \<and>
    dom m' = dom m \<and> m' elm = m elm \<and> relinks m m' (set xs)"
proof (cases "head = elm")
  case True
  then obtain ys where xs: "xs = elm # ys"
    using l elm by (cases xs) auto
  with True remove_head_slist [of m head elm ys] l show ?thesis
    by (auto simp: SLIST_REMOVE_def SLIST_FIRST_def)
next
  case False
  obtain zs ys where split: "xs = zs @ elm # ys" "elm \<notin> set zs"
    using elm by (meson split_list_first)
  then have "zs \<noteq> []"
    using l False by auto
  then obtain as y where zs: "zs = as @ [y]" by (metis rev_exhaust)
  with split l have l': "slist m head (as @ y # elm # ys)" by simp
  obtain n where n: "m y = Some n"
      "SLIST_REMOVE_AFTER m y = Done (m(y \<mapsto> n\<lparr>sle_next := sle_next (the (m elm))\<rparr>))"
      "slist (m(y \<mapsto> n\<lparr>sle_next := sle_next (the (m elm))\<rparr>)) head (as @ y # ys)"
    using remove_after_slist [OF l'] by blast
  have "find_prev m elm head = Some (Done y)"
    using find_prev_slist [OF l'] split(2) zs by simp
  with False n(2) have "SLIST_REMOVE m head elm
      = Done (m(y \<mapsto> n\<lparr>sle_next := sle_next (the (m elm))\<rparr>), head)"
    by (simp add: SLIST_REMOVE_def SLIST_FIRST_def returns_def)
  moreover have "remove1 elm xs = as @ y # ys"
    using split zs by (simp add: remove1_append)
  moreover have "relinks m (m(y \<mapsto> n\<lparr>sle_next := sle_next (the (m elm))\<rparr>)) (set xs)"
    using n(1) split zs by (intro relinks_upd) auto
  ultimately show ?thesis
    using n(1,3) split zs by auto
qed

lemma remove_absent:
  assumes "m 0 = None" and "slist m head xs" and "elm \<notin> set xs" and "elm \<noteq> 0"
  shows "SLIST_REMOVE m head elm = Fault"
proof -
  have "head \<noteq> elm"
    using assms(2-4) by (cases xs) auto
  then show ?thesis
    using find_prev_absent [OF assms] by (simp add: SLIST_REMOVE_def SLIST_FIRST_def returns_def)
qed

lemma find_last_slist: "slist m p (xs @ [y]) \<Longrightarrow> find_last m p = Some (Done y)"
proof (induction xs arbitrary: p)
  case Nil
  then show ?case by (subst find_last.simps) (auto simp: SLIST_NEXT_def)
next
  case (Cons x xs)
  then obtain n where n: "m x = Some n" "p = x" "slist m (sle_next n) (xs @ [y])" by auto
  then have "sle_next n \<noteq> 0" by (cases xs) auto
  with n Cons.IH [OF n(3)] show ?case
    by (subst find_last.simps) (simp add: SLIST_NEXT_def)
qed

lemma concat_slist:
  assumes l1: "slist m head1 xs" and l2: "slist m head2 ys" and disj: "set xs \<inter> set ys = {}"
  shows "\<exists>m' h1 h2. SLIST_CONCAT m head1 head2 = Done (m', h1, h2) \<and> slist m' h1 (xs @ ys) \<and> slist m' h2 [] \<and>
    relinks m m' (set xs)"
proof (cases "xs = [] \<or> ys = []")
  case True
  with l1 l2 show ?thesis
    by (auto simp: SLIST_CONCAT_def SLIST_FIRST_def SLIST_INIT_def Let_def dest: slist_nonempty)
next
  case False
  then have "head1 \<noteq> 0" "head2 \<noteq> 0" using l1 l2 by (auto simp: neq_Nil_conv)
  obtain as y where xs: "xs = as @ [y]" using False by (metis rev_exhaust)
  obtain n where n: "m y = Some n"
    using slist_split [of m head1 as y "[]"] l1 xs by auto
  have y: "y \<notin> set as" "y \<notin> set ys"
    using slist_distinct [OF l1] disj xs by auto
  have l: "slist m head1 (as @ y # [])" using l1 xs by simp
  have "slist (m(y \<mapsto> n\<lparr>sle_next := head2\<rparr>)) head2 ys"
    using l2 y(2) by simp
  from slist_relink [OF l y(1) n this]
  have "slist (m(y \<mapsto> n\<lparr>sle_next := head2\<rparr>)) head1 (xs @ ys)"
    by (simp add: xs)
  moreover have "SLIST_CONCAT m head1 head2 = Done (m(y \<mapsto> n\<lparr>sle_next := head2\<rparr>), head1, 0)"
    using find_last_slist [of m head1 as y] l1 xs n \<open>head1 \<noteq> 0\<close> \<open>head2 \<noteq> 0\<close>
    by (simp add: SLIST_CONCAT_def SLIST_FIRST_def SLIST_INIT_def Let_def returns_def set_next_def)
  moreover have "relinks m (m(y \<mapsto> n\<lparr>sle_next := head2\<rparr>)) (set xs)"
    using n xs by (intro relinks_upd) auto
  ultimately show ?thesis by auto
qed

section \<open>Iterating\<close>

fun first :: "nptr list \<Rightarrow> nptr" where
  "first [] = 0"
| "first (x # xs) = x"

lemma slist_first: "slist m p xs \<Longrightarrow> p = first xs"
  by (cases xs) auto

lemma foreach_safe_rule:
  assumes step: "\<And>x rest s. good (x # rest) s \<Longrightarrow>
      x \<noteq> 0 \<and> nxt s x = Done (first rest) \<and> (\<exists>s'. body x s = Done s' \<and> good rest s')"
    and start: "good xs s"
  shows "\<exists>s'. SLIST_FOREACH_SAFE nxt body (first xs) s = Some (Done s') \<and> good [] s'"
  using start
proof (induction xs arbitrary: s)
  case Nil
  then show ?case by (subst SLIST_FOREACH_SAFE.simps) simp
next
  case (Cons x xs)
  from step [OF Cons.prems] obtain s1 where s1: "x \<noteq> 0" "nxt s x = Done (first xs)" "body x s = Done s1" "good xs s1"
    by blast
  with Cons.IH [OF s1(4)] show ?case
    by (subst SLIST_FOREACH_SAFE.simps) simp
qed

lemma foreach_rule:
  assumes step: "\<And>x rest s. good (x # rest) s \<Longrightarrow>
      x \<noteq> 0 \<and> (\<exists>s'. body x s = Done s' \<and> nxt s' x = Done (first rest) \<and> good rest s')"
    and start: "good xs s"
  shows "\<exists>s'. SLIST_FOREACH nxt body (first xs) s = Some (Done s') \<and> good [] s'"
  using start
proof (induction xs arbitrary: s)
  case Nil
  then show ?case by (subst SLIST_FOREACH.simps) simp
next
  case (Cons x xs)
  from step [OF Cons.prems] obtain s1 where s1: "x \<noteq> 0" "body x s = Done s1" "nxt s1 x = Done (first xs)" "good xs s1"
    by blast
  with Cons.IH [OF s1(4)] show ?case
    by (subst SLIST_FOREACH.simps) simp
qed

section \<open>The interface the server relies on\<close>

text \<open>A list of owned nodes: allocation and release of a node are the client's, linking is the list's.\<close>

locale node_list =
  fixes list_at :: "'h \<Rightarrow> nptr \<Rightarrow> nptr list \<Rightarrow> bool"
    and data :: "'h \<Rightarrow> nptr \<Rightarrow> 'd option"
    and alloc :: "'h \<Rightarrow> nptr \<Rightarrow> 'd \<Rightarrow> 'h"
    and dispose :: "'h \<Rightarrow> nptr \<Rightarrow> 'h"
    and insert_head :: "'h \<Rightarrow> nptr \<Rightarrow> nptr \<Rightarrow> ('h \<times> nptr) outcome"
    and remove :: "'h \<Rightarrow> nptr \<Rightarrow> nptr \<Rightarrow> ('h \<times> nptr) outcome"
    and link :: "'h \<Rightarrow> nptr \<Rightarrow> nptr outcome"
  assumes list_distinct: "list_at h p xs \<Longrightarrow> distinct xs"
    and list_data: "list_at h p xs \<Longrightarrow> x \<in> set xs \<Longrightarrow> x \<noteq> 0 \<and> (\<exists>d. data h x = Some d)"
    and list_link: "list_at h p (xs @ x # ys) \<Longrightarrow> link h x = Done (first ys)"
    and alloc_list: "x \<notin> set xs \<Longrightarrow> list_at h p xs \<Longrightarrow> list_at (alloc h x d) p xs"
    and alloc_data: "data (alloc h x d) y = (if y = x then Some d else data h y)"
    and dispose_list: "x \<notin> set xs \<Longrightarrow> list_at h p xs \<Longrightarrow> list_at (dispose h x) p xs"
    and dispose_data: "data (dispose h x) y = (if y = x then None else data h y)"
    and insert_list: "list_at h p xs \<Longrightarrow> x \<noteq> 0 \<Longrightarrow> x \<notin> set xs \<Longrightarrow> data h x = Some d \<Longrightarrow>
      \<exists>h'. insert_head h p x = Done (h', x) \<and> list_at h' x (x # xs) \<and> data h' = data h"
    and remove_list: "list_at h p xs \<Longrightarrow> x \<in> set xs \<Longrightarrow>
      \<exists>h' p'. remove h p x = Done (h', p') \<and> list_at h' p' (remove1 x xs) \<and> data h' = data h"
begin

lemma add_node:
  assumes "list_at h p xs" and "x \<noteq> 0" and "x \<notin> set xs"
  shows "\<exists>h'. insert_head (alloc h x d) p x = Done (h', x) \<and> list_at h' x (x # xs) \<and>
    data h' = (data h)(x \<mapsto> d)"
  using insert_list [OF alloc_list [OF assms(3,1), of d] assms(2,3), of d]
  by (auto simp: alloc_data fun_eq_iff)

lemma drop_node:
  assumes "list_at h p (xs @ x # ys)"
  shows "\<exists>h' p'. remove h p x = Done (h', p') \<and> list_at (dispose h' x) p' (xs @ ys) \<and>
    data (dispose h' x) = (data h)(x := None)"
proof -
  have x: "x \<notin> set xs" "x \<notin> set (xs @ ys)"
    using list_distinct [OF assms] by auto
  obtain h' p' where h': "remove h p x = Done (h', p')" "list_at h' p' (remove1 x (xs @ x # ys))" "data h' = data h"
    using remove_list [OF assms, of x] by auto
  moreover have "remove1 x (xs @ x # ys) = xs @ ys"
    using x(1) by (simp add: remove1_append)
  ultimately show ?thesis
    using dispose_list [OF x(2), of h' p'] by (auto simp: dispose_data fun_eq_iff)
qed

end

text \<open>The macros keep the contract, whatever the nodes carry.\<close>

definition qalloc :: "'a qheap \<Rightarrow> nptr \<Rightarrow> 'a \<Rightarrow> 'a qheap" where
  "qalloc m p d = m(p \<mapsto> \<lparr>sle_next = 0, qdata = d\<rparr>)"

definition qfree :: "'a qheap \<Rightarrow> nptr \<Rightarrow> 'a qheap" where
  "qfree m p = m(p := None)"

definition qget :: "'a qheap \<Rightarrow> nptr \<Rightarrow> 'a option" where
  "qget m p = map_option qdata (m p)"

interpretation slist: node_list slist qget qalloc qfree SLIST_INSERT_HEAD SLIST_REMOVE SLIST_NEXT
proof (unfold_locales, goal_cases)
  case (2 h p xs x)
  then show ?case using slist_live [OF 2(1)] by (cases x) (auto simp: qget_def)
next
  case (3 h p xs x ys)
  from slist_split [OF this] show ?case
    by (auto simp: SLIST_NEXT_def dest: slist_first)
next
  case (8 h p xs x d)
  then obtain n where n: "h x = Some n" by (auto simp: qget_def)
  then have "qget (h(x \<mapsto> n\<lparr>sle_next := p\<rparr>)) = qget h"
    by (simp add: qget_def fun_eq_iff)
  with insert_head_slist [OF 8(1,2,3) n] show ?case by blast
next
  case (9 h p xs x)
  from remove_slist [OF this] show ?case
    by (auto simp: qget_def fun_eq_iff relinks_def)
qed (auto simp: slist_distinct qalloc_def qfree_def qget_def)

end
