(* ===== verification/Connection_List.thy ===== *)
theory Connection_List
  imports Slist_Queue
begin

text \<open>
  The connections of \<^verbatim>\<open>server/aesdsocket.c\<close>: the node of each accepted connection, the accept loop of
  \<open>main\<close> that adds one and reaps the finished ones, and the signal handler that waits for all of
  them. What the kernel and the C library answer (the descriptor of \<open>accept\<close>, the address of
  \<open>malloc\<close>, the thread of \<open>pthread_create\<close>) are arguments.
\<close>

section \<open>The state and the loop\<close>

record slist_data_s =
  acceptedfd :: int
  thread :: nat
  thread_complete :: bool

text \<open>\<open>open_fds\<close> are the descriptors of connections not closed yet, \<open>joined\<close> the threads waited for so
  far, in order; both stand for effects of \<open>close\<close> and \<open>pthread_join\<close>.\<close>

record server =
  conns :: "slist_data_s qheap"
  shead :: nptr
  open_fds :: "int set"
  joined :: "nat list"

definition server_init :: server where
  "server_init = \<lparr>conns = Map.empty, shead = SLIST_INIT, open_fds = {}, joined = []\<rparr>"

definition reap_body :: "nptr \<Rightarrow> server \<Rightarrow> server outcome" where
  "reap_body datap s =
     (case conns s datap of
        None \<Rightarrow> Fault
      | Some n \<Rightarrow>
          if thread_complete (qdata n) then
            (let s = s\<lparr>open_fds := open_fds s - {acceptedfd (qdata n)}\<rparr>;
                 s = s\<lparr>joined := joined s @ [thread (qdata n)]\<rparr>
             in and_then (SLIST_REMOVE (conns s) (shead s) datap) (\<lambda>(m, h).
                  Done (s\<lparr>conns := qfree m datap, shead := h\<rparr>)))
          else Done s)"

definition reap :: "server \<Rightarrow> server outcome" where
  "reap s = returns (SLIST_FOREACH_SAFE (\<lambda>s. SLIST_NEXT (conns s)) reap_body (SLIST_FIRST (shead s)) s)"

text \<open>One round of the loop: \<open>Inl\<close> is \<open>main\<close> returning. The round as a whole is for a \<^verbatim>\<open>pthread_create\<close> that succeeds, and
  no connection thread looks at its node before that call, so the thread is stored at once. The
  order of the statements and the failure are in \<open>Signal_Points\<close> (\<open>main_stmt\<close>).\<close>

definition serve_connection :: "int \<Rightarrow> nptr \<Rightarrow> nat \<Rightarrow> server \<Rightarrow> (int + server) outcome" where
  "serve_connection fd p tid s =
     (if fd < 0 then Done (Inl (- 1))
      else if p = 0 then Fault
      else
        (let s = s\<lparr>open_fds := insert fd (open_fds s)\<rparr>;
             m = qalloc (conns s) p \<lparr>acceptedfd = fd, thread = tid, thread_complete = False\<rparr>
         in and_then (SLIST_INSERT_HEAD m (shead s) p) (\<lambda>(m, h).
              and_then (reap (s\<lparr>conns := m, shead := h\<rparr>)) (\<lambda>s. Done (Inr s)))))"

text \<open>The last assignment of the thread function, seen from the list.\<close>

definition complete :: "nptr \<Rightarrow> server \<Rightarrow> server outcome" where
  "complete datap s =
     (case conns s datap of
        None \<Rightarrow> Fault
      | Some n \<Rightarrow> Done (s\<lparr>conns := (conns s)(datap \<mapsto> n\<lparr>qdata := (qdata n)\<lparr>thread_complete := True\<rparr>\<rparr>)\<rparr>))"

text \<open>The part of the signal handler that deletes the list.\<close>

partial_function (option) drain :: "server \<Rightarrow> server outcome option" where
  "drain s =
     (if SLIST_EMPTY (shead s) then Some (Done s)
      else
        (let datap = SLIST_FIRST (shead s)
         in case conns s datap of
              None \<Rightarrow> Some Fault
            | Some n \<Rightarrow>
                (case SLIST_REMOVE_HEAD (conns s) (shead s) of
                   Done h \<Rightarrow>
                     drain (s\<lparr>joined := joined s @ [thread (qdata n)], shead := h,
                              conns := qfree (conns s) datap\<rparr>)
                 | Fault \<Rightarrow> Some Fault | Hang \<Rightarrow> Some Hang)))"

section \<open>Reaping\<close>

definition conn_at :: "server \<Rightarrow> nptr \<Rightarrow> slist_data_s" where
  "conn_at s x = the (qget (conns s) x)"

text \<open>The list \<open>xs\<close> is what the head stands for, it owns every node, and the open descriptors are
  exactly those of its nodes, one each.\<close>

definition conn_inv :: "nptr list \<Rightarrow> server \<Rightarrow> bool" where
  "conn_inv xs s \<longleftrightarrow> slist (conns s) (shead s) xs \<and> dom (conns s) = set xs \<and>
     open_fds s = (\<lambda>x. acceptedfd (conn_at s x)) ` set xs \<and>
     inj_on (\<lambda>x. acceptedfd (conn_at s x)) (set xs)"

lemma reap_kept:
  assumes "conns s x = Some n" and "\<not> thread_complete (qdata n)"
  shows "reap_body x s = Done s"
  using assms by (simp add: reap_body_def)

lemma reap_removed:
  fixes s :: server
  assumes l: "slist (conns s) (shead s) (as @ x # bs)" and d: "qget (conns s) x = Some d" "thread_complete d"
  shows "\<exists>m h. reap_body x s = Done (s\<lparr>open_fds := open_fds s - {acceptedfd d}, joined := joined s @ [thread d],
      conns := m, shead := h\<rparr>) \<and> slist m h (as @ bs) \<and> qget m = (qget (conns s))(x := None)"
proof -
  obtain m h where mh: "SLIST_REMOVE (conns s) (shead s) x = Done (m, h)" "slist (qfree m x) h (as @ bs)"
    "qget (qfree m x) = (qget (conns s))(x := None)"
    using slist.drop_node [OF l] by blast
  obtain n where n: "conns s x = Some n" "qdata n = d"
    using d(1) by (auto simp: qget_def)
  have "reap_body x s = Done (s\<lparr>open_fds := open_fds s - {acceptedfd d}, joined := joined s @ [thread d],
      conns := qfree m x, shead := h\<rparr>)"
    using n d(2) mh(1) by (simp add: reap_body_def)
  with mh(2,3) show ?thesis by blast
qed

lemma reap_ok:
  fixes s :: server
  assumes l: "slist (conns s) (shead s) xs"
  defines "done \<equiv> \<lambda>x. thread_complete (conn_at s x)"
  shows "\<exists>s'. reap s = Done s' \<and> slist (conns s') (shead s') (filter (\<lambda>x. \<not> done x) xs) \<and>
    qget (conns s') = qget (conns s) |` (- set (filter done xs)) \<and>
    open_fds s' = open_fds s - (\<lambda>x. acceptedfd (conn_at s x)) ` set (filter done xs) \<and>
    joined s' = joined s @ map (\<lambda>x. thread (conn_at s x)) (filter done xs)"
proof -
  define good where "good = (\<lambda>rest (t :: server). \<exists>pre. xs = pre @ rest \<and>
    slist (conns t) (shead t) (filter (\<lambda>x. \<not> done x) pre @ rest) \<and>
    qget (conns t) = qget (conns s) |` (- set (filter done pre)) \<and>
    open_fds t = open_fds s - (\<lambda>x. acceptedfd (conn_at s x)) ` set (filter done pre) \<and>
    joined t = joined s @ map (\<lambda>x. thread (conn_at s x)) (filter done pre))"
  have dist: "distinct xs" using slist_distinct [OF l] .
  have start: "good xs s"
    using l by (auto simp: good_def intro: exI [of _ "[]"])
  have step: "x \<noteq> 0 \<and> SLIST_NEXT (conns t) x = Done (first rest) \<and>
      (\<exists>t'. reap_body x t = Done t' \<and> good rest t')" if g: "good (x # rest) t" for x rest t
  proof -
    obtain pre where pre: "xs = pre @ x # rest" "slist (conns t) (shead t) (filter (\<lambda>x. \<not> done x) pre @ x # rest)"
      "qget (conns t) = qget (conns s) |` (- set (filter done pre))"
      "open_fds t = open_fds s - (\<lambda>x. acceptedfd (conn_at s x)) ` set (filter done pre)"
      "joined t = joined s @ map (\<lambda>x. thread (conn_at s x)) (filter done pre)"
      using g unfolding good_def by blast
    have x: "x \<noteq> 0 \<and> (\<exists>d. qget (conns t) x = Some d)"
      using slist.list_data [OF pre(2), of x] by simp
    then obtain d where d: "qget (conns t) x = Some d" by blast
    then have conn: "conn_at s x = d"
      unfolding pre(3) by (simp add: conn_at_def restrict_map_def split: if_splits)
    have "\<exists>t'. reap_body x t = Done t' \<and> good rest t'"
    proof (cases "done x")
      case True
      then have "thread_complete d" by (simp add: done_def conn)
      from reap_removed [OF pre(2) d this] obtain m h where mh:
        "reap_body x t = Done (t\<lparr>open_fds := open_fds t - {acceptedfd d}, joined := joined t @ [thread d],
          conns := m, shead := h\<rparr>)"
        "slist m h (filter (\<lambda>x. \<not> done x) pre @ rest)" "qget m = (qget (conns t))(x := None)" by blast
      have "qget m = qget (conns s) |` (- set (filter done (pre @ [x])))"
        using True unfolding mh(3) pre(3) by (auto simp: restrict_map_def fun_eq_iff)
      then have "good rest (t\<lparr>open_fds := open_fds t - {acceptedfd d}, joined := joined t @ [thread d],
          conns := m, shead := h\<rparr>)"
        unfolding good_def using True mh(2) pre conn by (intro exI [of _ "pre @ [x]"]) auto
      with mh(1) show ?thesis by blast
    next
      case False
      obtain n where n: "conns t x = Some n" "qdata n = d"
        using d by (auto simp: qget_def)
      have "reap_body x t = Done t"
        by (rule reap_kept [OF n(1)]) (use False n(2) in \<open>simp add: done_def conn\<close>)
      moreover have "good rest t"
        unfolding good_def using False pre by (intro exI [of _ "pre @ [x]"]) auto
      ultimately show ?thesis by blast
    qed
    with x slist.list_link [OF pre(2)] show ?thesis by simp
  qed
  obtain s' where s': "SLIST_FOREACH_SAFE (\<lambda>s. SLIST_NEXT (conns s)) reap_body (first xs) s = Some (Done s')"
    "good [] s'"
    using foreach_safe_rule [of good "\<lambda>s. SLIST_NEXT (conns s)" reap_body xs s, OF step start] by blast
  have "reap s = Done s'"
    using s'(1) slist_first [OF l] by (simp add: reap_def SLIST_FIRST_def returns_def)
  with s'(2) show ?thesis
    unfolding good_def by auto
qed

section \<open>The invariant of the loop\<close>

lemma dom_qget: "dom (qget m) = dom m"
  by (auto simp: qget_def)

lemma conn_inv_init: "conn_inv [] server_init"
  by (simp add: conn_inv_def server_init_def SLIST_INIT_def)

lemma inj_on_minus_image:
  "inj_on f A \<Longrightarrow> B \<subseteq> A \<Longrightarrow> f ` A - f ` B = f ` (A - B)"
  by (auto simp: inj_on_def)

lemma reap_inv:
  fixes s :: server
  assumes inv: "conn_inv xs s"
  shows "\<exists>s'. reap s = Done s' \<and> conn_inv (filter (\<lambda>x. \<not> thread_complete (conn_at s x)) xs) s' \<and>
    qget (conns s') = qget (conns s) |` (- set (filter (\<lambda>x. thread_complete (conn_at s x)) xs)) \<and>
    joined s' = joined s @ map (\<lambda>x. thread (conn_at s x)) (filter (\<lambda>x. thread_complete (conn_at s x)) xs)"
proof -
  let ?done = "\<lambda>x. thread_complete (conn_at s x)" and ?fd = "\<lambda>x. acceptedfd (conn_at s x)"
  have l: "slist (conns s) (shead s) xs" and doms: "dom (conns s) = set xs"
    and fds: "open_fds s = ?fd ` set xs" and inj: "inj_on ?fd (set xs)"
    using inv by (auto simp: conn_inv_def)
  obtain s' where s': "reap s = Done s'" "slist (conns s') (shead s') (filter (\<lambda>x. \<not> ?done x) xs)"
    "qget (conns s') = qget (conns s) |` (- set (filter ?done xs))"
    "open_fds s' = open_fds s - ?fd ` set (filter ?done xs)"
    "joined s' = joined s @ map (\<lambda>x. thread (conn_at s x)) (filter ?done xs)"
    using reap_ok [OF l] by blast
  have same: "conn_at s' x = conn_at s x" if "\<not> ?done x" for x
    using that unfolding conn_at_def s'(3) by (simp add: restrict_map_def)
  have "set (filter ?done xs) \<subseteq> set xs" by auto
  then have "open_fds s' = ?fd ` (set xs - set (filter ?done xs))"
    unfolding s'(4) fds by (rule inj_on_minus_image [OF inj])
  also have "\<dots> = (\<lambda>x. acceptedfd (conn_at s' x)) ` set (filter (\<lambda>x. \<not> ?done x) xs)"
    by (rule image_cong) (auto simp: same)
  finally have "open_fds s' = (\<lambda>x. acceptedfd (conn_at s' x)) ` set (filter (\<lambda>x. \<not> ?done x) xs)" .
  moreover have "inj_on (\<lambda>x. acceptedfd (conn_at s' x)) (set (filter (\<lambda>x. \<not> ?done x) xs))"
    using inj by (auto simp: inj_on_def same)
  moreover have "dom (conns s') = set (filter (\<lambda>x. \<not> ?done x) xs)"
    using arg_cong [OF s'(3), of dom] doms by (auto simp: dom_qget)
  ultimately have "conn_inv (filter (\<lambda>x. \<not> ?done x) xs) s'"
    using s'(2) by (simp add: conn_inv_def)
  with s' show ?thesis by blast
qed

lemma serve_connection_ok:
  fixes s :: server
  assumes inv: "conn_inv xs s" and fd: "0 \<le> fd" "fd \<notin> open_fds s" and p: "p \<noteq> 0" "p \<notin> dom (conns s)"
  shows "\<exists>s'. serve_connection fd p tid s = Done (Inr s') \<and>
    conn_inv (p # filter (\<lambda>x. \<not> thread_complete (conn_at s x)) xs) s' \<and>
    qget (conns s') = (qget (conns s) |` (- set (filter (\<lambda>x. thread_complete (conn_at s x)) xs)))
      (p \<mapsto> \<lparr>acceptedfd = fd, thread = tid, thread_complete = False\<rparr>) \<and>
    joined s' = joined s @ map (\<lambda>x. thread (conn_at s x)) (filter (\<lambda>x. thread_complete (conn_at s x)) xs)"
proof -
  let ?d = "\<lparr>acceptedfd = fd, thread = tid, thread_complete = False\<rparr>"
  have l: "slist (conns s) (shead s) xs" and doms: "dom (conns s) = set xs"
    and fds: "open_fds s = (\<lambda>x. acceptedfd (conn_at s x)) ` set xs"
    and inj: "inj_on (\<lambda>x. acceptedfd (conn_at s x)) (set xs)"
    using inv by (auto simp: conn_inv_def)
  have new: "p \<notin> set xs" using p(2) doms by simp
  obtain m where m: "SLIST_INSERT_HEAD (qalloc (conns s) p ?d) (shead s) p = Done (m, p)" "slist m p (p # xs)"
    "qget m = (qget (conns s))(p \<mapsto> ?d)"
    using slist.add_node [OF l p(1) new] by blast
  define t where "t = s\<lparr>open_fds := insert fd (open_fds s), conns := m, shead := p\<rparr>"
  have at: "conn_at t x = (if x = p then ?d else conn_at s x)" for x
    by (simp add: t_def conn_at_def m(3))
  have "dom m = set (p # xs)"
    using arg_cong [OF m(3), of dom] doms by (simp add: dom_qget)
  moreover have "open_fds t = (\<lambda>x. acceptedfd (conn_at t x)) ` set (p # xs)"
  proof -
    have "open_fds t = insert fd (open_fds s)" by (simp add: t_def)
    moreover have "(\<lambda>x. acceptedfd (conn_at t x)) ` set xs = (\<lambda>x. acceptedfd (conn_at s x)) ` set xs"
      using new by (intro image_cong) (auto simp: at)
    ultimately show ?thesis by (simp add: at fds)
  qed
  moreover have "inj_on (\<lambda>x. acceptedfd (conn_at t x)) (set (p # xs))"
    using new inj fd(2) fds by (auto simp: at inj_on_def)
  ultimately have "conn_inv (p # xs) t"
    using m(2) by (simp add: conn_inv_def t_def)
  from reap_inv [OF this] obtain s' where s': "reap t = Done s'"
    "conn_inv (filter (\<lambda>x. \<not> thread_complete (conn_at t x)) (p # xs)) s'"
    "qget (conns s') = qget m |` (- set (filter (\<lambda>x. thread_complete (conn_at t x)) (p # xs)))"
    "joined s' = joined s @ map (\<lambda>x. thread (conn_at t x)) (filter (\<lambda>x. thread_complete (conn_at t x)) (p # xs))"
    by (auto simp: t_def)
  have filt: "filter (\<lambda>x. thread_complete (conn_at t x)) (p # xs) = filter (\<lambda>x. thread_complete (conn_at s x)) xs"
    "filter (\<lambda>x. \<not> thread_complete (conn_at t x)) (p # xs) = p # filter (\<lambda>x. \<not> thread_complete (conn_at s x)) xs"
    using new by (auto simp: at intro!: filter_cong)
  have "map (\<lambda>x. thread (conn_at t x)) (filter (\<lambda>x. thread_complete (conn_at s x)) xs)
      = map (\<lambda>x. thread (conn_at s x)) (filter (\<lambda>x. thread_complete (conn_at s x)) xs)"
    using new by (auto simp: at)
  moreover have "qget (conns s') = (qget (conns s) |` (- set (filter (\<lambda>x. thread_complete (conn_at s x)) xs)))(p \<mapsto> ?d)"
    using new unfolding s'(3) filt(1) m(3) by (auto simp: restrict_map_def fun_eq_iff)
  moreover have "serve_connection fd p tid s = Done (Inr s')"
    using fd(1) p(1) m(1) s'(1) by (simp add: serve_connection_def t_def Let_def)
  ultimately show ?thesis
    using s'(2,4) unfolding filt by auto
qed

lemma complete_inv:
  fixes s :: server
  assumes inv: "conn_inv xs s" and "x \<in> set xs"
  shows "\<exists>s'. complete x s = Done s' \<and> conn_inv xs s' \<and>
    qget (conns s') = (qget (conns s))(x \<mapsto> (conn_at s x)\<lparr>thread_complete := True\<rparr>)"
proof -
  obtain n where n: "conns s x = Some n"
    using assms by (auto simp: conn_inv_def)
  define s' where "s' = s\<lparr>conns := (conns s)(x \<mapsto> n\<lparr>qdata := (qdata n)\<lparr>thread_complete := True\<rparr>\<rparr>)\<rparr>"
  have at: "conn_at s' y = (if y = x then (conn_at s x)\<lparr>thread_complete := True\<rparr> else conn_at s y)" for y
    by (simp add: s'_def conn_at_def qget_def n)
  have "acceptedfd (conn_at s' y) = acceptedfd (conn_at s y)" for y
    by (simp add: at)
  then have "conn_inv xs s'"
    using inv n by (auto simp: conn_inv_def s'_def)
  moreover have "qget (conns s') = (qget (conns s))(x \<mapsto> (conn_at s x)\<lparr>thread_complete := True\<rparr>)"
    by (simp add: s'_def qget_def conn_at_def n fun_eq_iff)
  moreover have "complete x s = Done s'"
    by (simp add: complete_def n s'_def)
  ultimately show ?thesis by blast
qed

lemma drain_ok:
  fixes s :: server
  shows "slist (conns s) (shead s) xs \<Longrightarrow> dom (conns s) = set xs \<Longrightarrow>
    \<exists>s'. drain s = Some (Done s') \<and> SLIST_EMPTY (shead s') \<and> conns s' = Map.empty \<and>
      joined s' = joined s @ map (\<lambda>x. thread (conn_at s x)) xs"
proof (induction xs arbitrary: s)
  case Nil
  then show ?case by (subst drain.simps) (simp add: SLIST_EMPTY_def)
next
  case (Cons x xs)
  then obtain n where n: "shead s = x" "x \<noteq> 0" "conns s x = Some n" "slist (conns s) (sle_next n) xs" by auto
  have new: "x \<notin> set xs"
    using slist_distinct [OF Cons.prems(1)] by simp
  define t where "t = s\<lparr>joined := joined s @ [thread (qdata n)], shead := sle_next n, conns := qfree (conns s) x\<rparr>"
  have "slist (conns t) (shead t) xs" and "dom (conns t) = set xs"
    using n new Cons.prems(2) by (auto simp: t_def qfree_def)
  from Cons.IH [OF this] obtain s' where s': "drain t = Some (Done s')" "SLIST_EMPTY (shead s')"
    "conns s' = Map.empty" "joined s' = joined t @ map (\<lambda>x. thread (conn_at t x)) xs" by blast
  have "map (\<lambda>x. thread (conn_at t x)) xs = map (\<lambda>x. thread (conn_at s x)) xs"
    using new by (auto simp: t_def conn_at_def qfree_def qget_def)
  then have "joined s' = joined s @ map (\<lambda>x. thread (conn_at s x)) (x # xs)"
    using s'(4) n(3) by (simp add: t_def conn_at_def qget_def)
  moreover have "drain s = drain t"
    using n by (subst drain.simps)
      (simp add: SLIST_EMPTY_def SLIST_FIRST_def SLIST_REMOVE_HEAD_def SLIST_NEXT_def Let_def t_def)
  ultimately show ?case using s'(1-3) by metis
qed

section \<open>Everything the server does to the list\<close>

inductive server_step :: "server \<Rightarrow> server \<Rightarrow> bool" where
  serve: "fd \<notin> open_fds s \<Longrightarrow> p \<notin> dom (conns s) \<Longrightarrow> serve_connection fd p tid s = Done (Inr s') \<Longrightarrow>
    server_step s s'"
| finish: "x \<in> dom (conns s) \<Longrightarrow> complete x s = Done s' \<Longrightarrow> server_step s s'"

inductive server_reachable :: "server \<Rightarrow> bool" where
  start: "server_reachable server_init"
| step: "server_reachable s \<Longrightarrow> server_step s s' \<Longrightarrow> server_reachable s'"

lemma server_reachable_inv: "server_reachable s \<Longrightarrow> \<exists>xs. conn_inv xs s"
proof (induction rule: server_reachable.induct)
  case start
  then show ?case using conn_inv_init by blast
next
  case (step s s')
  then obtain xs where inv: "conn_inv xs s" by blast
  from step.hyps(2) show ?case
  proof cases
    case (serve fd p tid)
    then have "0 \<le> fd" and "p \<noteq> 0"
      by (auto simp: serve_connection_def split: if_splits)
    with serve_connection_ok [OF inv _ serve(1) _ serve(2), of tid] serve(3) show ?thesis by auto
  next
    case (finish x)
    then have "x \<in> set xs" using inv by (simp add: conn_inv_def)
    with complete_inv [OF inv this] finish(2) show ?thesis by auto
  qed
qed

section \<open>Starting and stopping\<close>

text \<open>The answers of the calls \<open>main\<close> makes before its loop; \<open>servinfo\<close> says whether \<open>getaddrinfo\<close> set the
  address list.\<close>

record net_answers =
  getaddrinfo_rc :: int
  servinfo :: bool
  socket_rc :: int
  setsockopt_rc :: int
  bind_rc :: int
  fork_rc :: int
  listen_rc :: int

text \<open>\<open>Returns\<close> and \<open>Exits\<close> end the process; \<open>Listening d\<close> enters the loop, in the background if \<open>d\<close>. The
  timer thread is not started: \<open>USE_AESD_CHAR_DEVICE\<close> is 1.\<close>

datatype startup = Returns int | Exits int | Listening bool server

definition main_setup :: "string list \<Rightarrow> net_answers \<Rightarrow> startup outcome" where
  "main_setup argv net =
     (let daemon_mode = (length argv = 2 \<and> argv ! 1 = ''-d'')
      in if \<not> servinfo net then Fault
         else if socket_rc net = - 1 then Done (Returns (- 1))
         else if bind_rc net < 0 then Done (Returns (- 1))
         else if daemon_mode \<and> bind_rc net = 0 \<and> 0 < fork_rc net then Done (Exits 0)
         else if listen_rc net < 0 then Done (Returns (- 1))
         else Done (Listening (daemon_mode \<and> bind_rc net = 0) server_init))"

text \<open>The loop on a sequence of accepted connections, with the threads that complete between two of them.
  A sequence that ends is an \<open>accept\<close> that does not answer: the state in which the server waits.\<close>

datatype event = Accepted int nptr nat | Completed nptr

fun main_loop :: "event list \<Rightarrow> server \<Rightarrow> (int + server) outcome" where
  "main_loop [] s = Done (Inr s)"
| "main_loop (Accepted fd p tid # evs) s =
     and_then (serve_connection fd p tid s) (\<lambda>r.
       case r of Inl rc \<Rightarrow> Done (Inl rc) | Inr s \<Rightarrow> main_loop evs s)"
| "main_loop (Completed x # evs) s = and_then (complete x s) (main_loop evs)"

definition sig_handler :: "int \<Rightarrow> server \<Rightarrow> (int \<times> server) outcome" where
  "sig_handler signum s = and_then (returns (drain s)) (\<lambda>s. Done (signum, s))"

text \<open>The events the environment can produce in a state: \<open>accept\<close> answers an error or a descriptor not in
  use, \<open>malloc\<close> a live address not in use, and a thread completes the node it was given.\<close>

fun possible :: "server \<Rightarrow> event \<Rightarrow> bool" where
  "possible s (Accepted fd p tid) \<longleftrightarrow> fd \<notin> open_fds s \<and> p \<noteq> 0 \<and> p \<notin> dom (conns s)"
| "possible s (Completed x) \<longleftrightarrow> x \<in> dom (conns s)"

fun possible_all :: "event list \<Rightarrow> server \<Rightarrow> bool" where
  "possible_all [] s = True"
| "possible_all (e # evs) s \<longleftrightarrow> possible s e \<and>
     (\<forall>s'. main_loop [e] s = Done (Inr s') \<longrightarrow> possible_all evs s')"

lemma main_loop_ok:
  fixes s :: server
  shows "conn_inv xs s \<Longrightarrow> possible_all evs s \<Longrightarrow>
    (\<exists>s' ys. main_loop evs s = Done (Inr s') \<and> conn_inv ys s') \<or> main_loop evs s = Done (Inl (- 1))"
proof (induction evs arbitrary: s xs)
  case (Cons e evs)
  show ?case
  proof (cases e)
    case (Completed x)
    then have "x \<in> set xs" using Cons.prems by (simp add: conn_inv_def)
    from complete_inv [OF Cons.prems(1) this] obtain s1 where s1: "complete x s = Done s1" "conn_inv xs s1" by blast
    then have "possible_all evs s1" using Cons.prems(2) Completed by auto
    from Cons.IH [OF s1(2) this] s1(1) Completed show ?thesis by simp
  next
    case (Accepted fd p tid)
    show ?thesis
    proof (cases "fd < 0")
      case True
      with Accepted show ?thesis by (simp add: serve_connection_def)
    next
      case False
      then obtain s1 ys where s1: "serve_connection fd p tid s = Done (Inr s1)" "conn_inv ys s1"
        using serve_connection_ok [OF Cons.prems(1), of fd p tid] Cons.prems(2) Accepted by auto
      then have "possible_all evs s1" using Cons.prems(2) Accepted by auto
      from Cons.IH [OF s1(2) this] s1(1) Accepted show ?thesis by simp
    qed
  qed
qed auto

lemma sig_handler_ok:
  fixes s :: server
  assumes "conn_inv xs s"
  shows "\<exists>s'. sig_handler signum s = Done (signum, s') \<and> conns s' = Map.empty \<and> SLIST_EMPTY (shead s') \<and>
    joined s' = joined s @ map (\<lambda>x. thread (conn_at s x)) xs"
proof -
  have "slist (conns s) (shead s) xs" and "dom (conns s) = set xs"
    using assms by (simp_all add: conn_inv_def)
  from drain_ok [OF this] obtain s' where s': "drain s = Some (Done s')" "SLIST_EMPTY (shead s')"
    "conns s' = Map.empty" "joined s' = joined s @ map (\<lambda>x. thread (conn_at s x)) xs"
    by blast
  then show ?thesis by (simp add: sig_handler_def returns_def)
qed

end
