(* ===== verification/Signal_Points.thy ===== *)
theory Signal_Points
  imports Connection_List
begin

text \<open>
  A signal between any two statements of the accept loop of \<^verbatim>\<open>server/aesdsocket.c\<close>. The round of the
  loop is cut into its statements, those of \<^verbatim>\<open>SLIST_INSERT_HEAD\<close> included; \<^verbatim>\<open>SLIST_REMOVE\<close> makes a single
  store, so it is one. \<open>running\<close> are the threads that were created and not joined: \<^verbatim>\<open>pthread_join\<close> of any
  other value is undefined, here \<open>Fault\<close>. The code ignores the result of \<^verbatim>\<open>pthread_create\<close>; \<open>threadless\<close>
  are the nodes for which it failed, and no function reads it.
\<close>

section \<open>The loop, statement by statement\<close>

record live_server =
  srv :: server
  running :: "nat set"
  threadless :: "nptr set"

text \<open>What is to be executed next, with the local variables \<open>acceptedfd\<close>, \<open>datap\<close> and \<open>np_temp\<close> that are
  still used.\<close>

datatype point =
    At_accept
  | At_malloc int
  | At_insert nptr
  | At_insert_head nptr
  | At_create nptr
  | At_foreach nptr
  | At_close nptr nptr
  | At_join nptr nptr
  | At_remove nptr nptr
  | At_free nptr nptr
  | Left int

text \<open>The environment's answers: of \<open>accept\<close>, of \<open>malloc\<close> with what the block holds where \<open>thread\<close> will be,
  and of \<open>pthread_create\<close>, which stores a value also when it fails, then any.\<close>

record answers =
  new_fd :: int
  new_ptr :: nptr
  garbage :: nat
  new_tid :: nat
  created :: bool

definition pthread_join :: "nat \<Rightarrow> nat set \<Rightarrow> nat set outcome" where
  "pthread_join t R = (if t \<in> R then Done (R - {t}) else Fault)"

definition set_data :: "nptr \<Rightarrow> (slist_data_s \<Rightarrow> slist_data_s) \<Rightarrow> server \<Rightarrow> server outcome" where
  "set_data p f s = (case conns s p of None \<Rightarrow> Fault
     | Some n \<Rightarrow> Done (s\<lparr>conns := (conns s)(p \<mapsto> n\<lparr>qdata := f (qdata n)\<rparr>)\<rparr>))"

fun main_stmt :: "answers \<Rightarrow> point \<Rightarrow> live_server \<Rightarrow> (point \<times> live_server) outcome" where
  "main_stmt a At_accept s =
     (if new_fd a < 0 then Done (Left (- 1), s)
      else Done (At_malloc (new_fd a), s\<lparr>srv := (srv s)\<lparr>open_fds := insert (new_fd a) (open_fds (srv s))\<rparr>\<rparr>))"
| "main_stmt a (At_malloc fd) s =
     (if new_ptr a = 0 then Fault
      else Done (At_insert (new_ptr a), s\<lparr>srv := (srv s)\<lparr>conns :=
        qalloc (conns (srv s)) (new_ptr a) \<lparr>acceptedfd = fd, thread = garbage a, thread_complete = False\<rparr>\<rparr>\<rparr>))"
| "main_stmt a (At_insert p) s =
     and_then (set_next (conns (srv s)) p (SLIST_FIRST (shead (srv s)))) (\<lambda>m.
       Done (At_insert_head p, s\<lparr>srv := (srv s)\<lparr>conns := m\<rparr>\<rparr>))"
| "main_stmt a (At_insert_head p) s = Done (At_create p, s\<lparr>srv := (srv s)\<lparr>shead := p\<rparr>\<rparr>)"
| "main_stmt a (At_create p) s =
     and_then (set_data p (\<lambda>d. d\<lparr>thread := new_tid a\<rparr>) (srv s)) (\<lambda>t.
       Done (At_foreach (SLIST_FIRST (shead t)),
         if created a then s\<lparr>srv := t, running := insert (new_tid a) (running s)\<rparr>
         else s\<lparr>srv := t, threadless := insert p (threadless s)\<rparr>))"
| "main_stmt a (At_foreach datap) s =
     (if datap = 0 then Done (At_accept, s)
      else and_then (SLIST_NEXT (conns (srv s)) datap) (\<lambda>np_temp.
        if thread_complete (conn_at (srv s) datap) then Done (At_close datap np_temp, s)
        else Done (At_foreach np_temp, s)))"
| "main_stmt a (At_close datap np_temp) s =
     Done (At_join datap np_temp,
       s\<lparr>srv := (srv s)\<lparr>open_fds := open_fds (srv s) - {acceptedfd (conn_at (srv s) datap)}\<rparr>\<rparr>)"
| "main_stmt a (At_join datap np_temp) s =
     (let t = thread (conn_at (srv s) datap)
      in and_then (pthread_join t (running s)) (\<lambda>R.
        Done (At_remove datap np_temp, s\<lparr>srv := (srv s)\<lparr>joined := joined (srv s) @ [t]\<rparr>, running := R\<rparr>)))"
| "main_stmt a (At_remove datap np_temp) s =
     and_then (SLIST_REMOVE (conns (srv s)) (shead (srv s)) datap) (\<lambda>(m, h).
       Done (At_free datap np_temp, s\<lparr>srv := (srv s)\<lparr>conns := m, shead := h\<rparr>\<rparr>))"
| "main_stmt a (At_free datap np_temp) s =
     Done (At_foreach np_temp, s\<lparr>srv := (srv s)\<lparr>conns := qfree (conns (srv s)) datap\<rparr>\<rparr>)"
| "main_stmt a (Left rc) s = Done (Left rc, s)"

section \<open>The handler\<close>

text \<open>\<open>drain\<close> with the joins it makes checked.\<close>

partial_function (option) drain_joined :: "nat set \<Rightarrow> server \<Rightarrow> (nat set \<times> server) outcome option" where
  "drain_joined R s =
     (if SLIST_EMPTY (shead s) then Some (Done (R, s))
      else
        (let datap = SLIST_FIRST (shead s)
         in case conns s datap of
              None \<Rightarrow> Some Fault
            | Some n \<Rightarrow>
                (case pthread_join (thread (qdata n)) R of
                   Done R \<Rightarrow>
                     (case SLIST_REMOVE_HEAD (conns s) (shead s) of
                        Done h \<Rightarrow>
                          drain_joined R (s\<lparr>joined := joined s @ [thread (qdata n)], shead := h,
                                            conns := qfree (conns s) datap\<rparr>)
                      | Fault \<Rightarrow> Some Fault | Hang \<Rightarrow> Some Hang)
                 | Fault \<Rightarrow> Some Fault | Hang \<Rightarrow> Some Hang)))"

text \<open>The handler as it leaves the server once every thread has completed: here \<^verbatim>\<open>pthread_join\<close> does not wait. The
  statements in \<open>Signal_Handler\<close> (\<open>sig_stmt\<close>) do, and a thread that never completes keeps them waiting.\<close>

definition sig_handler_at :: "int \<Rightarrow> live_server \<Rightarrow> (int \<times> live_server) outcome" where
  "sig_handler_at signum s =
     and_then (returns (drain_joined (running s) (srv s))) (\<lambda>(R, t). Done (signum, s\<lparr>srv := t, running := R\<rparr>))"

abbreviation thread_at :: "server \<Rightarrow> nptr \<Rightarrow> nat" where
  "thread_at s x \<equiv> thread (conn_at s x)"

lemma drain_joined_list:
  "slist (conns s) (shead s) xs \<Longrightarrow>
    if distinct (map (thread_at s) xs) \<and> set (map (thread_at s) xs) \<subseteq> R
    then \<exists>s'. drain_joined R s = Some (Done (R - set (map (thread_at s) xs), s')) \<and> SLIST_EMPTY (shead s') \<and>
      joined s' = joined s @ map (thread_at s) xs
    else drain_joined R s = Some Fault"
proof (induction xs arbitrary: R s)
  case Nil
  then show ?case by (subst drain_joined.simps) (simp add: SLIST_EMPTY_def)
next
  case (Cons x xs)
  then obtain n where n: "shead s = x" "x \<noteq> 0" "conns s x = Some n" "slist (conns s) (sle_next n) xs" by auto
  have new: "x \<notin> set xs"
    using slist_distinct [OF Cons.prems] by simp
  have x: "thread_at s x = thread (qdata n)"
    using n(3) by (simp add: conn_at_def qget_def)
  define t where "t = s\<lparr>joined := joined s @ [thread (qdata n)], shead := sle_next n, conns := qfree (conns s) x\<rparr>"
  have l: "slist (conns t) (shead t) xs" and j: "joined t = joined s @ [thread (qdata n)]"
    using n new by (simp_all add: t_def qfree_def)
  have same: "map (thread_at t) xs = map (thread_at s) xs"
    using new by (auto simp: t_def conn_at_def qfree_def qget_def)
  have unfold: "drain_joined R s = (if thread (qdata n) \<in> R then drain_joined (R - {thread (qdata n)}) t else Some Fault)"
    using n by (subst drain_joined.simps)
      (simp add: SLIST_EMPTY_def SLIST_FIRST_def SLIST_REMOVE_HEAD_def SLIST_NEXT_def pthread_join_def Let_def t_def)
  let ?T = "map (thread_at s) xs" and ?t = "thread (qdata n)"
  note IH = Cons.IH [OF l, of "R - {?t}", unfolded same j]
  have cond: "distinct (map (thread_at s) (x # xs)) \<and> set (map (thread_at s) (x # xs)) \<subseteq> R \<longleftrightarrow>
      ?t \<in> R \<and> distinct ?T \<and> set ?T \<subseteq> R - {?t}"
    by (simp only: list.map distinct.simps list.set x) blast
  have rest: "R - set (map (thread_at s) (x # xs)) = R - {?t} - set ?T"
    by (simp only: list.map list.set x) blast
  show ?case
  proof (cases "?t \<in> R \<and> distinct ?T \<and> set ?T \<subseteq> R - {?t}")
    case True
    then obtain s' where "drain_joined (R - {?t}) t = Some (Done (R - {?t} - set ?T, s'))" "SLIST_EMPTY (shead s')"
        "joined s' = (joined s @ [?t]) @ ?T"
      using IH by auto
    then show ?thesis
      unfolding if_P [OF True [folded cond]] rest unfold using True x by auto
  next
    case False
    then have "drain_joined R s = Some Fault"
      using IH unfolding unfold by auto
    then show ?thesis
      unfolding if_not_P [OF False [folded cond]] .
  qed
qed

lemma handler_list:
  assumes "slist (conns (srv s)) (shead (srv s)) xs"
  shows "sig_handler_at signum s = Fault \<longleftrightarrow>
      \<not> (distinct (map (thread_at (srv s)) xs) \<and> set (map (thread_at (srv s)) xs) \<subseteq> running s)"
    and "distinct (map (thread_at (srv s)) xs) \<Longrightarrow> set (map (thread_at (srv s)) xs) \<subseteq> running s \<Longrightarrow>
      \<exists>s'. sig_handler_at signum s = Done (signum, s') \<and> running s' = running s - set (map (thread_at (srv s)) xs) \<and>
        joined (srv s') = joined (srv s) @ map (thread_at (srv s)) xs"
  using drain_joined_list [OF assms, of "running s"]
  by (auto simp: sig_handler_at_def returns_def split: if_splits)


section \<open>What holds at each point\<close>

definition owned :: "nptr list \<Rightarrow> nptr set \<Rightarrow> server \<Rightarrow> bool" where
  "owned xs extra s \<longleftrightarrow> slist (conns s) (shead s) xs \<and> dom (conns s) = set xs \<union> extra"

text \<open>The threads of the nodes \<open>xs\<close> are the running ones, one each, but for the nodes that have none; these
  stay in the list and are never complete.\<close>

definition alive :: "nptr list \<Rightarrow> live_server \<Rightarrow> bool" where
  "alive xs s \<longleftrightarrow> inj_on (thread_at (srv s)) (set xs - threadless s) \<and>
     thread_at (srv s) ` (set xs - threadless s) = running s \<and> threadless s \<subseteq> set xs \<and>
     (\<forall>x\<in>threadless s. \<not> thread_complete (conn_at (srv s) x))"

fun point_inv :: "point \<Rightarrow> nptr list \<Rightarrow> live_server \<Rightarrow> bool" where
  "point_inv (At_insert p) xs s \<longleftrightarrow> owned xs {p} (srv s) \<and> p \<noteq> 0 \<and> p \<notin> set xs \<and> alive xs s \<and>
     \<not> thread_complete (conn_at (srv s) p)"
| "point_inv (At_insert_head p) xs s \<longleftrightarrow>
     owned xs {p} (srv s) \<and> slist (conns (srv s)) p (p # xs) \<and> alive xs s \<and>
     \<not> thread_complete (conn_at (srv s) p)"
| "point_inv (At_create p) xs s \<longleftrightarrow> owned xs {} (srv s) \<and> (\<exists>ys. xs = p # ys \<and> alive ys s) \<and>
     \<not> thread_complete (conn_at (srv s) p)"
| "point_inv (At_foreach x) xs s \<longleftrightarrow> owned xs {} (srv s) \<and> alive xs s \<and> (x = 0 \<or> x \<in> set xs)"
| "point_inv (At_close x np) xs s \<longleftrightarrow>
     owned xs {} (srv s) \<and> alive xs s \<and> x \<in> set xs - threadless s \<and> (np = 0 \<or> np \<in> set xs - {x})"
| "point_inv (At_join x np) xs s \<longleftrightarrow>
     owned xs {} (srv s) \<and> alive xs s \<and> x \<in> set xs - threadless s \<and> (np = 0 \<or> np \<in> set xs - {x})"
| "point_inv (At_remove x np) xs s \<longleftrightarrow>
     owned xs {} (srv s) \<and> alive (remove1 x xs) s \<and> thread_at (srv s) x \<notin> running s \<and>
     x \<in> set xs \<and> (np = 0 \<or> np \<in> set xs - {x})"
| "point_inv (At_free x np) xs s \<longleftrightarrow>
     owned xs {x} (srv s) \<and> alive xs s \<and> x \<notin> set xs \<and> (np = 0 \<or> np \<in> set xs)"
| "point_inv pt xs s \<longleftrightarrow> owned xs {} (srv s) \<and> alive xs s"

lemma alive_cong:
  assumes "\<And>x. x \<in> set xs \<Longrightarrow> thread_at (srv s') x = thread_at (srv s) x"
    and "\<And>x. x \<in> set xs \<Longrightarrow> x \<in> threadless s \<Longrightarrow>
      thread_complete (conn_at (srv s') x) = thread_complete (conn_at (srv s) x)"
    and "running s' = running s" and "threadless s' = threadless s"
  shows "alive xs s' = alive xs s"
proof -
  have "inj_on (thread_at (srv s')) (set xs - threadless s) = inj_on (thread_at (srv s)) (set xs - threadless s)"
    by (rule inj_on_cong) (simp add: assms(1))
  moreover have "thread_at (srv s') ` (set xs - threadless s) = thread_at (srv s) ` (set xs - threadless s)"
    by (rule image_cong) (simp_all add: assms(1))
  ultimately show ?thesis
    using assms(2-4) by (auto simp: alive_def)
qed

definition possible_answers :: "answers \<Rightarrow> live_server \<Rightarrow> bool" where
  "possible_answers a s \<longleftrightarrow> new_ptr a \<notin> dom (conns (srv s)) \<and> (created a \<longrightarrow> new_tid a \<notin> running s)"

lemma insert_stmts_inv:
  shows "point_inv (At_malloc fd) xs s \<Longrightarrow> possible_answers a s \<Longrightarrow> main_stmt a (At_malloc fd) s = Done (pt', s') \<Longrightarrow>
      point_inv pt' xs s'"
    and "point_inv (At_insert p) xs s \<Longrightarrow> main_stmt a (At_insert p) s = Done (pt', s') \<Longrightarrow> point_inv pt' xs s'"
    and "point_inv (At_insert_head p) xs s \<Longrightarrow> main_stmt a (At_insert_head p) s = Done (pt', s') \<Longrightarrow>
      point_inv pt' (p # xs) s'"
proof -
  assume *: "point_inv (At_malloc fd) xs s" "possible_answers a s" "main_stmt a (At_malloc fd) s = Done (pt', s')"
  then have new: "new_ptr a \<noteq> 0" "new_ptr a \<notin> set xs" "pt' = At_insert (new_ptr a)"
    by (auto simp: possible_answers_def owned_def split: if_splits)
  moreover have "alive xs s' = alive xs s"
    by (rule alive_cong) (use * new in \<open>auto simp: conn_at_def qget_def qalloc_def split: if_splits\<close>)
  ultimately show "point_inv pt' xs s'"
    using * by (clarsimp simp: owned_def qalloc_def conn_at_def qget_def split: if_splits)
next
  assume *: "point_inv (At_insert p) xs s" "main_stmt a (At_insert p) s = Done (pt', s')"
  then obtain n where n: "conns (srv s) p = Some n" by (auto simp: owned_def)
  let ?t = "(srv s)\<lparr>conns := (conns (srv s))(p \<mapsto> n\<lparr>sle_next := shead (srv s)\<rparr>)\<rparr>"
  have s': "pt' = At_insert_head p" "s' = s\<lparr>srv := ?t\<rparr>"
    using * n by (auto simp: set_next_def SLIST_FIRST_def)
  moreover have "alive xs s' = alive xs s"
    by (rule alive_cong) (simp_all add: s' conn_at_def qget_def n)
  moreover have "thread_complete (conn_at ?t p) = thread_complete (conn_at (srv s) p)"
    by (simp add: conn_at_def qget_def n)
  ultimately show "point_inv pt' xs s'"
    using * by (auto simp: owned_def)
next
  assume *: "point_inv (At_insert_head p) xs s" "main_stmt a (At_insert_head p) s = Done (pt', s')"
  then have "alive xs s' = alive xs s"
    by (intro alive_cong) (auto simp: conn_at_def)
  with * show "point_inv pt' (p # xs) s'" by (auto simp: owned_def conn_at_def)
qed

lemma create_stmt_inv:
  assumes "point_inv (At_create p) xs s" and "possible_answers a s" and "main_stmt a (At_create p) s = Done (pt', s')"
  shows "point_inv pt' xs s'"
proof -
  obtain ys where xs: "xs = p # ys" "owned xs {} (srv s)" "alive ys s" using assms(1) by auto
  then obtain n where n: "conns (srv s) p = Some n" "p \<notin> set ys" "shead (srv s) = p"
    using slist_distinct [of "conns (srv s)" "shead (srv s)" xs] by (auto simp: owned_def)
  let ?t = "(srv s)\<lparr>conns := (conns (srv s))(p \<mapsto> n\<lparr>qdata := (qdata n)\<lparr>thread := new_tid a\<rparr>\<rparr>)\<rparr>"
  have s': "pt' = At_foreach p" "srv s' = ?t"
      "running s' = (if created a then insert (new_tid a) (running s) else running s)"
      "threadless s' = (if created a then threadless s else insert p (threadless s))"
    using assms(3) n by (auto simp: set_data_def SLIST_FIRST_def)
  have T: "thread_at ?t x = (if x = p then new_tid a else thread_at (srv s) x)"
      "thread_complete (conn_at ?t x) = thread_complete (conn_at (srv s) x)" for x
    by (simp_all add: conn_at_def qget_def n)
  have p: "p \<notin> threadless s" using xs(3) n(2) by (auto simp: alive_def)
  have "alive xs s'"
  proof (cases "created a")
    case True
    have set: "set xs - threadless s = insert p (set ys - threadless s)" using xs(1) p by auto
    have "inj_on (thread_at ?t) (set ys - threadless s)"
      using xs(3) n(2) by (auto simp: alive_def inj_on_def T)
    moreover have "thread_at ?t ` (set ys - threadless s) = running s"
      using xs(3) n(2) by (force simp: alive_def T)
    moreover have "new_tid a \<notin> running s" using True assms(2) by (simp add: possible_answers_def)
    ultimately have "inj_on (thread_at ?t) (set xs - threadless s)"
        "thread_at ?t ` (set xs - threadless s) = insert (new_tid a) (running s)"
      unfolding set using T(1) by (auto simp: inj_on_insert)
    with True xs(1,3) show ?thesis
      unfolding alive_def s' T(2) by auto
  next
    case False
    have set: "set xs - insert p (threadless s) = set ys - threadless s" using xs(1) n(2) by auto
    have "inj_on (thread_at ?t) (set ys - threadless s)"
      using xs(3) n(2) by (auto simp: alive_def inj_on_def T)
    moreover have "thread_at ?t ` (set ys - threadless s) = running s"
      using xs(3) n(2) by (force simp: alive_def T)
    ultimately show ?thesis
      using False xs(1,3) assms(1) unfolding alive_def s' T(2) if_not_P [OF False] set by auto
  qed
  moreover have "owned xs {} ?t"
    using xs(1,2) n by (auto simp: owned_def)
  ultimately show ?thesis using s' xs(1) by simp
qed

lemma reap_stmts_inv:
  shows "point_inv (At_foreach x) xs s \<Longrightarrow> main_stmt a (At_foreach x) s = Done (pt', s') \<Longrightarrow> point_inv pt' xs s'"
    and "point_inv (At_close x np) xs s \<Longrightarrow> main_stmt a (At_close x np) s = Done (pt', s') \<Longrightarrow> point_inv pt' xs s'"
    and "point_inv (At_join x np) xs s \<Longrightarrow> main_stmt a (At_join x np) s = Done (pt', s') \<Longrightarrow> point_inv pt' xs s'"
    and "point_inv (At_remove x np) xs s \<Longrightarrow> main_stmt a (At_remove x np) s = Done (pt', s') \<Longrightarrow>
      point_inv pt' (remove1 x xs) s'"
    and "point_inv (At_free x np) xs s \<Longrightarrow> main_stmt a (At_free x np) s = Done (pt', s') \<Longrightarrow> point_inv pt' xs s'"
proof -
  assume *: "point_inv (At_foreach x) xs s" "main_stmt a (At_foreach x) s = Done (pt', s')"
  show "point_inv pt' xs s'"
  proof (cases "x = 0")
    case False
    then obtain as bs where xs: "xs = as @ x # bs"
      using * split_list by fastforce
    then have l: "slist (conns (srv s)) (shead (srv s)) (as @ x # bs)" using * by (simp add: owned_def)
    have "first bs = 0 \<or> first bs \<in> set xs - {x}"
      using slist_distinct [OF l] xs by (cases bs) auto
    moreover have "SLIST_NEXT (conns (srv s)) x = Done (first bs)"
      by (rule slist.list_link [OF l])
    moreover have "x \<notin> threadless s" if "thread_complete (conn_at (srv s) x)"
      using * that by (auto simp: alive_def)
    ultimately show ?thesis
      using * False by (auto split: if_splits)
  qed (use * in auto)
next
  assume *: "point_inv (At_close x np) xs s" "main_stmt a (At_close x np) s = Done (pt', s')"
  then have "alive xs s' = alive xs s"
    by (intro alive_cong) (auto simp: conn_at_def)
  with * show "point_inv pt' xs s'" by (auto simp: owned_def)
next
  assume *: "point_inv (At_join x np) xs s" "main_stmt a (At_join x np) s = Done (pt', s')"
  let ?T = "thread_at (srv s)"
  have s': "pt' = At_remove x np" "running s' = running s - {?T x}" "conns (srv s') = conns (srv s)" "shead (srv s') = shead (srv s)"
      "threadless s' = threadless s"
    using * by (auto simp: Let_def pthread_join_def split: if_splits)
  have T: "thread_at (srv s') y = ?T y" for y by (simp add: conn_at_def s'(3))
  have "distinct xs" using * slist_distinct by (auto simp: owned_def)
  then have set: "set (remove1 x xs) = set xs - {x}" by simp
  let ?A = "set xs - threadless s"
  have A: "inj_on ?T ?A" "?T ` ?A = running s" "x \<in> ?A" "threadless s \<subseteq> set xs - {x}"
      "\<forall>y\<in>threadless s. \<not> thread_complete (conn_at (srv s') y)"
    using *(1) by (auto simp: alive_def conn_at_def s'(3))
  have diff: "set xs - {x} - threadless s = ?A - {x}" by blast
  have "?T ` (?A - {x}) = running s - {?T x}"
    using inj_on_image_set_diff [OF A(1) Diff_subset, of "{x}"] A(2,3) by simp
  then have "alive (remove1 x xs) s'"
    using A(4,5) inj_on_subset [OF A(1) Diff_subset] unfolding alive_def s' T set diff by blast
  with * s' T show "point_inv pt' xs s'" by (simp add: owned_def)
next
  assume *: "point_inv (At_remove x np) xs s" "main_stmt a (At_remove x np) s = Done (pt', s')"
  then have l: "slist (conns (srv s)) (shead (srv s)) xs" and x: "x \<in> set xs" by (simp_all add: owned_def)
  obtain m h where m: "SLIST_REMOVE (conns (srv s)) (shead (srv s)) x = Done (m, h)" "slist m h (remove1 x xs)"
      "dom m = dom (conns (srv s))" "relinks (conns (srv s)) m (set xs)"
    using remove_slist [OF l x] by blast
  have dist: "distinct xs" using slist_distinct [OF l] .
  have "alive (remove1 x xs) s' = alive (remove1 x xs) s"
    by (rule alive_cong) (use * m in \<open>auto simp: conn_at_def qget_def relinks_def\<close>)
  with * m dist show "point_inv pt' (remove1 x xs) s'" by (auto simp: owned_def)
next
  assume *: "point_inv (At_free x np) xs s" "main_stmt a (At_free x np) s = Done (pt', s')"
  have "alive xs s' = alive xs s"
    by (rule alive_cong) (use * in \<open>auto simp: conn_at_def qget_def qfree_def split: if_splits\<close>)
  with * show "point_inv pt' xs s'" by (auto simp: owned_def qfree_def)
qed


lemma main_stmt_inv:
  assumes "point_inv pt xs s" and "possible_answers a s" and "main_stmt a pt s = Done (pt', s')"
  shows "\<exists>ys. point_inv pt' ys s'"
proof (cases pt)
  case At_accept
  with assms have "alive xs s' = alive xs s"
    by (intro alive_cong) (auto simp: conn_at_def split: if_splits)
  with At_accept assms have "point_inv pt' xs s'"
    by (auto simp: owned_def split: if_splits)
  then show ?thesis by blast
next
  case (At_malloc fd)
  with assms insert_stmts_inv(1) show ?thesis by blast
next
  case (At_insert p)
  with assms insert_stmts_inv(2) show ?thesis by blast
next
  case (At_insert_head p)
  with assms insert_stmts_inv(3) show ?thesis by blast
next
  case (At_create p)
  with assms create_stmt_inv show ?thesis by blast
next
  case (At_foreach x)
  with assms reap_stmts_inv(1) show ?thesis by blast
next
  case (At_close x np)
  with assms reap_stmts_inv(2) show ?thesis by blast
next
  case (At_join x np)
  with assms reap_stmts_inv(3) show ?thesis by blast
next
  case (At_remove x np)
  with assms reap_stmts_inv(4) show ?thesis by blast
next
  case (At_free x np)
  with assms reap_stmts_inv(5) show ?thesis by blast
next
  case (Left rc)
  with assms show ?thesis by auto
qed

section \<open>Every order of events\<close>

text \<open>The thread of a node can finish once it is created, if it ever is.\<close>

fun unstarted :: "point \<Rightarrow> nptr set" where
  "unstarted (At_insert p) = {p}"
| "unstarted (At_insert_head p) = {p}"
| "unstarted (At_create p) = {p}"
| "unstarted pt = {}"

inductive loop_reach :: "point \<Rightarrow> live_server \<Rightarrow> bool" where
  start: "loop_reach At_accept \<lparr>srv = server_init, running = {}, threadless = {}\<rparr>"
| main: "loop_reach pt s \<Longrightarrow> possible_answers a s \<Longrightarrow> main_stmt a pt s = Done (pt', s') \<Longrightarrow> loop_reach pt' s'"
| finish: "loop_reach pt s \<Longrightarrow> x \<in> dom (conns (srv s)) - unstarted pt - threadless s \<Longrightarrow> complete x (srv s) = Done t \<Longrightarrow>
    loop_reach pt (s\<lparr>srv := t\<rparr>)"

lemma finish_inv:
  assumes "point_inv pt xs s" and "complete x (srv s) = Done t" and "x \<notin> unstarted pt" and "x \<notin> threadless s"
  shows "point_inv pt xs (s\<lparr>srv := t\<rparr>)"
proof -
  obtain n where n: "conns (srv s) x = Some n"
      "t = (srv s)\<lparr>conns := (conns (srv s))(x \<mapsto> n\<lparr>qdata := (qdata n)\<lparr>thread_complete := True\<rparr>\<rparr>)\<rparr>"
    using assms(2) by (auto simp: complete_def split: option.splits)
  have T: "thread_at t y = thread_at (srv s) y" for y
    by (simp add: n conn_at_def qget_def)
  have C: "y \<noteq> x \<Longrightarrow> conn_at t y = conn_at (srv s) y" for y
    by (simp add: n conn_at_def qget_def)
  have "alive ys (s\<lparr>srv := t\<rparr>) = alive ys s" for ys
  proof (rule alive_cong)
    show "thread_complete (conn_at (srv (s\<lparr>srv := t\<rparr>)) y) = thread_complete (conn_at (srv s) y)"
      if "y \<in> threadless s" for y
      using C [of y] assms(4) that by (cases "y = x") simp_all
  qed (simp_all add: T)
  moreover have "owned xs E t = owned xs E (srv s)" for E
    using n(1) by (simp add: n(2) owned_def insert_absorb domI)
  moreover have "slist (conns t) p ys = slist (conns (srv s)) p ys" for p ys
    by (simp add: n)
  ultimately show ?thesis
    using assms(1,3) T C by (cases pt) (simp_all del: slist.simps)
qed

lemma loop_reach_inv: "loop_reach pt s \<Longrightarrow> \<exists>xs. point_inv pt xs s"
proof (induction rule: loop_reach.induct)
  case start
  have "point_inv At_accept [] \<lparr>srv = server_init, running = {}, threadless = {}\<rparr>"
    by (simp add: owned_def alive_def server_init_def SLIST_INIT_def)
  then show ?case by blast
next
  case (main pt s a pt' s')
  then show ?case using main_stmt_inv by blast
next
  case (finish pt s x t)
  then show ?case using finish_inv by blast
qed

text \<open>Two points where the handler joins a thread it must not: the new node is linked and its thread not
  yet created, or the finished thread is joined and its node still linked.\<close>

fun fatal :: "point \<Rightarrow> bool" where
  "fatal (At_create p) \<longleftrightarrow> True"
| "fatal (At_remove x np) \<longleftrightarrow> True"
| "fatal pt \<longleftrightarrow> False"

lemma fatal_points:
  assumes "point_inv pt xs s"
  shows "slist (conns (srv s)) (shead (srv s)) xs"
    and "distinct (map (thread_at (srv s)) xs) \<and> set (map (thread_at (srv s)) xs) \<subseteq> running s \<longleftrightarrow>
      \<not> fatal pt \<and> threadless s = {}"
    and "\<not> fatal pt \<Longrightarrow> alive xs s"
proof -
  show l: "slist (conns (srv s)) (shead (srv s)) xs"
    using assms by (cases pt) (auto simp: owned_def)
  show a: "alive xs s" if "\<not> fatal pt"
    using assms that by (cases pt) auto
  let ?T = "thread_at (srv s)" and ?D = "threadless s"
  have lone: False if "alive ys s" "x \<notin> set ys - ?D" "x \<in> set xs" "set ys \<subseteq> set xs"
      and L: "distinct (map ?T xs) \<and> set (map ?T xs) \<subseteq> running s" for x ys
  proof -
    have "?T x \<in> ?T ` (set ys - ?D)"
      using that(1,3) L unfolding alive_def by (simp add: image_subset_iff)
    then obtain y where y: "y \<in> set ys - ?D" "?T y = ?T x" by auto
    have "inj_on ?T (set xs)" using L by (simp add: distinct_map)
    from inj_onD [OF this y(2)] y(1) that(2-4) show False by blast
  qed
  show "distinct (map ?T xs) \<and> set (map ?T xs) \<subseteq> running s \<longleftrightarrow> \<not> fatal pt \<and> ?D = {}" (is "?L = ?R")
  proof
    assume ?L
    have "\<not> fatal pt"
    proof
      assume "fatal pt"
      then consider p where "pt = At_create p" | x np where "pt = At_remove x np"
        by (cases pt) auto
      then show False
      proof cases
        case 1
        then obtain ys where "xs = p # ys" "alive ys s" using assms by auto
        with lone [of ys p] \<open>?L\<close> slist_distinct [OF l] show False by simp blast
      next
        case 2
        then have "alive (remove1 x xs) s" "x \<in> set xs" using assms by simp_all
        from lone [OF this(1) _ this(2) set_remove1_subset \<open>?L\<close>] slist_distinct [OF l]
        show False by simp
      qed
    qed
    note al = a [OF this]
    have "x \<notin> ?D" for x
    proof
      assume "x \<in> ?D"
      then have "x \<in> set xs" using al by (auto simp: alive_def)
      from lone [OF al _ this subset_refl \<open>?L\<close>] \<open>x \<in> ?D\<close> show False by simp
    qed
    with \<open>\<not> fatal pt\<close> show ?R by blast
  next
    assume ?R
    with a slist_distinct [OF l] show ?L by (simp add: alive_def distinct_map)
  qed
qed

lemma signal_at:
  assumes "loop_reach pt s"
  shows "if fatal pt \<or> threadless s \<noteq> {} then sig_handler_at signum s = Fault
    else \<exists>s' ts. sig_handler_at signum s = Done (signum, s') \<and> running s' = {} \<and>
      joined (srv s') = joined (srv s) @ ts \<and> distinct ts \<and> set ts = running s"
proof -
  obtain xs where "point_inv pt xs s" using loop_reach_inv [OF assms] by blast
  note f = fatal_points [OF this]
  show ?thesis
  proof (cases "fatal pt \<or> threadless s \<noteq> {}")
    case True
    then show ?thesis using handler_list(1) [OF f(1), of signum] f(2) by auto
  next
    case False
    with f(2,3) have "distinct (map (thread_at (srv s)) xs)" "set (map (thread_at (srv s)) xs) = running s"
      by (auto simp: alive_def)
    with handler_list(2) [OF f(1), of signum] False show ?thesis by fastforce
  qed
qed

text \<open>A node whose thread could not be created is never removed.\<close>

lemma threadless_kept:
  assumes "loop_reach pt s" and "\<not> fatal pt"
  shows "\<exists>xs. slist (conns (srv s)) (shead (srv s)) xs \<and> threadless s \<subseteq> set xs"
  using loop_reach_inv [OF assms(1)] fatal_points assms(2) by (metis alive_def)

text \<open>The first connection: its node linked, its thread created, or not.\<close>

lemma first_connection:
  "\<exists>s t u. loop_reach (At_create 100) s \<and> threadless s = {} \<and> running s = {} \<and>
    loop_reach (At_foreach 100) t \<and> threadless t = {100} \<and>
    loop_reach (At_foreach 100) u \<and> threadless u = {} \<and> running u = {7} \<and> joined (srv u) = [] \<and>
    dom (conns (srv u)) = {100} \<and> shead (srv u) = 100"
proof -
  let ?a = "\<lparr>new_fd = 5, new_ptr = 100, garbage = 0, new_tid = 7, created = True\<rparr>"
  obtain s1 where s1: "loop_reach (At_malloc 5) s1" "conns (srv s1) = Map.empty" "running s1 = {}" "shead (srv s1) = 0"
      "threadless s1 = {}" "joined (srv s1) = []"
    using loop_reach.main [OF loop_reach.start, of ?a] by (auto simp: possible_answers_def server_init_def SLIST_INIT_def)
  obtain s2 where s2: "loop_reach (At_insert 100) s2" "dom (conns (srv s2)) = {100}" "running s2 = {}"
      "threadless s2 = {}" "joined (srv s2) = []"
    using loop_reach.main [OF s1(1), of ?a] s1(2-) by (auto simp: possible_answers_def qalloc_def)
  then obtain n where "conns (srv s2) 100 = Some n" by blast
  then obtain s3 where s3: "loop_reach (At_insert_head 100) s3" "dom (conns (srv s3)) = {100}" "running s3 = {}"
      "threadless s3 = {}" "joined (srv s3) = []"
    using loop_reach.main [OF s2(1), of "?a\<lparr>new_ptr := 1\<rparr>"] s2(2-)
    by (auto simp: possible_answers_def set_next_def)
  obtain s4 where s4: "loop_reach (At_create 100) s4" "dom (conns (srv s4)) = {100}" "running s4 = {}"
      "threadless s4 = {}" "joined (srv s4) = []" "shead (srv s4) = 100"
    using loop_reach.main [OF s3(1), of "?a\<lparr>new_ptr := 1\<rparr>"] s3(2-) by (auto simp: possible_answers_def)
  then obtain m where m: "conns (srv s4) 100 = Some m" by blast
  obtain t where t: "loop_reach (At_foreach 100) t" "threadless t = {100}"
    using loop_reach.main [OF s4(1), of "?a\<lparr>new_ptr := 1, created := False\<rparr>"] s4(2-) m
    by (auto simp: possible_answers_def set_data_def SLIST_FIRST_def)
  obtain u where u: "loop_reach (At_foreach 100) u" "threadless u = {}" "running u = {7}" "joined (srv u) = []"
      "dom (conns (srv u)) = {100}" "shead (srv u) = 100"
    using loop_reach.main [OF s4(1), of "?a\<lparr>new_ptr := 1\<rparr>"] s4(2-) m
    by (auto simp: possible_answers_def set_data_def SLIST_FIRST_def)
  with s4(1,3,4) t show ?thesis by blast
qed

end
