(* ===== verification/Signal_Handler.thy ===== *)
theory Signal_Handler
  imports Signal_Points
begin

text \<open>
  The signal handler of \<^verbatim>\<open>server/aesdsocket.c\<close> with all its statements, run at any point of the accept loop
  while the threads of the connections go on. The handler does not return to the loop: it exits. What
  it takes apart besides the list is the data file, the address list \<open>servinfo\<close> and the listening socket.
  \<^verbatim>\<open>pthread_join\<close> waits until its thread has completed. The other of the two signals can interrupt the
  handler; its own is blocked meanwhile.
\<close>

section \<open>Statements\<close>

text \<open>\<open>removable\<close> is the environment's answer to \<^verbatim>\<open>remove\<close> where the file exists.\<close>

record process =
  live :: live_server
  data_file :: bool
  removable :: bool
  addrinfo :: bool
  listening :: bool

datatype sig_point =
    Sig_remove
  | Sig_test
  | Sig_join nptr
  | Sig_unlink nptr
  | Sig_free nptr
  | Sig_addrinfo
  | Sig_shutdown
  | Sig_exit

definition with_srv :: "(server \<Rightarrow> server) \<Rightarrow> process \<Rightarrow> process" where
  "with_srv g q = q\<lparr>live := (live q)\<lparr>srv := g (srv (live q))\<rparr>\<rparr>"

definition remove_data :: "process \<Rightarrow> process" where
  "remove_data q = q\<lparr>data_file := data_file q \<and> \<not> removable q\<rparr>"

fun sig_stmt :: "sig_point \<Rightarrow> process \<Rightarrow> (sig_point \<times> process) outcome" where
  "sig_stmt Sig_remove q = Done (Sig_test, remove_data q)"
| "sig_stmt Sig_test q =
     (let head = shead (srv (live q))
      in Done (if SLIST_EMPTY head then Sig_addrinfo else Sig_join (SLIST_FIRST head), q))"
| "sig_stmt (Sig_join datap) q =
     (case conns (srv (live q)) datap of
        None \<Rightarrow> Fault
      | Some n \<Rightarrow> and_then (pthread_join (thread (qdata n)) (running (live q))) (\<lambda>R.
          Done (Sig_unlink datap,
            with_srv (\<lambda>s. s\<lparr>joined := joined s @ [thread (qdata n)]\<rparr>) (q\<lparr>live := (live q)\<lparr>running := R\<rparr>\<rparr>))))"
| "sig_stmt (Sig_unlink datap) q =
     and_then (SLIST_REMOVE_HEAD (conns (srv (live q))) (shead (srv (live q)))) (\<lambda>h.
       Done (Sig_free datap, with_srv (\<lambda>s. s\<lparr>shead := h\<rparr>) q))"
| "sig_stmt (Sig_free datap) q =
     (if conns (srv (live q)) datap = None then Fault
      else Done (Sig_test, with_srv (\<lambda>s. s\<lparr>conns := qfree (conns s) datap\<rparr>) q))"
| "sig_stmt Sig_addrinfo q = (if addrinfo q then Done (Sig_shutdown, q\<lparr>addrinfo := False\<rparr>) else Fault)"
| "sig_stmt Sig_shutdown q = Done (Sig_exit, q\<lparr>listening := False\<rparr>)"
| "sig_stmt Sig_exit q = Done (Sig_exit, q)"

text \<open>The statements in a row, nothing else going on, and the handler in one piece.\<close>

fun sig_run :: "nat \<Rightarrow> sig_point \<Rightarrow> process \<Rightarrow> process outcome" where
  "sig_run 0 p q = (if p = Sig_exit then Done q else Hang)"
| "sig_run (Suc n) p q = (if p = Sig_exit then Done q else and_then (sig_stmt p q) (\<lambda>(p, q). sig_run n p q))"

definition exit_handler :: "int \<Rightarrow> process \<Rightarrow> (int \<times> process) outcome" where
  "exit_handler signum q =
     and_then (sig_handler_at signum (live (remove_data q))) (\<lambda>(status, s).
       if addrinfo q then Done (status, (remove_data q)\<lparr>live := s, addrinfo := False, listening := False\<rparr>) else Fault)"

lemma and_then_if: "and_then (if b then x else y) f = (if b then and_then x f else and_then y f)"
  by simp

lemma sig_run_exit: "sig_run n Sig_exit q = Done q"
  by (cases n) simp_all

lemma sig_run_step: "p \<noteq> Sig_exit \<Longrightarrow> sig_run (Suc n) p q = and_then (sig_stmt p q) (\<lambda>(p, q). sig_run n p q)"
  by simp

lemma sig_run_drain:
  "slist (conns (srv (live q))) (shead (srv (live q))) xs \<Longrightarrow>
    sig_run (4 * length xs + 3 + n) Sig_test q =
      and_then (returns (drain_joined (running (live q)) (srv (live q)))) (\<lambda>(R, t).
        if addrinfo q then Done (q\<lparr>live := (live q)\<lparr>srv := t, running := R\<rparr>, addrinfo := False, listening := False\<rparr>)
        else Fault)"
proof (induction xs arbitrary: q)
  case Nil
  then show ?case
    by (subst drain_joined.simps) (simp add: numeral_3_eq_3 SLIST_EMPTY_def returns_def sig_run_exit)
next
  case (Cons x xs)
  then obtain m where m: "shead (srv (live q)) = x" "x \<noteq> 0" "conns (srv (live q)) x = Some m"
      "slist (conns (srv (live q))) (sle_next m) xs" by auto
  have new: "x \<notin> set xs"
    using slist_distinct [OF Cons.prems] by simp
  let ?t = "thread (qdata m)" and ?R = "running (live q)"
  define q' where "q' = with_srv (\<lambda>s. s\<lparr>joined := joined s @ [?t], shead := sle_next m, conns := qfree (conns s) x\<rparr>)
      (q\<lparr>live := (live q)\<lparr>running := ?R - {?t}\<rparr>\<rparr>)"
  have l: "slist (conns (srv (live q'))) (shead (srv (live q'))) xs"
    using m new by (simp add: q'_def with_srv_def qfree_def)
  define k where "k = 4 * length xs + 3 + n"
  then have more: "4 * length (x # xs) + 3 + n = Suc (Suc (Suc (Suc k)))" by simp
  have run: "sig_run (Suc (Suc (Suc (Suc k)))) Sig_test q = (if ?t \<in> ?R then sig_run k Sig_test q' else Fault)"
    using m
    by (simp add: SLIST_EMPTY_def SLIST_FIRST_def SLIST_REMOVE_HEAD_def SLIST_NEXT_def pthread_join_def with_srv_def q'_def)
  have drain: "drain_joined ?R (srv (live q)) = (if ?t \<in> ?R then drain_joined (running (live q')) (srv (live q')) else Some Fault)"
    using m by (subst drain_joined.simps)
      (simp add: SLIST_EMPTY_def SLIST_FIRST_def SLIST_REMOVE_HEAD_def SLIST_NEXT_def pthread_join_def with_srv_def q'_def Let_def)
  have same: "addrinfo q' = addrinfo q" "q'\<lparr>live := (live q')\<lparr>srv := t, running := R\<rparr>, addrinfo := False, listening := False\<rparr> =
      q\<lparr>live := (live q)\<lparr>srv := t, running := R\<rparr>, addrinfo := False, listening := False\<rparr>" for t R
    by (simp_all add: q'_def with_srv_def)
  show ?case
    unfolding more run drain using Cons.IH [OF l, folded k_def] same by (simp add: returns_def case_prod_beta cong: if_cong)
qed

lemma sig_run_handler:
  assumes "slist (conns (srv (live q))) (shead (srv (live q))) xs" and "4 * length xs + 4 \<le> n"
  shows "sig_run n Sig_remove q = and_then (exit_handler signum q) (\<lambda>(status, q). Done q)"
proof -
  obtain k where k: "n = Suc (4 * length xs + 3 + k)"
    using assms(2) by (auto simp: le_iff_add)
  have "slist (conns (srv (live (remove_data q)))) (shead (srv (live (remove_data q)))) xs"
    using assms(1) by (simp add: remove_data_def)
  note drain = sig_run_drain [OF this, of k]
  have "sig_run n Sig_remove q = sig_run (4 * length xs + 3 + k) Sig_test (remove_data q)"
    unfolding k by (subst sig_run.simps) simp
  then show ?thesis
    unfolding drain
    by (simp add: exit_handler_def sig_handler_at_def and_then_assoc and_then_if case_prod_unfold remove_data_def cong: if_cong)
qed

section \<open>Every order of events\<close>

text \<open>The handler waits in \<^verbatim>\<open>pthread_join\<close> for a thread that has not completed.\<close>

definition blocked :: "sig_point \<Rightarrow> process \<Rightarrow> bool" where
  "blocked p q \<longleftrightarrow> (\<exists>x. p = Sig_join x \<and> thread_at (srv (live q)) x \<in> running (live q) \<and>
     \<not> thread_complete (conn_at (srv (live q)) x))"

inductive handling :: "point \<Rightarrow> process \<Rightarrow> sig_point \<Rightarrow> process \<Rightarrow> bool" for pt q0 where
  raised: "loop_reach pt (live q0) \<Longrightarrow> addrinfo q0 \<Longrightarrow> handling pt q0 Sig_remove q0"
| stmt: "handling pt q0 p q \<Longrightarrow> \<not> blocked p q \<Longrightarrow> sig_stmt p q = Done (p', q') \<Longrightarrow> handling pt q0 p' q'"
| finish: "handling pt q0 p q \<Longrightarrow> x \<in> dom (conns (srv (live q))) - unstarted pt - threadless (live q) \<Longrightarrow>
    complete x (srv (live q)) = Done t \<Longrightarrow> handling pt q0 p (with_srv (\<lambda>_. t) q)"

text \<open>The list stands for \<open>xs\<close>, and the threads of \<open>ys\<close> are the running ones, one each.\<close>

definition unjoined :: "nptr list \<Rightarrow> nptr list \<Rightarrow> live_server \<Rightarrow> bool" where
  "unjoined xs ys s \<longleftrightarrow> slist (conns (srv s)) (shead (srv s)) xs \<and> inj_on (thread_at (srv s)) (set ys) \<and>
     thread_at (srv s) ` set ys = running s"

definition joined_since :: "process \<Rightarrow> process \<Rightarrow> bool" where
  "joined_since q0 q \<longleftrightarrow> (\<exists>ts. joined (srv (live q)) = joined (srv (live q0)) @ ts \<and> distinct ts \<and>
     set ts \<inter> running (live q) = {} \<and> set ts \<union> running (live q) = running (live q0))"

fun sig_inv :: "sig_point \<Rightarrow> nptr list \<Rightarrow> process \<Rightarrow> bool" where
  "sig_inv Sig_remove xs q \<longleftrightarrow> unjoined xs xs (live q) \<and> addrinfo q"
| "sig_inv Sig_test xs q \<longleftrightarrow> unjoined xs xs (live q) \<and> addrinfo q"
| "sig_inv (Sig_join x) xs q \<longleftrightarrow> unjoined xs xs (live q) \<and> addrinfo q \<and> (\<exists>ys. xs = x # ys)"
| "sig_inv (Sig_unlink x) xs q \<longleftrightarrow> addrinfo q \<and> thread_at (srv (live q)) x \<notin> running (live q) \<and>
     (\<exists>ys. xs = x # ys \<and> unjoined xs ys (live q))"
| "sig_inv (Sig_free x) xs q \<longleftrightarrow> unjoined xs xs (live q) \<and> addrinfo q \<and> x \<notin> set xs \<and> x \<in> dom (conns (srv (live q)))"
| "sig_inv Sig_addrinfo xs q \<longleftrightarrow> xs = [] \<and> unjoined xs xs (live q) \<and> addrinfo q"
| "sig_inv Sig_shutdown xs q \<longleftrightarrow> xs = [] \<and> unjoined xs xs (live q) \<and> \<not> addrinfo q"
| "sig_inv Sig_exit xs q \<longleftrightarrow> xs = [] \<and> unjoined xs xs (live q) \<and> \<not> addrinfo q \<and> \<not> listening q"

definition file_done :: "process \<Rightarrow> sig_point \<Rightarrow> process \<Rightarrow> bool" where
  "file_done q0 p q \<longleftrightarrow> removable q = removable q0 \<and>
     (p \<noteq> Sig_remove \<longrightarrow> data_file q = (data_file q0 \<and> \<not> removable q0)) \<and> (p = Sig_remove \<longrightarrow> data_file q = data_file q0)"

lemma unjoined_cong:
  assumes "\<And>x. x \<in> set ys \<Longrightarrow> thread_at (srv s') x = thread_at (srv s) x" and "running s' = running s"
    and "slist (conns (srv s')) (shead (srv s')) xs = slist (conns (srv s)) (shead (srv s)) xs"
  shows "unjoined xs ys s' = unjoined xs ys s"
proof -
  have "inj_on (thread_at (srv s')) (set ys) = inj_on (thread_at (srv s)) (set ys)"
    by (rule inj_on_cong) (simp add: assms(1))
  moreover have "thread_at (srv s') ` set ys = thread_at (srv s) ` set ys"
    by (rule image_cong) (simp_all add: assms(1))
  ultimately show ?thesis using assms(2,3) by (simp add: unjoined_def)
qed

lemma join_inv:
  assumes "sig_inv (Sig_join x) xs q"
  shows "\<exists>q'. sig_stmt (Sig_join x) q = Done (Sig_unlink x, q') \<and> sig_inv (Sig_unlink x) xs q' \<and>
    joined (srv (live q')) = joined (srv (live q)) @ [thread_at (srv (live q)) x] \<and>
    running (live q) = insert (thread_at (srv (live q)) x) (running (live q')) \<and>
    thread_at (srv (live q)) x \<notin> running (live q')"
proof -
  let ?s = "srv (live q)" and ?R = "running (live q)"
  obtain ys where xs: "xs = x # ys" and u: "unjoined xs xs (live q)" using assms by auto
  then have l: "slist (conns ?s) (shead ?s) xs" by (simp add: unjoined_def)
  then obtain n where n: "conns ?s x = Some n" using xs by auto
  have x: "thread_at ?s x = thread (qdata n)" by (simp add: conn_at_def qget_def n)
  have new: "x \<notin> set ys" using slist_distinct [OF l] xs by simp
  have inj: "inj_on (thread_at ?s) (insert x (set ys))" and im: "insert (thread_at ?s x) (thread_at ?s ` set ys) = ?R"
    using u xs by (simp_all add: unjoined_def)
  then have out: "thread_at ?s x \<notin> thread_at ?s ` set ys" using new by (auto simp: inj_on_def)
  then have im': "thread_at ?s ` set ys = ?R - {thread (qdata n)}" using im x by (metis Diff_insert_absorb)
  define q' where "q' = with_srv (\<lambda>s. s\<lparr>joined := joined s @ [thread (qdata n)]\<rparr>)
      (q\<lparr>live := (live q)\<lparr>running := ?R - {thread (qdata n)}\<rparr>\<rparr>)"
  have "sig_stmt (Sig_join x) q = Done (Sig_unlink x, q')"
    using n im x by (auto simp: q'_def pthread_join_def)
  moreover have T: "thread_at (srv (live q')) y = thread_at ?s y" for y
    by (simp add: q'_def with_srv_def conn_at_def)
  moreover have "unjoined xs ys (live q')"
    using l inj im' unfolding unjoined_def T by (simp add: q'_def with_srv_def)
  ultimately show ?thesis
    using xs assms im x by (intro exI [of _ q']) (auto simp: q'_def with_srv_def)
qed

lemma unlink_inv:
  assumes "sig_inv (Sig_unlink x) xs q"
  shows "\<exists>q'. sig_stmt (Sig_unlink x) q = Done (Sig_free x, q') \<and> sig_inv (Sig_free x) (tl xs) q' \<and>
    joined (srv (live q')) = joined (srv (live q)) \<and> running (live q') = running (live q)"
proof -
  let ?s = "srv (live q)"
  obtain ys where xs: "xs = x # ys" and u: "unjoined xs ys (live q)" using assms by auto
  then have l: "slist (conns ?s) (shead ?s) (x # ys)" by (simp add: unjoined_def)
  then obtain n where n: "shead ?s = x" "conns ?s x = Some n" "slist (conns ?s) (sle_next n) ys" by auto
  define q' where "q' = with_srv (\<lambda>s. s\<lparr>shead := sle_next n\<rparr>) q"
  have "sig_stmt (Sig_unlink x) q = Done (Sig_free x, q')"
    using n by (simp add: q'_def SLIST_REMOVE_HEAD_def SLIST_FIRST_def SLIST_NEXT_def)
  moreover have "unjoined ys ys (live q')"
    using u n(3) by (simp add: unjoined_def q'_def with_srv_def conn_at_def)
  ultimately show ?thesis
    using slist_distinct [OF l] assms n(2) xs by (intro exI [of _ q']) (auto simp: q'_def with_srv_def)
qed

lemma free_inv:
  assumes "sig_inv (Sig_free x) xs q"
  shows "\<exists>q'. sig_stmt (Sig_free x) q = Done (Sig_test, q') \<and> sig_inv Sig_test xs q' \<and>
    joined (srv (live q')) = joined (srv (live q)) \<and> running (live q') = running (live q)"
proof -
  let ?q = "with_srv (\<lambda>s. s\<lparr>conns := qfree (conns s) x\<rparr>) q"
  have "unjoined xs xs (live ?q) = unjoined xs xs (live q)"
    by (rule unjoined_cong) (use assms in \<open>auto simp: with_srv_def conn_at_def qget_def qfree_def\<close>)
  with assms show ?thesis by (auto simp: with_srv_def)
qed

text \<open>Every statement of the handler, and a thread that completes, keep the invariant; a statement that is
  not blocked returns and brings the handler closer to its exit.\<close>

definition sig_left :: "sig_point \<Rightarrow> process \<Rightarrow> nat" where
  "sig_left p q = 4 * card (running (live q)) +
     (case p of Sig_unlink x \<Rightarrow> 6 | Sig_remove \<Rightarrow> 5 | Sig_free x \<Rightarrow> 5 | Sig_test \<Rightarrow> 4 | Sig_join x \<Rightarrow> 3
      | Sig_addrinfo \<Rightarrow> 2 | Sig_shutdown \<Rightarrow> 1 | Sig_exit \<Rightarrow> 0)"

definition sig_ok :: "process \<Rightarrow> sig_point \<Rightarrow> process \<Rightarrow> bool" where
  "sig_ok q0 p q \<longleftrightarrow> (\<exists>xs. sig_inv p xs q) \<and> joined_since q0 q \<and> file_done q0 p q"

lemma unjoined_finite: "unjoined xs ys s \<Longrightarrow> finite (running s)"
  by (metis unjoined_def List.finite_set finite_imageI)

lemma joined_since_join:
  assumes "joined_since q0 q" and "joined (srv (live q')) = joined (srv (live q)) @ [t]"
    and "running (live q) = insert t (running (live q'))" and "t \<notin> running (live q')"
  shows "joined_since q0 q'"
proof -
  obtain ts where ts: "joined (srv (live q)) = joined (srv (live q0)) @ ts" "distinct ts"
      "set ts \<inter> running (live q) = {}" "set ts \<union> running (live q) = running (live q0)"
    using assms(1) by (auto simp: joined_since_def)
  with assms(2-4) show ?thesis
    unfolding joined_since_def by (intro exI [of _ "ts @ [t]"]) auto
qed

lemma sig_stmt_ok:
  assumes "sig_ok q0 p q" and "p \<noteq> Sig_exit"
  shows "\<exists>p' q'. sig_stmt p q = Done (p', q') \<and> sig_ok q0 p' q' \<and> sig_left p' q' < sig_left p q"
proof -
  obtain xs where inv: "sig_inv p xs q" and js: "joined_since q0 q" and f: "file_done q0 p q"
    using assms(1) by (auto simp: sig_ok_def)
  have js_same: "joined_since q0 q'" if "joined (srv (live q')) = joined (srv (live q))" "running (live q') = running (live q)" for q'
    using js that by (simp add: joined_since_def)
  have f_same: "file_done q0 p' q'" if "p \<noteq> Sig_remove" "p' \<noteq> Sig_remove" "data_file q' = data_file q" "removable q' = removable q" for p' q'
    using f that by (simp add: file_done_def)
  show ?thesis
  proof (cases p)
    case Sig_remove
    then have "sig_inv Sig_test xs (remove_data q)" "file_done q0 Sig_test (remove_data q)"
      using inv f by (auto simp: remove_data_def file_done_def)
    with Sig_remove js_same [of "remove_data q"] show ?thesis
      by (auto simp: sig_ok_def remove_data_def sig_left_def)
  next
    case Sig_test
    let ?p = "if xs = [] then Sig_addrinfo else Sig_join (hd xs)"
    have "sig_stmt p q = Done (?p, q)"
      using inv Sig_test by (cases xs) (auto simp: unjoined_def SLIST_EMPTY_def SLIST_FIRST_def)
    moreover have "sig_inv ?p xs q"
      using inv Sig_test by (cases xs) auto
    moreover have "sig_left ?p q < sig_left p q" "?p \<noteq> Sig_remove"
      using Sig_test by (simp_all add: sig_left_def)
    ultimately show ?thesis
      using Sig_test js f_same [of ?p q] by (auto simp: sig_ok_def)
  next
    case (Sig_join x)
    with inv join_inv [of x xs q] obtain q' where q': "sig_stmt p q = Done (Sig_unlink x, q')" "sig_inv (Sig_unlink x) xs q'"
        "joined (srv (live q')) = joined (srv (live q)) @ [thread_at (srv (live q)) x]"
        "running (live q) = insert (thread_at (srv (live q)) x) (running (live q'))" "thread_at (srv (live q)) x \<notin> running (live q')"
      by blast
    have "finite (running (live q'))" using q'(2) unjoined_finite by auto
    then have less: "sig_left (Sig_unlink x) q' < sig_left p q"
      using q'(4,5) Sig_join by (simp add: sig_left_def)
    have "data_file q' = data_file q" "removable q' = removable q"
      using q'(1) Sig_join by (auto simp: with_srv_def split: option.splits)
    then have "sig_ok q0 (Sig_unlink x) q'"
      unfolding sig_ok_def using q'(2) Sig_join joined_since_join [OF js q'(3-5)] f_same by blast
    with q'(1) less show ?thesis by blast
  next
    case (Sig_unlink x)
    with inv unlink_inv [of x xs q] obtain q' where q': "sig_stmt p q = Done (Sig_free x, q')" "sig_inv (Sig_free x) (tl xs) q'"
        "joined (srv (live q')) = joined (srv (live q))" "running (live q') = running (live q)"
      by blast
    moreover have "data_file q' = data_file q" "removable q' = removable q"
      using q'(1) Sig_unlink by (auto simp: with_srv_def)
    ultimately have "sig_ok q0 (Sig_free x) q'"
      unfolding sig_ok_def using js_same f_same Sig_unlink by blast
    with q'(1,4) Sig_unlink show ?thesis by (auto simp: sig_left_def)
  next
    case (Sig_free x)
    with inv free_inv [of x xs q] obtain q' where q': "sig_stmt p q = Done (Sig_test, q')" "sig_inv Sig_test xs q'"
        "joined (srv (live q')) = joined (srv (live q))" "running (live q') = running (live q)"
      by blast
    moreover have "data_file q' = data_file q" "removable q' = removable q"
      using q'(1) Sig_free by (auto simp: with_srv_def split: if_splits)
    ultimately have "sig_ok q0 Sig_test q'"
      unfolding sig_ok_def using js_same f_same Sig_free by blast
    with q'(1,4) Sig_free show ?thesis by (auto simp: sig_left_def)
  next
    case Sig_addrinfo
    then have "sig_inv Sig_shutdown xs (q\<lparr>addrinfo := False\<rparr>)" using inv by auto
    with Sig_addrinfo inv js_same [of "q\<lparr>addrinfo := False\<rparr>"] f_same [of Sig_shutdown "q\<lparr>addrinfo := False\<rparr>"] show ?thesis
      by (auto simp: sig_ok_def sig_left_def)
  next
    case Sig_shutdown
    then have "sig_inv Sig_exit xs (q\<lparr>listening := False\<rparr>)" using inv by auto
    with Sig_shutdown js_same [of "q\<lparr>listening := False\<rparr>"] f_same [of Sig_exit "q\<lparr>listening := False\<rparr>"] show ?thesis
      by (auto simp: sig_ok_def sig_left_def)
  qed (use assms(2) in simp)
qed

lemma sig_finish_ok:
  assumes "sig_ok q0 p q" and "complete x (srv (live q)) = Done t"
  shows "sig_ok q0 p (with_srv (\<lambda>_. t) q)"
proof -
  obtain n where n: "conns (srv (live q)) x = Some n"
      "t = (srv (live q))\<lparr>conns := (conns (srv (live q)))(x \<mapsto> n\<lparr>qdata := (qdata n)\<lparr>thread_complete := True\<rparr>\<rparr>)\<rparr>"
    using assms(2) by (auto simp: complete_def split: option.splits)
  have T: "thread_at t y = thread_at (srv (live q)) y" for y
    by (simp add: n conn_at_def qget_def)
  have "unjoined xs ys (live (with_srv (\<lambda>_. t) q)) = unjoined xs ys (live q)" for xs ys
    by (rule unjoined_cong) (simp_all add: with_srv_def T, simp_all add: n)
  moreover have "dom (conns t) = dom (conns (srv (live q)))" using n by auto
  ultimately have "sig_inv p xs (with_srv (\<lambda>_. t) q) = sig_inv p xs q" for xs
    by (cases p) (simp_all add: with_srv_def T)
  then show ?thesis
    using assms(1) by (simp add: sig_ok_def joined_since_def file_done_def with_srv_def n)
qed

lemma handling_ok:
  assumes "handling pt q0 p q" and "\<not> fatal pt" and "threadless (live q0) = {}"
  shows "sig_ok q0 p q"
  using assms(1)
proof induction
  case raised
  then obtain xs where inv: "point_inv pt xs (live q0)" using loop_reach_inv by blast
  note f = fatal_points [OF inv]
  have "unjoined xs xs (live q0)"
    using f(1) f(3) [OF assms(2)] assms(3) by (simp add: unjoined_def alive_def)
  moreover have "joined_since q0 q0" by (simp add: joined_since_def)
  ultimately show ?case using raised(2) by (auto simp: sig_ok_def file_done_def)
next
  case (stmt p q p' q')
  then show ?case
    using sig_stmt_ok [of q0 p q] by (cases "p = Sig_exit") auto
next
  case (finish p q x t)
  then show ?case using sig_finish_ok by blast
qed

section \<open>The second signal\<close>

text \<open>Where the handler must not be entered again: the first thread of the list is joined and its node still
  linked, or the address list is already freed.\<close>

fun once_only :: "sig_point \<Rightarrow> bool" where
  "once_only (Sig_unlink x) \<longleftrightarrow> True"
| "once_only Sig_shutdown \<longleftrightarrow> True"
| "once_only Sig_exit \<longleftrightarrow> True"
| "once_only p \<longleftrightarrow> False"

lemma exit_unjoined:
  assumes u: "unjoined xs xs (live q)"
  shows "\<exists>s' ts. sig_handler_at signum (live (remove_data q)) = Done (signum, s') \<and> running s' = {} \<and>
    joined (srv s') = joined (srv (live q)) @ ts \<and> distinct ts \<and> set ts = running (live q)"
proof -
  let ?s = "live (remove_data q)" and ?ts = "map (thread_at (srv (live q))) xs"
  have same: "?s = live q" by (simp add: remove_data_def)
  have l: "slist (conns (srv ?s)) (shead (srv ?s)) xs" using u by (simp add: unjoined_def same)
  have "distinct ?ts" "set ?ts = running (live q)"
    using u slist_distinct [OF l] by (simp_all add: unjoined_def distinct_map)
  moreover from this obtain s' where "sig_handler_at signum ?s = Done (signum, s')" "running s' = {}"
      "joined (srv s') = joined (srv (live q)) @ ?ts"
    using handler_list(2) [OF l, of signum] by (auto simp: same)
  ultimately show ?thesis by blast
qed

lemma second_exit:
  assumes "sig_ok q0 p q"
  shows "if once_only p then exit_handler signum q = Fault
    else \<exists>q' ts. exit_handler signum q = Done (signum, q') \<and> running (live q') = {} \<and>
      joined (srv (live q')) = joined (srv (live q0)) @ ts \<and> distinct ts \<and> set ts = running (live q0)"
proof -
  obtain xs where inv: "sig_inv p xs q" and js: "joined_since q0 q"
    using assms by (auto simp: sig_ok_def)
  show ?thesis
  proof (cases "once_only p")
    case True
    have "exit_handler signum q = Fault"
    proof (cases "\<exists>x. p = Sig_unlink x")
      case True
      then obtain x ys where x: "xs = x # ys" "unjoined xs ys (live q)" "thread_at (srv (live q)) x \<notin> running (live q)"
        using inv by auto
      then have "slist (conns (srv (live (remove_data q)))) (shead (srv (live (remove_data q)))) xs"
        by (simp add: unjoined_def remove_data_def)
      from handler_list(1) [OF this, of signum] x(1,3) show ?thesis
        by (simp add: exit_handler_def remove_data_def)
    next
      case False
      then have "unjoined [] [] (live q)" "\<not> addrinfo q" using True inv by (cases p; auto)+
      with exit_unjoined [of "[]" q signum] show ?thesis by (auto simp: exit_handler_def)
    qed
    with True show ?thesis by simp
  next
    case False
    then have u: "unjoined xs xs (live q)" "addrinfo q" using inv by (cases p; auto)+
    obtain s' ts where s': "sig_handler_at signum (live (remove_data q)) = Done (signum, s')" "running s' = {}"
        "joined (srv s') = joined (srv (live q)) @ ts" "distinct ts" "set ts = running (live q)"
      using exit_unjoined [OF u(1)] by blast
    obtain us where us: "joined (srv (live q)) = joined (srv (live q0)) @ us" "distinct us"
        "set us \<inter> running (live q) = {}" "set us \<union> running (live q) = running (live q0)"
      using js by (auto simp: joined_since_def)
    with False s' u(2) show ?thesis
      by (auto simp: exit_handler_def intro!: exI [of _ "us @ ts"])
  qed
qed

text \<open>The handler with one running thread: it waits for it, goes on once it has completed, and joins it.\<close>

lemma handling_one_thread:
  "\<exists>u q w j. handling (At_foreach 100) u Sig_remove u \<and> handling (At_foreach 100) u (Sig_join 100) q \<and>
    handling (At_foreach 100) u (Sig_join 100) w \<and> \<not> blocked (Sig_join 100) w \<and>
    handling (At_foreach 100) u (Sig_unlink 100) j \<and>
    threadless (live u) = {} \<and> running (live u) = {7} \<and> joined (srv (live u)) = []"
proof -
  obtain s where s: "loop_reach (At_foreach 100) s" "threadless s = {}" "running s = {7}" "joined (srv s) = []"
      "dom (conns (srv s)) = {100}" "shead (srv s) = 100"
    using first_connection by blast
  obtain n where n: "conns (srv s) 100 = Some n" using s(5) by blast
  define u where "u = \<lparr>live = s, data_file = True, removable = True, addrinfo = True, listening = True\<rparr>"
  define q where "q = remove_data u"
  have h0: "handling (At_foreach 100) u Sig_remove u"
    by (rule handling.raised) (simp_all add: u_def s)
  have h1: "handling (At_foreach 100) u Sig_test q"
    using handling.stmt [OF h0] by (simp add: blocked_def q_def)
  have h2: "handling (At_foreach 100) u (Sig_join 100) q"
    using handling.stmt [OF h1] s(6)
    by (simp add: blocked_def SLIST_EMPTY_def SLIST_FIRST_def q_def remove_data_def u_def)
  define m where "m = n\<lparr>qdata := (qdata n)\<lparr>thread_complete := True\<rparr>\<rparr>"
  define t where "t = (srv s)\<lparr>conns := (conns (srv s))(100 \<mapsto> m)\<rparr>"
  have "complete 100 (srv (live q)) = Done t"
    by (simp add: q_def remove_data_def u_def complete_def n t_def m_def)
  then have h3: "handling (At_foreach 100) u (Sig_join 100) (with_srv (\<lambda>_. t) q)"
    by (intro handling.finish [OF h2]) (simp_all add: q_def remove_data_def u_def s)
  moreover have free: "\<not> blocked (Sig_join 100) (with_srv (\<lambda>_. t) q)"
    by (simp add: blocked_def with_srv_def t_def conn_at_def qget_def m_def)
  moreover obtain j where "handling (At_foreach 100) u (Sig_unlink 100) j"
  proof -
    have "sig_ok u (Sig_join 100) (with_srv (\<lambda>_. t) q)"
      by (rule handling_ok [OF h3]) (simp_all add: u_def s)
    then obtain xs where "sig_inv (Sig_join 100) xs (with_srv (\<lambda>_. t) q)" by (auto simp: sig_ok_def)
    from join_inv [OF this] handling.stmt [OF h3 free] that show ?thesis by blast
  qed
  moreover have "live u = s" by (simp add: u_def)
  ultimately show ?thesis using h0 h2 s(2-4) by metis
qed

end
