(* ===== verification/Server_Properties.thy ===== *)
theory Server_Properties
  imports Device_Server Signal_Handler Reference_Kernel
begin

text \<open>
  What the socket server promises to its clients and keeps of its own state, over the functions of
  \<open>Socket_Server\<close>, \<open>Device_Server\<close> and \<open>Connection_List\<close>, with a concrete instance of each.
\<close>

section \<open>The instance\<close>

definition ref_dev :: kdev where
  "ref_dev = (ref_kernel, loaded, ref_file)"

definition calloc :: "nat \<Rightarrow> string option" where
  "calloc n = Some (replicate n NUL)"

definition crealloc :: "string \<Rightarrow> nat \<Rightarrow> string option" where
  "crealloc b n = Some (take n b @ replicate (n - length b) NUL)"

lemma calloc_ok: "memory_ok calloc crealloc"
  by (auto simp: memory_ok_def realloc_law_def calloc_def crealloc_def)

lemma ref_dev_good: "dev_good ref_dev"
  by (simp add: ref_dev_def dev_good_def steady_def ref_kernel_ok ref_copies_all loaded_inv ref_select
      ref_file_def loaded_simps(2))

section \<open>Requests\<close>

text \<open>C12: the receiving code never writes outside its buffer, whatever the lengths of the answers of
  \<open>recv\<close>: it serves exactly the first line received, without its NUL bytes, drops what follows
  it in the same answer, ends without a reply on an error, and waits for ever while there is no
  newline, a closed connection included.\<close>

theorem receive_data_serves_line:
  assumes "memory_ok c_malloc c_realloc"
  shows "receive_data c_malloc c_realloc ops recvs d =
    (case request_of [] recvs of
       Waiting \<Rightarrow> Hang
     | Dropped \<Rightarrow> Done (Ret ([], d))
     | Line w \<Rightarrow> serve_line ops d w)"
  using assms by (rule receive_data_request)

theorem receive_data_serves_line_witness:
  "receive_data calloc crealloc (file_ops (\<lambda>s. [s])) [Recv ''he'', Recv ''y'', Recv [], Recv_error] ([], 0)
     = Done (Ret ([], ([], 0)))"
proof -
  have "request_of [] [Recv ''he'', Recv ''y'', Recv [], Recv_error] = Dropped"
    by (simp add: newline_def)
  with receive_data_serves_line [OF calloc_ok, of "file_ops (\<lambda>s. [s])"
      "[Recv ''he'', Recv ''y'', Recv [], Recv_error]" "([], 0)"]
  show ?thesis by (simp add: calloc_ok)
qed

text \<open>C13: a client whose line is not a seek command gets it appended to the device and receives, in order
  and complete, the device's whole content after that: the newest of the last ten commands is the
  line with the bytes that were pending.\<close>

theorem client_line_is_appended:
  assumes "dev_good (K, st, f)" and "request_of [] recvs = Line w"
    and "\<not> c_strstr w ''AESDCHAR_IOCSEEKTO''"
    and "concat (split w) = w" "split w \<noteq> []" "[] \<notin> set (split w)" "newline \<notin> set (butlast w)"
    and "\<And>d. d_open (driver_ops off split) (K, st, f) = Some d \<Longrightarrow> rooms (driver_ops off split) dev_room d (split w)"
    and "memory_ok c_malloc c_realloc"
  shows "\<exists>lines d. receive_data c_malloc c_realloc (driver_ops off split) recvs (K, st, f) = Done (Ret (lines, d)) \<and>
    dev_good d \<and> dev_view d = dev_append (absdev st) w \<and>
    concat lines = content (dev_append (absdev st) w)"
proof -
  have sp: "d_split (driver_ops off split) = split" by (simp add: driver_ops_def)
  obtain d where d: "serve_line (driver_ops off split) (K, st, f) w
      = Done (Ret (send_lines (content (dev_append (absdev st) w)), d))"
    "dev_good d" "dev_view d = dev_append (absdev st) w"
    using driver.serve_line_appends [OF assms(1,3), of off split, unfolded sp] assms(4-8)
    by (auto simp: dev_view_def)
  have "receive_data c_malloc c_realloc (driver_ops off split) recvs (K, st, f)
      = serve_line (driver_ops off split) (K, st, f) w"
    by (subst receive_data_request) (use assms in simp_all)
  with d show ?thesis
    using send_lines_concat by auto
qed

theorem client_line_is_appended_witness:
  "\<exists>lines d. receive_data calloc crealloc (driver_ops 64 (\<lambda>s. [s])) [Recv ''hey'', Recv (newline # ''x'')] ref_dev
     = Done (Ret (lines, d)) \<and> concat lines = ''hey'' @ [newline]"
proof -
  let ?w = "''hey'' @ [newline]"
  have req: "request_of [] [Recv ''hey'', Recv (newline # ''x'')] = Line ?w"
    by (simp add: newline_def nonul_def NUL_def upto_newline_def)
  have plain: "\<not> c_strstr ?w ''AESDCHAR_IOCSEEKTO''"
    by (simp add: newline_def)
  have room: "rooms (driver_ops 64 (\<lambda>s. [s])) dev_room d [?w]"
    if "d_open (driver_ops 64 (\<lambda>s. [s])) (ref_kernel, loaded, ref_file) = Some d" for d
    using that by (auto simp: driver_ops_def dev_room_def ref_select loaded_simps pend_ptr_def zero_dev_def
        zero_entry_def ref_krealloc_def fresh_ptr_def Let_def)
  have nl: "newline \<notin> set (butlast ?w)" by (simp add: newline_def)
  have sp: "concat [?w] = ?w" "[?w] \<noteq> []" "[] \<notin> set [?w]" by simp_all
  have "content (dev_append (absdev loaded) ?w) = ?w"
    by (simp add: loaded_inv(2) dev_append_def content_def)
  then show ?thesis
    using client_line_is_appended [OF ref_dev_good [unfolded ref_dev_def] req plain, of "\<lambda>s. [s]" 64 calloc crealloc,
        OF sp nl room calloc_ok]
    unfolding ref_dev_def by auto
qed

text \<open>A seek command on any ring: the position is the one \<open>ioctl\<close> finds, which counts slots.\<close>

lemma seek_by_slots:
  assumes "dev_good (K, st, f)" and "request_of [] recvs = Line (seek_text c ofs)"
    and "c < 2 ^ 31" "ofs < 2 ^ 31"
    and "memory_ok c_malloc c_realloc"
  shows "\<exists>lines d. receive_data c_malloc c_realloc (driver_ops off split) recvs (K, st, f) = Done (Ret (lines, d)) \<and>
    dev_good d \<and> dev_view d = absdev st \<and>
    concat lines = drop (if seekable (buffer (aesd_device st)) (of_nat c) (of_nat ofs)
                         then seek_pos (buffer (aesd_device st)) (of_nat c) (of_nat ofs) else 0)
                     (content (absdev st))"
proof -
  obtain d where d: "serve_line (driver_ops off split) (K, st, f) (seek_text c ofs) =
      Done (Ret (send_lines (drop (case dev_target (K, st, f) (of_nat c) (of_nat ofs) of None \<Rightarrow> 0 | Some p \<Rightarrow> p)
        (content (dev_view (K, st, f)))), d))"
    "dev_good d" "dev_view d = dev_view (K, st, f)"
    using driver.serve_line_seeks [OF assms(1) seek_text_marked parse_seek_text [OF assms(3,4)]] by blast
  have "receive_data c_malloc c_realloc (driver_ops off split) recvs (K, st, f)
      = serve_line (driver_ops off split) (K, st, f) (seek_text c ofs)"
    by (subst receive_data_request) (use assms in simp_all)
  moreover have "dev_view (K, st, f) = absdev st"
    by (simp add: dev_view_def)
  moreover have "(case dev_target (K, st, f) (of_nat c) (of_nat ofs) of None \<Rightarrow> 0 | Some p \<Rightarrow> p) =
      (if seekable (buffer (aesd_device st)) (of_nat c) (of_nat ofs)
       then seek_pos (buffer (aesd_device st)) (of_nat c) (of_nat ofs) else 0)"
    by (simp add: dev_target_def)
  ultimately show ?thesis
    using d send_lines_concat by auto
qed

text \<open>C14: a client that sends the text of a seek command, to a device whose ring has not wrapped, leaves the content
  as it is and receives the stored command it names, counted from the oldest, from the offset it names
  on, and then all later commands; when there is no such command or offset it receives the whole
  content.\<close>

theorem client_seek_is_served:
  assumes "dev_good (K, st, f)" and "request_of [] recvs = Line (seek_text c ofs)"
    and "c < 2 ^ 31" "ofs < 2 ^ 31"
    and "memory_ok c_malloc c_realloc"
    and "out_offs (buffer (aesd_device st)) = 0"
  shows "\<exists>lines d. receive_data c_malloc c_realloc (driver_ops off split) recvs (K, st, f) = Done (Ret (lines, d)) \<and>
    dev_good d \<and> dev_view d = absdev st \<and>
    concat lines = (let cmds = a_cmds (absdev st)
      in if c < length cmds \<and> ofs < length (cmds ! c) then drop ofs (cmds ! c) @ concat (drop (Suc c) cmds) else concat cmds)"
proof -
  let ?cmds = "a_cmds (absdev st)" and ?b = "buffer (aesd_device st)"
  have wf: "dev_wf st" using good_ready(1) [OF assms(1)] by (simp add: dev_inv_def)
  have n: "unat (of_nat c :: u32) = c" "unat (of_nat ofs :: u32) = ofs"
    using assms(3,4) by (simp_all add: unat_of_nat_small)
  obtain lines d where served: "receive_data c_malloc c_realloc (driver_ops off split) recvs (K, st, f) = Done (Ret (lines, d))"
      "dev_good d" "dev_view d = absdev st"
      "concat lines = drop (if seekable ?b (of_nat c) (of_nat ofs) then seek_pos ?b (of_nat c) (of_nat ofs) else 0) (content (absdev st))"
    using seek_by_slots [OF assms(1-5)] by blast
  show ?thesis
  proof (cases "c < length ?cmds \<and> ofs < length (?cmds ! c)")
    case True
    then have "seekable ?b (of_nat c) (of_nat ofs)" "seek_pos ?b (of_nat c) (of_nat ofs) = length (concat (take c ?cmds)) + ofs"
      using seekable_unwrapped [OF wf assms(6), of "of_nat c" "of_nat ofs"] n by simp_all
    moreover have "seek_entry (map length ?cmds) (length (concat (take c ?cmds)) + ofs) = Some (c, ofs)"
      using seek_entry_SomeI [of c "map length ?cmds" ofs] True by (simp add: length_concat take_map)
    ultimately show ?thesis
      using served content_split(1) True by (auto simp: Let_def)
  next
    case False
    then have "\<not> seekable ?b (of_nat c) (of_nat ofs)"
      using seekable_unwrapped(1) [OF wf assms(6), of "of_nat c" "of_nat ofs"] n by simp
    with served False show ?thesis by (auto simp: content_def)
  qed
qed

text \<open>The commands \<open>a\<close> to \<open>j\<close>, one letter each, and a seek to the second byte of the third.\<close>

theorem client_seek_is_served_witness:
  "\<exists>lines d. receive_data calloc crealloc (driver_ops 64 (\<lambda>s. [s])) [Recv (seek_text 2 1)]
      (ref_kernel, ten_dev (map (\<lambda>x. [x, newline]) ''abcdefghij''), ref_file) = Done (Ret (lines, d)) \<and>
    concat lines = [newline] @ concat (map (\<lambda>x. [x, newline]) ''defghij'')"
proof -
  let ?st = "ten_dev (map (\<lambda>x. [x, newline]) ''abcdefghij'')"
  have dec: "decimal 2 = ''2''" "decimal 1 = ''1''" "decimal (Suc 0) = ''1''"
    by (subst decimal.simps, simp add: char_of_def bit_Suc bit_iff_odd)+
  have "upto_newline (seek_text 2 1) = seek_text 2 1"
    by (simp add: upto_newline_def seek_text_def dec newline_def)
  moreover have "nonul (seek_text 2 1) = seek_text 2 1"
    by (simp add: nonul_def seek_text_def dec newline_def NUL_def)
  moreover have "newline \<in> set (seek_text 2 1)"
    by (simp add: seek_text_def)
  ultimately have req: "request_of [] [Recv (seek_text 2 1)] = Line (seek_text 2 1)"
    by simp
  have ten: "ten_lines (map (\<lambda>x. [x, newline]) ''abcdefghij'')" by (simp add: ten_lines_def)
  have good: "dev_good (ref_kernel, ?st, ref_file)"
    using ten_dev_inv [OF ten] by (simp add: dev_good_def steady_def ref_kernel_ok ref_copies_all ref_select
        ref_file_def ten_dev_simps)
  show ?thesis
    using client_seek_is_served [OF good req _ _ calloc_ok, where off = 64 and split = "\<lambda>s. [s]"] ten_dev_cmds [OF ten]
    by (fastforce simp: ten_dev_simps)
qed

text \<open>parsing what a client prints gives back the two numbers.\<close>

theorem seek_text_roundtrip:
  assumes "c < 2 ^ 31" and "ofs < 2 ^ 31"
  shows "c_strstr (seek_text c ofs) ''AESDCHAR_IOCSEEKTO'' \<and>
    parse_seekto (seek_text c ofs) = Done (of_nat c, of_nat ofs)"
  using seek_text_marked parse_seek_text [OF assms] by simp

theorem seek_text_roundtrip_witness:
  "parse_seekto (seek_text 3 17) = Done (3, 17)"
  using seek_text_roundtrip [of 3 17] by simp

text \<open>A line that has the mark of a seek command but no second field makes the server read a null
  pointer.\<close>

theorem unfinished_seek_faults:
  assumes "d_open ops d = Some d'"
  shows "serve_line ops d (''AESDCHAR_IOCSEEKTO'' @ [newline]) = Fault"
proof -
  have "c_strstr (''AESDCHAR_IOCSEEKTO'' @ [newline]) ''AESDCHAR_IOCSEEKTO''"
    unfolding c_strstr_iff by (metis append_Nil)
  then show ?thesis
    using assms parse_no_field by (simp add: serve_line_def appendToFile_def)
qed

theorem unfinished_seek_faults_witness:
  "serve_line (file_ops (\<lambda>s. [s])) (''log'', 0) (''AESDCHAR_IOCSEEKTO'' @ [newline]) = Fault"
  by (rule unfinished_seek_faults [of _ _ "(''log'', 0)"]) (simp add: file_ops_def)

section \<open>Sending and the timer\<close>

text \<open>\<open>send_all\<close> returns true only when every byte was taken and never sends a byte twice or out of
  order; when every call takes at least one byte, as many calls as bytes are enough.\<close>

theorem send_all_correct:
  "(\<forall>ok sent. send_all answers buf = Done (ok, sent) \<longrightarrow> (\<exists>rest. buf = sent @ rest \<and> (ok \<longrightarrow> rest = []))) \<and>
   ((\<forall>i \<in> set answers. 1 \<le> i) \<and> length buf \<le> length answers \<longrightarrow> send_all answers buf = Done (True, buf))"
  using send_all_prefix [of answers buf] send_all_complete [of answers buf] by blast

theorem send_all_correct_witness:
  "send_all [2, 1, 4] ''abc'' = Done (True, ''abc'')"
  using send_all_correct [of "[2, 1, 4]" "''abc''"] by simp

text \<open>\<open>openFile\<close> never returns on a file with any text: its inner loop tests a variable the loop does not
  change.\<close>

theorem openFile_never_returns:
  assumes "text \<noteq> []" and "\<And>line. line \<noteq> [] \<Longrightarrow> getline_len line \<noteq> 0"
  shows "openFile answers getline_len (Some text) = Hang"
  using assms by (rule openFile_hangs)

theorem openFile_never_returns_witness:
  "openFile (\<lambda>n. 4) (\<lambda>line. 1024) (Some ''text'') = Hang"
  by (rule openFile_never_returns) simp_all

text \<open>The timer thread appends one stamp per round to the data file, in order, and leaves one more stream
  open in every round.\<close>

theorem timer_appends_and_leaks:
  assumes "\<And>s. concat (split s) = s" and "\<forall>t \<in> set ts. \<not> c_strstr t ''AESDCHAR_IOCSEEKTO''"
  shows "threadproc (file_ops split) False ts (streams, (u, p)) =
    Done (Ret (streams + length ts, (u @ concat ts, if ts = [] then p else 0)))"
  using assms(2)
proof (induction ts arbitrary: streams u p)
  case (Cons t ts)
  have "append_timestamp (file_ops split) t (streams, u, p) = Done (Ret (streams + 1, (u @ t, 0)))"
    using Cons.prems timestamp_once [of split, OF assms(1)] by simp
  with Cons.IH [of "streams + 1" "u @ t" 0] Cons.prems show ?case by simp
qed simp

theorem timer_appends_and_leaks_witness:
  "threadproc (file_ops (\<lambda>s. [s])) False [''timestamp:1'', ''timestamp:2''] (0, ([], 0))
     = Done (Ret (2, (''timestamp:1timestamp:2'', 0)))"
  using timer_appends_and_leaks [of "\<lambda>s. [s]" "[''timestamp:1'', ''timestamp:2'']" 0 "[]" 0] by simp

section \<open>Connections\<close>

text \<open>C25: in whatever order connections arrive and threads complete, the server's loop neither touches a
  freed node nor runs round a cycle: it goes on, with a proper list that owns every node and one open
  descriptor per node, until \<open>accept\<close> fails.\<close>

theorem server_loop_safe:
  assumes "possible_all evs server_init"
  shows "(\<exists>s' xs. main_loop evs server_init = Done (Inr s') \<and> conn_inv xs s') \<or>
    main_loop evs server_init = Done (Inl (- 1))"
  using main_loop_ok [OF conn_inv_init assms] .

theorem server_loop_safe_witness:
  "(\<exists>s' xs. main_loop [Accepted 5 100 1, Completed 100] server_init = Done (Inr s') \<and> conn_inv xs s') \<or>
    main_loop [Accepted 5 100 1, Completed 100] server_init = Done (Inl (- 1))"
proof (rule server_loop_safe)
  have first: "5 \<notin> open_fds server_init" "100 \<notin> dom (conns server_init)"
    by (simp_all add: server_init_def)
  from serve_connection_ok [OF conn_inv_init _ first(1) _ first(2), of 1]
  obtain s' where s': "serve_connection 5 100 1 server_init = Done (Inr s')" "conn_inv [100] s'" by auto
  then show "possible_all [Accepted 5 100 1, Completed 100] server_init"
    using first by (auto simp: conn_inv_def)
qed

text \<open>C24: accepting a connection puts its node in front and, in the same round, closes the descriptor of,
  joins, unlinks and frees exactly the connections whose threads were complete; the others keep
  their order and their data.\<close>

theorem accept_adds_and_reaps:
  fixes s :: server
  assumes "conn_inv xs s" and "0 \<le> fd" "fd \<notin> open_fds s" and "p \<noteq> 0" "p \<notin> dom (conns s)"
  shows "\<exists>s'. serve_connection fd p tid s = Done (Inr s') \<and>
    conn_inv (p # filter (\<lambda>x. \<not> thread_complete (conn_at s x)) xs) s' \<and>
    qget (conns s') = (qget (conns s) |` (- set (filter (\<lambda>x. thread_complete (conn_at s x)) xs)))
      (p \<mapsto> \<lparr>acceptedfd = fd, thread = tid, thread_complete = False\<rparr>) \<and>
    joined s' = joined s @ map (\<lambda>x. thread (conn_at s x)) (filter (\<lambda>x. thread_complete (conn_at s x)) xs)"
  using assms by (rule serve_connection_ok)

theorem accept_adds_and_reaps_witness:
  "\<exists>s'. serve_connection 5 100 7 server_init = Done (Inr s') \<and> conn_inv [100] s' \<and> joined s' = []"
  using accept_adds_and_reaps [OF conn_inv_init, of 5 100 7] by (simp add: server_init_def) blast

text \<open>On a signal the server joins the thread of every connection still in the list, newest first, frees
  every node and exits with the signal's number.\<close>

theorem signal_drains:
  fixes s :: server
  assumes "conn_inv xs s"
  shows "\<exists>s'. sig_handler signum s = Done (signum, s') \<and> conns s' = Map.empty \<and> SLIST_EMPTY (shead s') \<and>
    joined s' = joined s @ map (\<lambda>x. thread (conn_at s x)) xs"
  using assms by (rule sig_handler_ok)

theorem signal_drains_witness:
  "\<exists>s'. sig_handler 15 server_init = Done (15, s') \<and> conns s' = Map.empty"
  using signal_drains [OF conn_inv_init, of 15] by blast

text \<open>C36: a signal between any two statements of the accept loop, however far the threads are: the handler
  joins every thread that was created and not joined, once, and exits with the signal's number, unless
  the signal comes between linking a new node and creating its thread or between joining a finished
  thread and unlinking its node, or \<^verbatim>\<open>pthread_create\<close> has failed before. There it joins a thread that does
  not exist.\<close>

theorem signal_at_every_point:
  assumes "loop_reach pt s"
  shows "if fatal pt \<or> threadless s \<noteq> {} then sig_handler_at signum s = Fault
    else \<exists>s' ts. sig_handler_at signum s = Done (signum, s') \<and> running s' = {} \<and>
      joined (srv s') = joined (srv s) @ ts \<and> distinct ts \<and> set ts = running s"
  using assms by (rule signal_at)

theorem signal_at_every_point_witness:
  "\<exists>s t u. loop_reach (At_create 100) s \<and> sig_handler_at 15 s = Fault \<and>
    loop_reach (At_foreach 100) t \<and> sig_handler_at 15 t = Fault \<and>
    loop_reach (At_foreach 100) u \<and> (\<exists>u'. sig_handler_at 15 u = Done (15, u') \<and> joined (srv u') = [7])"
proof -
  obtain s t u where s4: "loop_reach (At_create 100) s" and t: "loop_reach (At_foreach 100) t" "threadless t = {100}"
      and u: "loop_reach (At_foreach 100) u" "threadless u = {}" "running u = {7}" "joined (srv u) = []"
    using first_connection by blast
  obtain u' ts where "sig_handler_at 15 u = Done (15, u')" "joined (srv u') = ts" "distinct ts" "set ts = {7}"
    using signal_at_every_point [OF u(1), of 15] u(2-) by auto
  moreover then have "ts = [7]" by (cases ts; cases "tl ts") auto
  ultimately show ?thesis
    using signal_at_every_point [OF s4, of 15] signal_at_every_point [OF t(1), of 15] s4 t u(1) by fastforce
qed

text \<open>C37: a signal at any point of the accept loop but the two above, with every \<^verbatim>\<open>pthread_create\<close> so far successful,
  and then the statements of the handler with threads completing in between: the handler waits for a
  thread that has not completed, or its next statement returns and brings it closer to \<^verbatim>\<open>exit\<close>. There every
  thread has been joined once, the data file is removed if it can be, the address list is freed and
  the socket shut down.\<close>

theorem handler_ends:
  assumes "handling pt q0 p q" and "\<not> fatal pt" and "threadless (live q0) = {}"
  shows "if p = Sig_exit
    then running (live q) = {} \<and> \<not> addrinfo q \<and> \<not> listening q \<and> data_file q = (data_file q0 \<and> \<not> removable q0) \<and>
      (\<exists>ts. joined (srv (live q)) = joined (srv (live q0)) @ ts \<and> distinct ts \<and> set ts = running (live q0))
    else blocked p q \<or>
      (\<exists>p' q'. sig_stmt p q = Done (p', q') \<and> handling pt q0 p' q' \<and> sig_left p' q' < sig_left p q)"
proof -
  have ok: "sig_ok q0 p q" using handling_ok [OF assms] .
  show ?thesis
  proof (cases "p = Sig_exit")
    case True
    then show ?thesis
      using ok by (auto simp: sig_ok_def joined_since_def file_done_def unjoined_def)
  next
    case False
    then show ?thesis
      using sig_stmt_ok [OF ok False] handling.stmt [OF assms(1)] by auto
  qed
qed

theorem handler_ends_witness:
  "\<exists>q p' q'. \<not> blocked (Sig_join 100) q \<and> sig_stmt (Sig_join 100) q = Done (p', q') \<and>
     sig_left p' q' < sig_left (Sig_join 100) q"
proof -
  obtain u w where "handling (At_foreach 100) u (Sig_join 100) w" "\<not> blocked (Sig_join 100) w" "threadless (live u) = {}"
    using handling_one_thread by blast
  with handler_ends [OF this(1)] show ?thesis by auto
qed



text \<open>The statements of the handler one after the other are the handler, at every point of the loop and
  whether it faults or exits.\<close>

theorem handler_statements:
  assumes "loop_reach pt (live q)"
  shows "\<exists>n. \<forall>m \<ge> n. sig_run m Sig_remove q = and_then (exit_handler signum q) (\<lambda>(status, q). Done q)"
proof -
  obtain xs where "point_inv pt xs (live q)" using loop_reach_inv [OF assms] by blast
  from sig_run_handler [OF fatal_points(1) [OF this]] show ?thesis by blast
qed

theorem handler_statements_witness:
  "\<exists>n. \<forall>m \<ge> n. sig_run m Sig_remove \<lparr>live = \<lparr>srv = server_init, running = {}, threadless = {}\<rparr>, data_file = True,
      removable = True, addrinfo = True, listening = True\<rparr> =
    Done \<lparr>live = \<lparr>srv = server_init, running = {}, threadless = {}\<rparr>, data_file = False,
      removable = True, addrinfo = False, listening = False\<rparr>"
proof -
  let ?l = "\<lparr>srv = server_init, running = {}, threadless = {}\<rparr>"
  let ?q = "\<lparr>live = ?l, data_file = True, removable = True, addrinfo = True, listening = True\<rparr>"
  have "drain_joined {} server_init = Some (Done ({}, server_init))"
    by (subst drain_joined.simps) (simp add: server_init_def SLIST_INIT_def SLIST_EMPTY_def)
  then have "exit_handler 15 ?q = Done (15, \<lparr>live = ?l, data_file = False, removable = True, addrinfo = False, listening = False\<rparr>)"
    by (simp add: exit_handler_def remove_data_def sig_handler_at_def returns_def)
  with handler_statements [of At_accept ?q 15] loop_reach.start show ?thesis by simp
qed

text \<open>The macros of \<open>queue.h\<close> on a proper list: insertion after a node, removal of a node and
  concatenation have the effect of the list operations, and removing a node that is not in the list
  runs off its end.\<close>

theorem slist_macros:
  "(slist m head (xs @ y # ys) \<and> elm \<noteq> 0 \<and> elm \<notin> set (xs @ y # ys) \<and> elm \<in> dom m \<longrightarrow>
     (\<exists>m'. SLIST_INSERT_AFTER m y elm = Done m' \<and> slist m' head (xs @ y # elm # ys))) \<and>
   (slist m head zs \<and> z \<in> set zs \<longrightarrow>
     (\<exists>m' h. SLIST_REMOVE m head z = Done (m', h) \<and> slist m' h (remove1 z zs))) \<and>
   (slist m head zs \<and> slist m head2 ws \<and> set zs \<inter> set ws = {} \<longrightarrow>
     (\<exists>m' h. SLIST_CONCAT m head head2 = Done (m', h, 0) \<and> slist m' h (zs @ ws))) \<and>
   (slist m head zs \<and> m 0 = None \<and> z \<notin> set zs \<and> z \<noteq> 0 \<longrightarrow> SLIST_REMOVE m head z = Fault)"
proof (intro conjI impI)
  assume "slist m head (xs @ y # ys) \<and> elm \<noteq> 0 \<and> elm \<notin> set (xs @ y # ys) \<and> elm \<in> dom m"
  then show "\<exists>m'. SLIST_INSERT_AFTER m y elm = Done m' \<and> slist m' head (xs @ y # elm # ys)"
    using insert_after_slist [of m head xs y ys elm] by blast
next
  assume "slist m head zs \<and> z \<in> set zs"
  then show "\<exists>m' h. SLIST_REMOVE m head z = Done (m', h) \<and> slist m' h (remove1 z zs)"
    using remove_slist by blast
next
  assume "slist m head zs \<and> slist m head2 ws \<and> set zs \<inter> set ws = {}"
  then show "\<exists>m' h. SLIST_CONCAT m head head2 = Done (m', h, 0) \<and> slist m' h (zs @ ws)"
    using concat_slist [of m head zs head2 ws] by auto
next
  assume "slist m head zs \<and> m 0 = None \<and> z \<notin> set zs \<and> z \<noteq> 0"
  then show "SLIST_REMOVE m head z = Fault"
    using remove_absent by blast
qed

theorem slist_macros_witness:
  "\<exists>m' h. SLIST_REMOVE [7 \<mapsto> \<lparr>sle_next = 9, qdata = ()\<rparr>, 9 \<mapsto> \<lparr>sle_next = 0, qdata = ()\<rparr>] 7 9 = Done (m', h) \<and>
     slist m' h [7]"
  using slist_macros [of "[7 \<mapsto> \<lparr>sle_next = 9, qdata = ()\<rparr>, 9 \<mapsto> \<lparr>sle_next = 0, qdata = ()\<rparr>]" 7 "[]" 0 "[]" 0
      "[7, 9]" 9 0 "[]"]
  by simp

end
