(* ===== verification/Queue_Links.thy ===== *)
theory Queue_Links
  imports Slist_Queue
begin

text \<open>
  What the linked queues of \<^verbatim>\<open>server/queue.h\<close> share. Their second links are not pointers to
  elements but addresses of pointer fields: the field \<open>xxh_first\<close> of a head or the field \<open>xxe_next\<close>
  of an element. \<open>qlink\<close> is such an address. A memory is looked at through two views, the pointer
  stored in the field at an address and the address stored in the member after it, and a queue is
  a list of elements those two views spell out: \<open>chain\<close> forwards, \<open>backs\<close> backwards. The lemmas
  say how they react to a changed field; the interfaces at the end say what the three kinds of
  queue promise.
\<close>

section \<open>Addresses of links\<close>

text \<open>\<open>FirstOf h\<close> is \<^verbatim>\<open>&h->xxh_first\<close>, \<open>NextOf p\<close> is \<^verbatim>\<open>&p->field.xxe_next\<close>.\<close>

datatype qlink = FirstOf nptr | NextOf nptr

text \<open>Access to a member through a pointer: a dead object faults.\<close>

definition live :: "'a option \<Rightarrow> 'a outcome" where
  "live r = (case r of None \<Rightarrow> Fault | Some v \<Rightarrow> Done v)"

lemma live_simps [simp]: "live None = Fault" "live (Some v) = Done v"
  by (simp_all add: live_def)

section \<open>Linked elements\<close>

fun first_or :: "nptr list \<Rightarrow> nptr \<Rightarrow> nptr" where
  "first_or [] z = z"
| "first_or (x # xs) z = x"

fun chain :: "(qlink \<Rightarrow> nptr option) \<Rightarrow> nptr list \<Rightarrow> nptr \<Rightarrow> bool" where
  "chain f [] z \<longleftrightarrow> True"
| "chain f (x # xs) z \<longleftrightarrow> x \<noteq> 0 \<and> f (NextOf x) = Some (first_or xs z) \<and> chain f xs z"

fun cell_after :: "qlink \<Rightarrow> nptr list \<Rightarrow> qlink" where
  "cell_after l [] = l"
| "cell_after l (x # xs) = cell_after (NextOf x) xs"

fun backs :: "(qlink \<Rightarrow> qlink option) \<Rightarrow> qlink \<Rightarrow> nptr list \<Rightarrow> bool" where
  "backs b l [] \<longleftrightarrow> True"
| "backs b l (x # xs) \<longleftrightarrow> b (NextOf x) = Some l \<and> backs b (NextOf x) xs"

lemma first_or_append [simp]: "first_or (xs @ ys) z = first_or xs (first_or ys z)"
  by (cases xs) auto

lemma first_or_first: "first_or xs 0 = first xs"
  by (cases xs) auto

lemma first_or_null: "chain f xs 0 \<Longrightarrow> first_or xs 0 = 0 \<longleftrightarrow> xs = []"
  by (cases xs) auto

lemma chain_append [simp]: "chain f (xs @ ys) z \<longleftrightarrow> chain f xs (first_or ys z) \<and> chain f ys z"
  by (induction xs) auto

lemma chain_frame: "chain f xs z \<Longrightarrow> \<forall>x \<in> set xs. f' (NextOf x) = f (NextOf x) \<Longrightarrow> chain f' xs z"
  by (induction xs) auto

lemma chain_upd [simp]: "chain (f(FirstOf h := v)) xs z = chain f xs z"
    "x \<notin> set xs \<Longrightarrow> chain (f(NextOf x := v)) xs z = chain f xs z"
  by (induction xs) auto

lemma chain_nonnull: "chain f xs z \<Longrightarrow> 0 \<notin> set xs"
  by (induction xs) auto

lemma chain_live: "chain f xs z \<Longrightarrow> x \<in> set xs \<Longrightarrow> \<exists>v. f (NextOf x) = Some v"
  by (induction xs) auto

lemma chain_unique:
  "chain f xs 0 \<Longrightarrow> chain f ys 0 \<Longrightarrow> first_or xs 0 = first_or ys 0 \<Longrightarrow> xs = ys"
proof (induction xs arbitrary: ys)
  case Nil
  then show ?case by (cases ys) auto
next
  case (Cons x xs)
  then show ?case by (cases ys) auto
qed

lemma chain_distinct: "chain f xs 0 \<Longrightarrow> distinct xs"
proof (induction xs)
  case (Cons x xs)
  have "x \<notin> set xs"
  proof
    assume "x \<in> set xs"
    then obtain as bs where xs: "xs = as @ x # bs" by (meson split_list)
    with Cons.prems have "x # xs = x # bs"
      by (intro chain_unique [of f]) auto
    with xs show False by simp
  qed
  with Cons show ?case by simp
qed simp

lemma cell_after_append [simp]: "cell_after l (xs @ ys) = cell_after (cell_after l xs) ys"
  by (induction xs arbitrary: l) auto

lemma cell_after_cases: "cell_after l xs = l \<and> xs = [] \<or> (\<exists>x \<in> set xs. cell_after l xs = NextOf x)"
  by (cases xs rule: rev_cases) auto

lemma chain_end: "chain f xs 0 \<Longrightarrow> f l = Some (first_or xs 0) \<Longrightarrow> f (cell_after l xs) = Some 0"
  by (induction xs arbitrary: l) auto

lemma backs_append [simp]: "backs b l (xs @ ys) \<longleftrightarrow> backs b l xs \<and> backs b (cell_after l xs) ys"
  by (induction xs arbitrary: l) auto

lemma backs_frame:
  "backs b l xs \<Longrightarrow> \<forall>x \<in> set xs. b' (NextOf x) = b (NextOf x) \<Longrightarrow> backs b' l xs"
  by (induction xs arbitrary: l) auto

lemma backs_upd [simp]: "backs (b(FirstOf h := v)) l xs = backs b l xs"
    "x \<notin> set xs \<Longrightarrow> backs (b(NextOf x := v)) l xs = backs b l xs"
  by (induction xs arbitrary: l) auto

lemma backs_live: "backs b l xs \<Longrightarrow> x \<in> set xs \<Longrightarrow> \<exists>k. b (NextOf x) = Some k"
  by (induction xs arbitrary: l) auto

text \<open>The first element of a suffix is the only one that points back out of it.\<close>

lemma backs_redirect:
  "backs b l xs \<Longrightarrow> distinct xs \<Longrightarrow> xs \<noteq> [] \<Longrightarrow> backs (b(NextOf (first_or xs z) \<mapsto> k)) k xs"
  by (cases xs) auto

section \<open>The operations on lists\<close>

fun put_after :: "'a \<Rightarrow> 'a \<Rightarrow> 'a list \<Rightarrow> 'a list" where
  "put_after y x [] = []"
| "put_after y x (z # zs) = (if z = y then z # x # zs else z # put_after y x zs)"

fun put_before :: "'a \<Rightarrow> 'a \<Rightarrow> 'a list \<Rightarrow> 'a list" where
  "put_before y x [] = []"
| "put_before y x (z # zs) = (if z = y then x # z # zs else z # put_before y x zs)"

fun drop_after :: "'a \<Rightarrow> 'a list \<Rightarrow> 'a list" where
  "drop_after y [] = []"
| "drop_after y (z # zs) = (if z = y then z # tl zs else z # drop_after y zs)"

lemma list_ops_split:
  assumes "y \<notin> set xs"
  shows "put_after y x (xs @ y # ys) = xs @ y # x # ys" "put_before y x (xs @ y # ys) = xs @ x # y # ys"
    "drop_after y (xs @ y # ys) = xs @ y # tl ys" "remove1 y (xs @ y # ys) = xs @ ys"
  using assms by (induction xs) auto

lemma set_tl: "set (tl xs) \<subseteq> set xs"
  by (cases xs) auto

lemma list_ops_set:
  "set (put_after y x xs) \<subseteq> insert x (set xs)" "set (put_before y x xs) \<subseteq> insert x (set xs)"
  "set (drop_after y xs) \<subseteq> set xs"
  by (induction xs) (auto dest: set_tl [THEN subsetD])

section \<open>Several queues in one memory\<close>

text \<open>\<open>\<sigma>\<close> gives the list of each head of \<open>hs\<close>; no element is in two queues.\<close>

definition represents ::
    "('m \<Rightarrow> nptr \<Rightarrow> nptr list \<Rightarrow> bool) \<Rightarrow> 'm \<Rightarrow> nptr list \<Rightarrow> (nptr \<Rightarrow> nptr list) \<Rightarrow> bool" where
  "represents queue_at m hs \<sigma> \<longleftrightarrow> (\<forall>h \<in> set hs. queue_at m h (\<sigma> h)) \<and>
     (\<forall>h \<in> set hs. \<forall>k \<in> set hs. h \<noteq> k \<longrightarrow> set (\<sigma> h) \<inter> set (\<sigma> k) = {})"

definition elements :: "nptr list \<Rightarrow> (nptr \<Rightarrow> nptr list) \<Rightarrow> nptr set" where
  "elements hs \<sigma> = (\<Union>h \<in> set hs. set (\<sigma> h))"

text \<open>The macros that change a queue. Where a macro has no head of its own (\<^verbatim>\<open>LIST_REMOVE\<close>, the
  insertions next to an element), the one given here is that of the queue the element is in.\<close>

datatype queue_op =
    Init nptr
  | InsertHead nptr nptr
  | InsertTail nptr nptr
  | InsertAfter nptr nptr nptr
  | InsertBefore nptr nptr nptr
  | RemoveElm nptr nptr
  | RemoveHead nptr
  | RemoveAfter nptr nptr
  | Concat nptr nptr
  | Swap nptr nptr

text \<open>What each promises on the lists; \<open>None\<close> where its caller broke the contract.\<close>

fun queue_spec :: "nptr list \<Rightarrow> queue_op \<Rightarrow> (nptr \<Rightarrow> nptr list) \<Rightarrow> (nptr \<Rightarrow> nptr list) option" where
  "queue_spec hs (Init h) \<sigma> = (if h \<in> set hs then Some (\<sigma>(h := [])) else None)"
| "queue_spec hs (InsertHead h e) \<sigma> =
     (if h \<in> set hs \<and> e \<notin> elements hs \<sigma> then Some (\<sigma>(h := e # \<sigma> h)) else None)"
| "queue_spec hs (InsertTail h e) \<sigma> =
     (if h \<in> set hs \<and> e \<notin> elements hs \<sigma> then Some (\<sigma>(h := \<sigma> h @ [e])) else None)"
| "queue_spec hs (InsertAfter h y e) \<sigma> =
     (if h \<in> set hs \<and> y \<in> set (\<sigma> h) \<and> e \<notin> elements hs \<sigma> then Some (\<sigma>(h := put_after y e (\<sigma> h))) else None)"
| "queue_spec hs (InsertBefore h y e) \<sigma> =
     (if h \<in> set hs \<and> y \<in> set (\<sigma> h) \<and> e \<notin> elements hs \<sigma> then Some (\<sigma>(h := put_before y e (\<sigma> h))) else None)"
| "queue_spec hs (RemoveElm h y) \<sigma> =
     (if h \<in> set hs \<and> y \<in> set (\<sigma> h) then Some (\<sigma>(h := remove1 y (\<sigma> h))) else None)"
| "queue_spec hs (RemoveHead h) \<sigma> =
     (if h \<in> set hs \<and> \<sigma> h \<noteq> [] then Some (\<sigma>(h := tl (\<sigma> h))) else None)"
| "queue_spec hs (RemoveAfter h y) \<sigma> =
     (if h \<in> set hs \<and> y \<in> set (\<sigma> h) \<and> y \<noteq> last (\<sigma> h) then Some (\<sigma>(h := drop_after y (\<sigma> h))) else None)"
| "queue_spec hs (Concat h k) \<sigma> =
     (if h \<in> set hs \<and> k \<in> set hs \<and> h \<noteq> k then Some (\<sigma>(h := \<sigma> h @ \<sigma> k, k := [])) else None)"
| "queue_spec hs (Swap h k) \<sigma> =
     (if h \<in> set hs \<and> k \<in> set hs \<and> h \<noteq> k then Some (\<sigma>(h := \<sigma> k, k := \<sigma> h)) else None)"

fun added :: "queue_op \<Rightarrow> nptr list" where
  "added (InsertHead h e) = [e]"
| "added (InsertTail h e) = [e]"
| "added (InsertAfter h y e) = [e]"
| "added (InsertBefore h y e) = [e]"
| "added op = []"

text \<open>The queues at \<open>H\<close> and their elements \<open>S\<close> are touched, nothing else is: every queue that shares
  neither head nor element stays, and so does what the elements carry.\<close>

definition keeps_others ::
    "('m \<Rightarrow> nptr \<Rightarrow> nptr list \<Rightarrow> bool) \<Rightarrow> 'm \<Rightarrow> 'm \<Rightarrow> nptr set \<Rightarrow> nptr set \<Rightarrow> bool" where
  "keeps_others queue_at m m' H S \<longleftrightarrow>
     (\<forall>h zs. h \<notin> H \<longrightarrow> set zs \<inter> S = {} \<longrightarrow> queue_at m h zs \<longrightarrow> queue_at m' h zs)"

definition becomes ::
    "('m \<Rightarrow> nptr \<Rightarrow> nptr list \<Rightarrow> bool) \<Rightarrow> ('m \<Rightarrow> nptr \<Rightarrow> 'd option) \<Rightarrow>
     'm \<Rightarrow> nptr \<Rightarrow> nptr list \<Rightarrow> 'm \<Rightarrow> nptr list \<Rightarrow> bool" where
  "becomes queue_at data m h xs m' ys \<longleftrightarrow> queue_at m' h ys \<and> data m' = data m \<and>
     keeps_others queue_at m m' {h} (set xs \<union> set ys)"

lemma keeps_others_trans:
  assumes "keeps_others queue_at m m1 H S" and "keeps_others queue_at m1 m2 H T" and "T \<subseteq> S"
  shows "keeps_others queue_at m m2 H S"
proof -
  have "set zs \<inter> S = {} \<Longrightarrow> set zs \<inter> T = {}" for zs using assms(3) by blast
  with assms show ?thesis by (simp add: keeps_others_def)
qed

lemma keeps_others_refl: "keeps_others queue_at m m H S"
  by (simp add: keeps_others_def)

lemma represents_one:
  assumes r: "represents queue_at m hs \<sigma>" and h: "h \<in> set hs"
    and b: "becomes queue_at data m h (\<sigma> h) m' ys" and ys: "set ys \<subseteq> set (\<sigma> h) \<union> (- elements hs \<sigma>)"
  shows "represents queue_at m' hs (\<sigma>(h := ys))"
proof -
  have disj: "set (\<sigma> k) \<inter> (set (\<sigma> h) \<union> set ys) = {}" if "k \<in> set hs" "k \<noteq> h" for k
    using r h ys that by (fastforce simp: represents_def elements_def)
  with r b have "queue_at m' k (\<sigma> k)" if "k \<in> set hs" "k \<noteq> h" for k
    using that by (auto simp: represents_def becomes_def keeps_others_def)
  with r b disj h show ?thesis
    by (fastforce simp: represents_def becomes_def)
qed

lemma represents_two:
  assumes r: "represents queue_at m hs \<sigma>" and h: "h \<in> set hs" "k \<in> set hs" "h \<noteq> k"
    and new: "queue_at m' h ys" "queue_at m' k zs" "set ys \<inter> set zs = {}"
    and sub: "set ys \<union> set zs \<subseteq> set (\<sigma> h) \<union> set (\<sigma> k)"
    and frame: "keeps_others queue_at m m' {h, k} (set (\<sigma> h) \<union> set (\<sigma> k))"
  shows "represents queue_at m' hs (\<sigma>(h := ys, k := zs))"
proof -
  have disj: "set (\<sigma> j) \<inter> (set (\<sigma> h) \<union> set (\<sigma> k)) = {}" if "j \<in> set hs" "j \<noteq> h" "j \<noteq> k" for j
    using r h that by (fastforce simp: represents_def)
  with r frame have "queue_at m' j (\<sigma> j)" if "j \<in> set hs" "j \<noteq> h" "j \<noteq> k" for j
    using that by (auto simp: represents_def keeps_others_def)
  moreover have "set (\<sigma> j) \<inter> set ys = {} \<and> set (\<sigma> j) \<inter> set zs = {}" if "j \<in> set hs" "j \<noteq> h" "j \<noteq> k" for j
    using disj [OF that] sub by blast
  ultimately show ?thesis
    using r new h by (simp add: represents_def Int_commute)
qed

text \<open>The macros of one kind of queue. Not every kind has them all.\<close>

record 'm queue_macros =
  m_init :: "'m \<Rightarrow> nptr \<Rightarrow> 'm outcome"
  m_insert_head :: "'m \<Rightarrow> nptr \<Rightarrow> nptr \<Rightarrow> 'm outcome"
  m_insert_tail :: "('m \<Rightarrow> nptr \<Rightarrow> nptr \<Rightarrow> 'm outcome) option"
  m_insert_after :: "'m \<Rightarrow> nptr \<Rightarrow> nptr \<Rightarrow> nptr \<Rightarrow> 'm outcome"
  m_insert_before :: "('m \<Rightarrow> nptr \<Rightarrow> nptr \<Rightarrow> 'm outcome) option"
  m_remove :: "'m \<Rightarrow> nptr \<Rightarrow> nptr \<Rightarrow> 'm outcome"
  m_remove_head :: "('m \<Rightarrow> nptr \<Rightarrow> 'm outcome) option"
  m_remove_after :: "('m \<Rightarrow> nptr \<Rightarrow> nptr \<Rightarrow> 'm outcome) option"
  m_concat :: "'m \<Rightarrow> nptr \<Rightarrow> nptr \<Rightarrow> 'm outcome"
  m_swap :: "'m \<Rightarrow> nptr \<Rightarrow> nptr \<Rightarrow> 'm outcome"

fun provides :: "'m queue_macros \<Rightarrow> queue_op \<Rightarrow> bool" where
  "provides M (InsertTail h e) \<longleftrightarrow> m_insert_tail M \<noteq> None"
| "provides M (InsertBefore h y e) \<longleftrightarrow> m_insert_before M \<noteq> None"
| "provides M (RemoveHead h) \<longleftrightarrow> m_remove_head M \<noteq> None"
| "provides M (RemoveAfter h y) \<longleftrightarrow> m_remove_after M \<noteq> None"
| "provides M op \<longleftrightarrow> True"

fun exec_op :: "'m queue_macros \<Rightarrow> queue_op \<Rightarrow> 'm \<Rightarrow> 'm outcome option" where
  "exec_op M (Init h) m = Some (m_init M m h)"
| "exec_op M (InsertHead h e) m = Some (m_insert_head M m h e)"
| "exec_op M (InsertTail h e) m = map_option (\<lambda>f. f m h e) (m_insert_tail M)"
| "exec_op M (InsertAfter h y e) m = Some (m_insert_after M m h y e)"
| "exec_op M (InsertBefore h y e) m = map_option (\<lambda>f. f m y e) (m_insert_before M)"
| "exec_op M (RemoveElm h y) m = Some (m_remove M m h y)"
| "exec_op M (RemoveHead h) m = map_option (\<lambda>f. f m h) (m_remove_head M)"
| "exec_op M (RemoveAfter h y) m = map_option (\<lambda>f. f m h y) (m_remove_after M)"
| "exec_op M (Concat h k) m = Some (m_concat M m h k)"
| "exec_op M (Swap h k) m = Some (m_swap M m h k)"

fun exec_all :: "'m queue_macros \<Rightarrow> queue_op list \<Rightarrow> 'm \<Rightarrow> 'm outcome option" where
  "exec_all M [] m = Some (Done m)"
| "exec_all M (op # ops) m =
     (case exec_op M op m of Some (Done m) \<Rightarrow> exec_all M ops m | r \<Rightarrow> r)"

fun spec_all :: "nptr list \<Rightarrow> queue_op list \<Rightarrow> (nptr \<Rightarrow> nptr list) \<Rightarrow> (nptr \<Rightarrow> nptr list) option" where
  "spec_all hs [] \<sigma> = Some \<sigma>"
| "spec_all hs (op # ops) \<sigma> = Option.bind (queue_spec hs op \<sigma>) (spec_all hs ops)"

definition fresh :: "('m \<Rightarrow> nptr \<Rightarrow> 'd option) \<Rightarrow> 'm \<Rightarrow> nptr \<Rightarrow> bool" where
  "fresh data m e \<longleftrightarrow> e \<noteq> 0 \<and> data m e \<noteq> None"

section \<open>The contract of a kind of queue\<close>

text \<open>Each macro turns the list of its queue into what the specification says. From that, any
  sequence of macro calls on any number of queues does.\<close>

locale queue_kind =
  fixes M :: "'m queue_macros"
    and queue_at :: "'m \<Rightarrow> nptr \<Rightarrow> nptr list \<Rightarrow> bool"
    and data :: "'m \<Rightarrow> nptr \<Rightarrow> 'd option"
  assumes init: "queue_at m h xs \<Longrightarrow> \<exists>m'. m_init M m h = Done m' \<and> becomes queue_at data m h xs m' []"
    and insert_head: "queue_at m h xs \<Longrightarrow> fresh data m e \<Longrightarrow> e \<notin> set xs \<Longrightarrow>
      \<exists>m'. m_insert_head M m h e = Done m' \<and> becomes queue_at data m h xs m' (e # xs)"
    and insert_tail: "m_insert_tail M = Some f \<Longrightarrow> queue_at m h xs \<Longrightarrow> fresh data m e \<Longrightarrow> e \<notin> set xs \<Longrightarrow>
      \<exists>m'. f m h e = Done m' \<and> becomes queue_at data m h xs m' (xs @ [e])"
    and insert_after: "queue_at m h (xs @ y # ys) \<Longrightarrow> fresh data m e \<Longrightarrow> e \<notin> set (xs @ y # ys) \<Longrightarrow>
      \<exists>m'. m_insert_after M m h y e = Done m' \<and> becomes queue_at data m h (xs @ y # ys) m' (xs @ y # e # ys)"
    and insert_before: "m_insert_before M = Some g \<Longrightarrow> queue_at m h (xs @ y # ys) \<Longrightarrow> fresh data m e \<Longrightarrow>
      e \<notin> set (xs @ y # ys) \<Longrightarrow>
      \<exists>m'. g m y e = Done m' \<and> becomes queue_at data m h (xs @ y # ys) m' (xs @ e # y # ys)"
    and remove: "queue_at m h (xs @ y # ys) \<Longrightarrow>
      \<exists>m'. m_remove M m h y = Done m' \<and> becomes queue_at data m h (xs @ y # ys) m' (xs @ ys)"
    and remove_head: "m_remove_head M = Some p \<Longrightarrow> queue_at m h (x # xs) \<Longrightarrow>
      \<exists>m'. p m h = Done m' \<and> becomes queue_at data m h (x # xs) m' xs"
    and remove_after: "m_remove_after M = Some g \<Longrightarrow> queue_at m h (xs @ y # x # ys) \<Longrightarrow>
      \<exists>m'. g m h y = Done m' \<and> becomes queue_at data m h (xs @ y # x # ys) m' (xs @ y # ys)"
    and concat: "queue_at m h xs \<Longrightarrow> queue_at m k ys \<Longrightarrow> h \<noteq> k \<Longrightarrow> set xs \<inter> set ys = {} \<Longrightarrow>
      \<exists>m'. m_concat M m h k = Done m' \<and> queue_at m' h (xs @ ys) \<and> queue_at m' k [] \<and> data m' = data m \<and>
        keeps_others queue_at m m' {h, k} (set xs \<union> set ys)"
    and swap: "queue_at m h xs \<Longrightarrow> queue_at m k ys \<Longrightarrow> h \<noteq> k \<Longrightarrow> set xs \<inter> set ys = {} \<Longrightarrow>
      \<exists>m'. m_swap M m h k = Done m' \<and> queue_at m' h ys \<and> queue_at m' k xs \<and> data m' = data m \<and>
        keeps_others queue_at m m' {h, k} (set xs \<union> set ys)"
    and queue_distinct: "queue_at m h xs \<Longrightarrow> distinct xs"
begin

lemma one_queue:
  assumes "represents queue_at m hs \<sigma>" and "h \<in> set hs"
    and "\<exists>m'. r = Done m' \<and> becomes queue_at data m h (\<sigma> h) m' ys"
    and "set ys \<subseteq> set (\<sigma> h) \<union> - elements hs \<sigma>"
  shows "\<exists>m'. r = Done m' \<and> represents queue_at m' hs (\<sigma>(h := ys)) \<and> data m' = data m"
  using assms represents_one [OF assms(1,2) _ assms(4)] by (auto simp: becomes_def)

lemma two_queues:
  assumes r: "represents queue_at m hs \<sigma>" and h: "h \<in> set hs" "k \<in> set hs" "h \<noteq> k"
    and ex: "\<exists>m'. r = Done m' \<and> queue_at m' h ys \<and> queue_at m' k zs \<and> data m' = data m \<and>
        keeps_others queue_at m m' {h, k} (set (\<sigma> h) \<union> set (\<sigma> k))"
    and s: "set ys \<inter> set zs = {}" "set ys \<union> set zs \<subseteq> set (\<sigma> h) \<union> set (\<sigma> k)"
  shows "\<exists>m'. r = Done m' \<and> represents queue_at m' hs (\<sigma>(h := ys, k := zs)) \<and> data m' = data m"
  using ex represents_two [OF r h _ _ s] by blast

lemma at_head: "represents queue_at m hs \<sigma> \<Longrightarrow> h \<in> set hs \<Longrightarrow> queue_at m h (\<sigma> h)"
  by (simp add: represents_def)

lemma at_element:
  assumes "represents queue_at m hs \<sigma>" and "h \<in> set hs" and "y \<in> set (\<sigma> h)"
  obtains xs ys where "\<sigma> h = xs @ y # ys" and "y \<notin> set xs" and "queue_at m h (xs @ y # ys)"
  using assms at_head split_list_first [of y "\<sigma> h"] by metis

lemma not_in: "e \<notin> elements hs \<sigma> \<Longrightarrow> h \<in> set hs \<Longrightarrow> e \<notin> set (\<sigma> h)"
  by (auto simp: elements_def)

text \<open>One macro on one queue, at its ends and inside it.\<close>

lemma ends_refine:
  assumes r: "represents queue_at m hs \<sigma>" and h: "h \<in> set hs"
  shows "\<exists>m'. m_init M m h = Done m' \<and> represents queue_at m' hs (\<sigma>(h := [])) \<and> data m' = data m"
    and "fresh data m e \<Longrightarrow> e \<notin> elements hs \<sigma> \<Longrightarrow>
      \<exists>m'. m_insert_head M m h e = Done m' \<and> represents queue_at m' hs (\<sigma>(h := e # \<sigma> h)) \<and> data m' = data m"
    and "m_insert_tail M = Some f \<Longrightarrow> fresh data m e \<Longrightarrow> e \<notin> elements hs \<sigma> \<Longrightarrow>
      \<exists>m'. f m h e = Done m' \<and> represents queue_at m' hs (\<sigma>(h := \<sigma> h @ [e])) \<and> data m' = data m"
    and "m_remove_head M = Some g \<Longrightarrow> \<sigma> h \<noteq> [] \<Longrightarrow>
      \<exists>m'. g m h = Done m' \<and> represents queue_at m' hs (\<sigma>(h := tl (\<sigma> h))) \<and> data m' = data m"
proof -
  note q = at_head [OF r h] and one = one_queue [OF r h]
  show "\<exists>m'. m_init M m h = Done m' \<and> represents queue_at m' hs (\<sigma>(h := [])) \<and> data m' = data m"
    by (rule one [OF init [OF q]]) simp
  show "\<exists>m'. m_insert_head M m h e = Done m' \<and> represents queue_at m' hs (\<sigma>(h := e # \<sigma> h)) \<and> data m' = data m"
    if "fresh data m e" "e \<notin> elements hs \<sigma>"
    by (rule one [OF insert_head [OF q that(1) not_in [OF that(2) h]]]) (use that in auto)
  show "\<exists>m'. f m h e = Done m' \<and> represents queue_at m' hs (\<sigma>(h := \<sigma> h @ [e])) \<and> data m' = data m"
    if "m_insert_tail M = Some f" "fresh data m e" "e \<notin> elements hs \<sigma>"
    by (rule one [OF insert_tail [OF that(1) q that(2) not_in [OF that(3) h]]]) (use that in auto)
  show "\<exists>m'. g m h = Done m' \<and> represents queue_at m' hs (\<sigma>(h := tl (\<sigma> h))) \<and> data m' = data m"
    if "m_remove_head M = Some g" "\<sigma> h \<noteq> []"
    by (rule one; use remove_head [OF that(1), of m h "hd (\<sigma> h)" "tl (\<sigma> h)"] q that(2) in
        \<open>auto dest: set_tl [THEN subsetD]\<close>)
qed

lemma inside_refine:
  assumes r: "represents queue_at m hs \<sigma>" and h: "h \<in> set hs" and y: "y \<in> set (\<sigma> h)"
  shows "fresh data m e \<Longrightarrow> e \<notin> elements hs \<sigma> \<Longrightarrow>
      \<exists>m'. m_insert_after M m h y e = Done m' \<and> represents queue_at m' hs (\<sigma>(h := put_after y e (\<sigma> h))) \<and> data m' = data m"
    and "m_insert_before M = Some f \<Longrightarrow> fresh data m e \<Longrightarrow> e \<notin> elements hs \<sigma> \<Longrightarrow>
      \<exists>m'. f m y e = Done m' \<and> represents queue_at m' hs (\<sigma>(h := put_before y e (\<sigma> h))) \<and> data m' = data m"
    and "\<exists>m'. m_remove M m h y = Done m' \<and> represents queue_at m' hs (\<sigma>(h := remove1 y (\<sigma> h))) \<and> data m' = data m"
    and "m_remove_after M = Some g \<Longrightarrow> y \<noteq> last (\<sigma> h) \<Longrightarrow>
      \<exists>m'. g m h y = Done m' \<and> represents queue_at m' hs (\<sigma>(h := drop_after y (\<sigma> h))) \<and> data m' = data m"
proof -
  obtain xs ys where split: "\<sigma> h = xs @ y # ys" "y \<notin> set xs" and q: "queue_at m h (xs @ y # ys)"
    using at_element [OF r h y] .
  note one = one_queue [OF r h, unfolded split(1)] and ops = list_ops_split [OF split(2)]
  show "\<exists>m'. m_insert_after M m h y e = Done m' \<and> represents queue_at m' hs (\<sigma>(h := put_after y e (\<sigma> h))) \<and> data m' = data m"
    if "fresh data m e" "e \<notin> elements hs \<sigma>"
    unfolding split(1) ops
    by (rule one [OF insert_after [OF q that(1)]]) (use that not_in [OF that(2) h] split in auto)
  show "\<exists>m'. f m y e = Done m' \<and> represents queue_at m' hs (\<sigma>(h := put_before y e (\<sigma> h))) \<and> data m' = data m"
    if "m_insert_before M = Some f" "fresh data m e" "e \<notin> elements hs \<sigma>"
    unfolding split(1) ops
    by (rule one [OF insert_before [OF that(1) q that(2)]]) (use that not_in [OF that(3) h] split in auto)
  show "\<exists>m'. m_remove M m h y = Done m' \<and> represents queue_at m' hs (\<sigma>(h := remove1 y (\<sigma> h))) \<and> data m' = data m"
    unfolding split(1) ops by (rule one [OF remove [OF q]]) auto
  show "\<exists>m'. g m h y = Done m' \<and> represents queue_at m' hs (\<sigma>(h := drop_after y (\<sigma> h))) \<and> data m' = data m"
    if "m_remove_after M = Some g" "y \<noteq> last (\<sigma> h)"
    unfolding split(1) ops
    by (rule one; use remove_after [OF that(1), of m h xs y "hd ys" "tl ys"] q that(2) split(1) in
        \<open>cases ys; auto\<close>)
qed

lemma macro_refines:
  assumes p: "provides M op" and r: "represents queue_at m hs \<sigma>"
    and s: "queue_spec hs op \<sigma> = Some \<sigma>'" and e: "\<forall>e \<in> set (added op). fresh data m e"
  shows "\<exists>m'. exec_op M op m = Some (Done m') \<and> represents queue_at m' hs \<sigma>' \<and> data m' = data m"
proof (cases op)
  case (Concat h k)
  with s have hk: "h \<in> set hs" "k \<in> set hs" "h \<noteq> k" and \<sigma>': "\<sigma>' = \<sigma>(h := \<sigma> h @ \<sigma> k, k := [])"
    by (auto split: if_splits)
  then have "set (\<sigma> h) \<inter> set (\<sigma> k) = {}" using r by (simp add: represents_def)
  with two_queues [OF r hk concat [OF at_head [OF r hk(1)] at_head [OF r hk(2)] hk(3)]] show ?thesis
    by (simp add: Concat \<sigma>')
next
  case (Swap h k)
  with s have hk: "h \<in> set hs" "k \<in> set hs" "h \<noteq> k" and \<sigma>': "\<sigma>' = \<sigma>(h := \<sigma> k, k := \<sigma> h)"
    by (auto split: if_splits)
  then have "set (\<sigma> h) \<inter> set (\<sigma> k) = {}" using r by (simp add: represents_def)
  with two_queues [OF r hk swap [OF at_head [OF r hk(1)] at_head [OF r hk(2)] hk(3)]] show ?thesis
    by (simp add: Swap \<sigma>' Int_commute Un_commute)
qed (use p s e in \<open>auto split: if_splits intro: ends_refine [OF r] inside_refine [OF r]\<close>)

theorem runs_refine:
  assumes "\<forall>op \<in> set ops. provides M op" and "represents queue_at m hs \<sigma>"
    and "spec_all hs ops \<sigma> = Some \<sigma>'" and "\<forall>op \<in> set ops. \<forall>e \<in> set (added op). fresh data m e"
  shows "\<exists>m'. exec_all M ops m = Some (Done m') \<and> represents queue_at m' hs \<sigma>' \<and> data m' = data m"
  using assms
proof (induction ops arbitrary: m \<sigma>)
  case (Cons op ops)
  then obtain \<sigma>1 where s: "queue_spec hs op \<sigma> = Some \<sigma>1" "spec_all hs ops \<sigma>1 = Some \<sigma>'"
    by (auto simp: bind_eq_Some_conv)
  with Cons.prems macro_refines [of op m hs \<sigma> \<sigma>1] obtain m1 where
    m1: "exec_op M op m = Some (Done m1)" "represents queue_at m1 hs \<sigma>1" "data m1 = data m" by auto
  with Cons.IH [of m1 \<sigma>1] Cons.prems s(2) show ?case
    by (auto simp: fresh_def)
qed simp

end

section \<open>Loops over a queue\<close>

text \<open>The iteration macros of the other queues are the loops of the singly linked ones with another
  step to the following element.\<close>

abbreviation for_next ::
    "('s \<Rightarrow> nptr \<Rightarrow> nptr outcome) \<Rightarrow> (nptr \<Rightarrow> 's \<Rightarrow> 's outcome) \<Rightarrow> nptr \<Rightarrow> 's \<Rightarrow> 's outcome option" where
  "for_next \<equiv> SLIST_FOREACH"

abbreviation for_next_safe ::
    "('s \<Rightarrow> nptr \<Rightarrow> nptr outcome) \<Rightarrow> (nptr \<Rightarrow> 's \<Rightarrow> 's outcome) \<Rightarrow> nptr \<Rightarrow> 's \<Rightarrow> 's outcome option" where
  "for_next_safe \<equiv> SLIST_FOREACH_SAFE"

definition start_at :: "nptr outcome \<Rightarrow> (nptr \<Rightarrow> 's outcome option) \<Rightarrow> 's outcome option" where
  "start_at p loop = (case p of Done var \<Rightarrow> loop var | Fault \<Rightarrow> Some Fault | Hang \<Rightarrow> Some Hang)"

lemma start_at_Done [simp]: "start_at (Done p) loop = loop p"
  by (simp add: start_at_def)

text \<open>A loop whose body keeps the queue folds the body over the elements; the step function is the
  one of either direction.\<close>

lemma for_next_fold:
  assumes step: "\<And>pre x post s. xs = pre @ x # post \<Longrightarrow> good s \<Longrightarrow>
      x \<noteq> 0 \<and> body x s = Done (g x s) \<and> good (g x s) \<and> nxt (g x s) x = Done (first_or post 0)"
    and start: "good s"
  shows "for_next nxt body (first_or xs 0) s = Some (Done (fold g xs s))"
proof -
  let ?good = "\<lambda>rest t. \<exists>pre. xs = pre @ rest \<and> t = fold g pre s \<and> good t"
  have "\<exists>t. for_next nxt body (first xs) s = Some (Done t) \<and> ?good [] t"
  proof (rule foreach_rule)
    fix x rest t assume "?good (x # rest) t"
    then obtain pre where pre: "xs = pre @ x # rest" "t = fold g pre s" "good t" by blast
    moreover have "?good rest (g x t)"
      using step [OF pre(1,3)] pre by (intro exI [of _ "pre @ [x]"]) simp
    ultimately show "x \<noteq> 0 \<and> (\<exists>s'. body x t = Done s' \<and> nxt s' x = Done (first rest) \<and> ?good rest s')"
      using step [OF pre(1,3)] by (auto simp: first_or_first)
  qed (simp add: start)
  then show ?thesis by (auto simp: first_or_first)
qed

text \<open>A safe loop that removes what it likes on its way.\<close>

lemma for_next_safe_sweep:
  assumes step: "\<And>kept x post s. good kept (x # post) s \<Longrightarrow>
      x \<noteq> 0 \<and> nxt s x = Done (first_or post 0) \<and>
      (\<exists>s'. body x s = Done s' \<and> good (if gone x then kept else kept @ [x]) post s')"
    and start: "good [] xs s"
  shows "\<exists>s'. for_next_safe nxt body (first_or xs 0) s = Some (Done s') \<and> good (filter (\<lambda>x. \<not> gone x) xs) [] s'"
proof -
  let ?good = "\<lambda>rest t. \<exists>pre. xs = pre @ rest \<and> good (filter (\<lambda>x. \<not> gone x) pre) rest t"
  have "\<exists>t. for_next_safe nxt body (first xs) s = Some (Done t) \<and> ?good [] t"
  proof (rule foreach_safe_rule)
    fix x rest t assume "?good (x # rest) t"
    then obtain pre where pre: "xs = pre @ x # rest" "good (filter (\<lambda>x. \<not> gone x) pre) (x # rest) t" by blast
    from step [OF this(2)] obtain s' where s': "x \<noteq> 0" "nxt t x = Done (first_or rest 0)" "body x t = Done s'"
        "good (filter (\<lambda>x. \<not> gone x) (pre @ [x])) rest s'" by (auto split: if_splits)
    then show "x \<noteq> 0 \<and> nxt t x = Done (first rest) \<and> (\<exists>s'. body x t = Done s' \<and> ?good rest s')"
      using pre(1) by (auto simp: first_or_first simp del: filter_append intro!: exI [of _ "pre @ [x]"])
  qed (simp add: start)
  then show ?thesis by (auto simp: first_or_first)
qed

section \<open>Queues one can walk along\<close>

locale walked_queue = queue_kind M queue_at data
  for M :: "'m queue_macros" and queue_at :: "'m \<Rightarrow> nptr \<Rightarrow> nptr list \<Rightarrow> bool" and data :: "'m \<Rightarrow> nptr \<Rightarrow> 'd option" +
  fixes head_of :: "'m \<Rightarrow> nptr \<Rightarrow> nptr outcome" and next_of :: "'m \<Rightarrow> nptr \<Rightarrow> nptr outcome"
  assumes head_of: "queue_at m h xs \<Longrightarrow> head_of m h = Done (first_or xs 0)"
    and next_of: "queue_at m h (xs @ y # ys) \<Longrightarrow> y \<noteq> 0 \<and> next_of m y = Done (first_or ys 0)"
begin

text \<open>The state of the loop holds the memory; the body may change the rest of the state.\<close>

lemma visits:
  assumes keep: "\<And>x s. x \<in> set xs \<Longrightarrow> queue_at (mem s) h xs \<Longrightarrow> body x s = Done (g x s) \<and> queue_at (mem (g x s)) h xs"
    and start: "queue_at (mem s) h xs" and suffix: "xs = as @ bs"
  shows "for_next (\<lambda>s. next_of (mem s)) body (first_or bs 0) s = Some (Done (fold g bs s))"
proof (rule for_next_fold [where good = "\<lambda>s. queue_at (mem s) h xs", OF _ start])
  fix pre x post s assume split: "bs = pre @ x # post" and "queue_at (mem s) h xs"
  then have s: "body x s = Done (g x s)" "queue_at (mem (g x s)) h ((as @ pre) @ x # post)"
    using keep [of x s] suffix by auto
  with next_of [OF s(2)] show "x \<noteq> 0 \<and> body x s = Done (g x s) \<and> queue_at (mem (g x s)) h xs \<and>
      next_of (mem (g x s)) x = Done (first_or post 0)"
    using suffix split by simp
qed

text \<open>A safe loop over the elements from \<open>bs\<close> on, removing those that carry what \<open>dead\<close> says.\<close>

lemma sweeps:
  assumes "queue_at m h (as @ bs)"
  shows "\<exists>m'. for_next_safe next_of (\<lambda>x m. if dead (data m x) then m_remove M m h x else Done m) (first_or bs 0) m
        = Some (Done m') \<and>
      becomes queue_at data m h (as @ bs) m' (as @ filter (\<lambda>x. \<not> dead (data m x)) bs)"
proof -
  let ?good = "\<lambda>kept rest s. queue_at s h (as @ kept @ rest) \<and> data s = data m \<and> set (kept @ rest) \<subseteq> set bs \<and>
      keeps_others queue_at m s {h} (set (as @ bs))"
  have "\<exists>m'. for_next_safe next_of (\<lambda>x m. if dead (data m x) then m_remove M m h x else Done m) (first_or bs 0) m
        = Some (Done m') \<and> ?good (filter (\<lambda>x. \<not> dead (data m x)) bs) [] m'"
  proof (rule for_next_safe_sweep)
    fix kept x post s assume "?good kept (x # post) s"
    then have q: "queue_at s h ((as @ kept) @ x # post)" and d: "data s = data m" "set (kept @ x # post) \<subseteq> set bs"
      and k: "keeps_others queue_at m s {h} (set (as @ bs))" by auto
    from remove [OF q] obtain s' where s': "m_remove M s h x = Done s'" "queue_at s' h ((as @ kept) @ post)" "data s' = data s"
        "keeps_others queue_at s s' {h} (set ((as @ kept) @ x # post) \<union> set ((as @ kept) @ post))" by (auto simp: becomes_def)
    have "keeps_others queue_at m s' {h} (set (as @ bs))"
      by (rule keeps_others_trans [OF k s'(4)]) (use d(2) in auto)
    then show "x \<noteq> 0 \<and> next_of s x = Done (first_or post 0) \<and>
        (\<exists>s'. (if dead (data s x) then m_remove M s h x else Done s) = Done s' \<and>
          ?good (if dead (data m x) then kept else kept @ [x]) post s')"
      using next_of [OF q] q d k s'(1-3) by simp
  qed (use assms in \<open>simp add: keeps_others_refl\<close>)
  moreover have "set (as @ bs) \<union> set (as @ filter (\<lambda>x. \<not> dead (data m x)) bs) = set (as @ bs)" by auto
  ultimately show ?thesis
    by (auto simp: becomes_def simp del: set_append)
qed


end

locale back_queue = walked_queue M queue_at data head_of next_of
  for M :: "'m queue_macros" and queue_at :: "'m \<Rightarrow> nptr \<Rightarrow> nptr list \<Rightarrow> bool" and data :: "'m \<Rightarrow> nptr \<Rightarrow> 'd option"
    and head_of :: "'m \<Rightarrow> nptr \<Rightarrow> nptr outcome" and next_of :: "'m \<Rightarrow> nptr \<Rightarrow> nptr outcome" +
  fixes last_of :: "'m \<Rightarrow> nptr \<Rightarrow> nptr outcome" and prev_of :: "'m \<Rightarrow> nptr \<Rightarrow> nptr outcome"
  assumes last_of: "queue_at m h xs \<Longrightarrow> last_of m h = Done (first_or (rev xs) 0)"
    and prev_of: "queue_at m h (xs @ y # ys) \<Longrightarrow> prev_of m y = Done (first_or (rev xs) 0)"
begin

lemma visits_back:
  assumes keep: "\<And>x s. x \<in> set xs \<Longrightarrow> queue_at (mem s) h xs \<Longrightarrow> body x s = Done (g x s) \<and> queue_at (mem (g x s)) h xs"
    and start: "queue_at (mem s) h xs" and prefix: "xs = as @ bs"
  shows "for_next (\<lambda>s. prev_of (mem s)) body (first_or (rev as) 0) s = Some (Done (fold g (rev as) s))"
proof (rule for_next_fold [where good = "\<lambda>s. queue_at (mem s) h xs", OF _ start])
  fix pre x post s assume "rev as = pre @ x # post" and good: "queue_at (mem s) h xs"
  then have "rev (rev as) = rev (pre @ x # post)" by simp
  then have xs: "xs = rev post @ x # (rev pre @ bs)" by (simp add: prefix)
  then have s: "body x s = Done (g x s)" "queue_at (mem (g x s)) h xs"
    using keep [OF _ good, of x] by auto
  show "x \<noteq> 0 \<and> body x s = Done (g x s) \<and> queue_at (mem (g x s)) h xs \<and>
      prev_of (mem (g x s)) x = Done (first_or post 0)"
    using next_of [OF s(2) [unfolded xs]] prev_of [OF s(2) [unfolded xs]] s by simp
qed

lemma sweeps_back:
  assumes "queue_at m h (as @ bs)"
  shows "\<exists>m'. for_next_safe prev_of (\<lambda>x m. if dead (data m x) then m_remove M m h x else Done m)
        (first_or (rev as) 0) m = Some (Done m') \<and>
      becomes queue_at data m h (as @ bs) m' (filter (\<lambda>x. \<not> dead (data m x)) as @ bs)"
proof -
  let ?good = "\<lambda>kept rest s. queue_at s h (rev rest @ rev kept @ bs) \<and> data s = data m \<and>
      set (kept @ rest) \<subseteq> set as \<and> keeps_others queue_at m s {h} (set (as @ bs))"
  have "\<exists>m'. for_next_safe prev_of (\<lambda>x m. if dead (data m x) then m_remove M m h x else Done m) (first_or (rev as) 0) m
        = Some (Done m') \<and> ?good (filter (\<lambda>x. \<not> dead (data m x)) (rev as)) [] m'"
  proof (rule for_next_safe_sweep)
    fix kept x post s assume "?good kept (x # post) s"
    then have q: "queue_at s h (rev post @ x # (rev kept @ bs))" and d: "data s = data m" "set (kept @ x # post) \<subseteq> set as"
      and k: "keeps_others queue_at m s {h} (set (as @ bs))" by auto
    from remove [OF q] obtain s' where s': "m_remove M s h x = Done s'" "queue_at s' h (rev post @ (rev kept @ bs))" "data s' = data s"
        "keeps_others queue_at s s' {h} (set (rev post @ x # (rev kept @ bs)) \<union> set (rev post @ (rev kept @ bs)))"
      by (auto simp: becomes_def)
    have "keeps_others queue_at m s' {h} (set (as @ bs))"
      by (rule keeps_others_trans [OF k s'(4)]) (use d(2) in auto)
    then show "x \<noteq> 0 \<and> prev_of s x = Done (first_or post 0) \<and>
        (\<exists>s'. (if dead (data s x) then m_remove M s h x else Done s) = Done s' \<and>
          ?good (if dead (data m x) then kept else kept @ [x]) post s')"
      using next_of [OF q] prev_of [OF q] q d k s'(1-3) by simp
  qed (use assms in \<open>simp add: keeps_others_refl\<close>)
  moreover have "set (as @ bs) \<union> set (filter (\<lambda>x. \<not> dead (data m x)) as @ bs) = set (as @ bs)" by auto
  ultimately show ?thesis
    by (auto simp: becomes_def rev_filter simp del: set_append)
qed

end

end
