(* ===== verification/Slist_Macros.thy ===== *)
theory Slist_Macros
  imports Queue_Links
begin

text \<open>
  The singly linked lists again, this time with their heads in memory, so that they meet the contract
  the other three kinds of queue meet: \<open>slist_mem\<close> holds the heads next to the heap of nodes, and
  every macro works on the head it is given the address of. The iterations that \<^verbatim>\<open>aesdsocket.c\<close> does not
  use are here too, the one that hands its body the address of the link it came through included.
\<close>

section \<open>Heads in memory\<close>

record slist_head =
  slh_first :: nptr

record 'a slist_mem =
  sl_heads :: "nptr \<rightharpoonup> slist_head"
  sl_heap :: "'a qheap"

definition SLIST_HEAD_INITIALIZER :: slist_head where
  "SLIST_HEAD_INITIALIZER = \<lparr>slh_first = SLIST_INIT\<rparr>"

fun sl_deref :: "'a slist_mem \<Rightarrow> qlink \<Rightarrow> nptr outcome" where
  "sl_deref m (FirstOf h) = live (map_option slh_first (sl_heads m h))"
| "sl_deref m (NextOf p) = SLIST_NEXT (sl_heap m) p"

definition put_head :: "'a slist_mem \<Rightarrow> nptr \<Rightarrow> nptr \<Rightarrow> 'a slist_mem" where
  "put_head m h p = m\<lparr>sl_heads := (sl_heads m)(h \<mapsto> \<lparr>slh_first = p\<rparr>)\<rparr>"

text \<open>A macro on the head at an address, a macro on nodes alone, a macro on two heads.\<close>

definition on_head :: "('a qheap \<Rightarrow> nptr \<Rightarrow> ('a qheap \<times> nptr) outcome) \<Rightarrow> 'a slist_mem \<Rightarrow> nptr \<Rightarrow> 'a slist_mem outcome" where
  "on_head f m h =
     and_then (sl_deref m (FirstOf h)) (\<lambda>p. and_then (f (sl_heap m) p) (\<lambda>(q, p). Done (put_head (m\<lparr>sl_heap := q\<rparr>) h p)))"

definition on_nodes :: "('a qheap \<Rightarrow> 'a qheap outcome) \<Rightarrow> 'a slist_mem \<Rightarrow> 'a slist_mem outcome" where
  "on_nodes f m = and_then (f (sl_heap m)) (\<lambda>q. Done (m\<lparr>sl_heap := q\<rparr>))"

definition on_heads ::
    "('a qheap \<Rightarrow> nptr \<Rightarrow> nptr \<Rightarrow> ('a qheap \<times> nptr \<times> nptr) outcome) \<Rightarrow> 'a slist_mem \<Rightarrow> nptr \<Rightarrow> nptr \<Rightarrow> 'a slist_mem outcome" where
  "on_heads f m h k =
     and_then (sl_deref m (FirstOf h)) (\<lambda>p. and_then (sl_deref m (FirstOf k)) (\<lambda>p'.
     and_then (f (sl_heap m) p p') (\<lambda>(q, p, p'). Done (put_head (put_head (m\<lparr>sl_heap := q\<rparr>) h p) k p'))))"

section \<open>The remaining iterations\<close>

definition SLIST_FOREACH_FROM ::
    "('s \<Rightarrow> 'a slist_mem) \<Rightarrow> (nptr \<Rightarrow> 's \<Rightarrow> 's outcome) \<Rightarrow> nptr \<Rightarrow> nptr \<Rightarrow> 's \<Rightarrow> 's outcome option" where
  "SLIST_FOREACH_FROM mem body var head s =
     start_at (if var \<noteq> 0 then Done var else sl_deref (mem s) (FirstOf head))
       (\<lambda>var. SLIST_FOREACH (\<lambda>s. SLIST_NEXT (sl_heap (mem s))) body var s)"

definition SLIST_FOREACH_FROM_SAFE ::
    "('s \<Rightarrow> 'a slist_mem) \<Rightarrow> (nptr \<Rightarrow> 's \<Rightarrow> 's outcome) \<Rightarrow> nptr \<Rightarrow> nptr \<Rightarrow> 's \<Rightarrow> 's outcome option" where
  "SLIST_FOREACH_FROM_SAFE mem body var head s =
     start_at (if var \<noteq> 0 then Done var else sl_deref (mem s) (FirstOf head))
       (\<lambda>var. SLIST_FOREACH_SAFE (\<lambda>s. SLIST_NEXT (sl_heap (mem s))) body var s)"

partial_function (option) prevptr_loop ::
    "('s \<Rightarrow> 'a slist_mem) \<Rightarrow> (nptr \<Rightarrow> qlink \<Rightarrow> 's \<Rightarrow> 's outcome) \<Rightarrow> qlink \<Rightarrow> 's \<Rightarrow> 's outcome option" where
  "prevptr_loop mem body varp s =
     (case sl_deref (mem s) varp of
        Done var \<Rightarrow>
          if var = 0 then Some (Done s)
          else (case body var varp s of
                  Done s \<Rightarrow> prevptr_loop mem body (NextOf var) s
                | Fault \<Rightarrow> Some Fault | Hang \<Rightarrow> Some Hang)
      | Fault \<Rightarrow> Some Fault | Hang \<Rightarrow> Some Hang)"

definition SLIST_FOREACH_PREVPTR ::
    "('s \<Rightarrow> 'a slist_mem) \<Rightarrow> (nptr \<Rightarrow> qlink \<Rightarrow> 's \<Rightarrow> 's outcome) \<Rightarrow> nptr \<Rightarrow> 's \<Rightarrow> 's outcome option" where
  "SLIST_FOREACH_PREVPTR mem body head s = prevptr_loop mem body (FirstOf head) s"

section \<open>The contract\<close>

definition slistq :: "'a slist_mem \<Rightarrow> nptr \<Rightarrow> nptr list \<Rightarrow> bool" where
  "slistq m h xs \<longleftrightarrow> (\<exists>p. sl_heads m h = Some \<lparr>slh_first = p\<rparr> \<and> slist (sl_heap m) p xs)"

definition sl_data :: "'a slist_mem \<Rightarrow> nptr \<Rightarrow> 'a option" where
  "sl_data m = qget (sl_heap m)"

definition SLIST :: "'a slist_mem queue_macros" where
  "SLIST = \<lparr>m_init = on_head (\<lambda>q head. Done (q, SLIST_INIT)),
     m_insert_head = (\<lambda>m head elm. on_head (\<lambda>q head. SLIST_INSERT_HEAD q head elm) m head), m_insert_tail = None,
     m_insert_after = (\<lambda>m head slistelm elm. on_nodes (\<lambda>q. SLIST_INSERT_AFTER q slistelm elm) m),
     m_insert_before = None,
     m_remove = (\<lambda>m head elm. on_head (\<lambda>q head. SLIST_REMOVE q head elm) m head),
     m_remove_head = Some (on_head (\<lambda>q head. and_then (SLIST_REMOVE_HEAD q head) (\<lambda>head. Done (q, head)))),
     m_remove_after = Some (\<lambda>m head elm. on_nodes (\<lambda>q. SLIST_REMOVE_AFTER q elm) m),
     m_concat = on_heads SLIST_CONCAT,
     m_swap = on_heads (\<lambda>q head1 head2. Done (q, SLIST_SWAP head1 head2))\<rparr>"

text \<open>What every macro leaves alone: nodes outside of its lists.\<close>

lemma frame_slistq:
  assumes "\<forall>h. h \<notin> H \<longrightarrow> sl_heads m' h = sl_heads m h" and "\<forall>x. x \<notin> S \<longrightarrow> sl_heap m' x = sl_heap m x"
  shows "keeps_others slistq m m' H S"
  unfolding keeps_others_def slistq_def
proof (intro allI impI, elim exE conjE)
  fix h zs p
  assume zs: "h \<notin> H" "set zs \<inter> S = {}" "sl_heads m h = Some \<lparr>slh_first = p\<rparr>" "slist (sl_heap m) p zs"
  then have "\<forall>x \<in> set zs. sl_heap m' x = sl_heap m x" using assms(2) by blast
  with zs assms(1) show "\<exists>p. sl_heads m' h = Some \<lparr>slh_first = p\<rparr> \<and> slist (sl_heap m') p zs"
    using slist_frame by auto
qed


lemma relinks_data: "relinks m m' S \<Longrightarrow> qget m' = qget m"
  by (simp add: relinks_def qget_def fun_eq_iff)

lemma slistq_distinct: "slistq m h xs \<Longrightarrow> distinct xs"
  by (auto simp: slistq_def dest: slist_distinct)

text \<open>One list changes, its head and nodes with it.\<close>

lemma becomes_slistq:
  assumes "slist q p ys" and "relinks (sl_heap m) q (set xs \<union> set ys)"
  shows "becomes slistq sl_data m h xs (put_head (m\<lparr>sl_heap := q\<rparr>) h p) ys"
  unfolding becomes_def
proof (intro conjI)
  show "sl_data (put_head (m\<lparr>sl_heap := q\<rparr>) h p) = sl_data m"
    using assms(2) by (simp add: sl_data_def put_head_def relinks_data)
  show "keeps_others slistq m (put_head (m\<lparr>sl_heap := q\<rparr>) h p) {h} (set xs \<union> set ys)"
    using assms(2) by (intro frame_slistq) (auto simp: put_head_def relinks_def)
qed (use assms(1) in \<open>simp add: slistq_def put_head_def\<close>)

lemma becomes_slistq_nodes:
  assumes "sl_heads m h = Some \<lparr>slh_first = p\<rparr>" and "slist q p ys" and "relinks (sl_heap m) q (set xs \<union> set ys)"
  shows "becomes slistq sl_data m h xs (m\<lparr>sl_heap := q\<rparr>) ys"
proof -
  have "put_head (m\<lparr>sl_heap := q\<rparr>) h p = m\<lparr>sl_heap := q\<rparr>"
    using assms(1) by (simp add: put_head_def fun_upd_idem)
  with becomes_slistq [OF assms(2,3), of h] show ?thesis by simp
qed

lemma on_head_slistq:
  assumes "slistq m h xs" and "\<And>p. slist (sl_heap m) p xs \<Longrightarrow>
      \<exists>q p'. f (sl_heap m) p = Done (q, p') \<and> slist q p' ys \<and> relinks (sl_heap m) q (set xs \<union> set ys)"
  shows "\<exists>m'. on_head f m h = Done m' \<and> becomes slistq sl_data m h xs m' ys"
  using assms by (fastforce simp: slistq_def on_head_def intro: becomes_slistq)

lemma on_nodes_slistq:
  assumes "slistq m h xs" and "\<And>p. slist (sl_heap m) p xs \<Longrightarrow>
      \<exists>q. f (sl_heap m) = Done q \<and> slist q p ys \<and> relinks (sl_heap m) q (set xs \<union> set ys)"
  shows "\<exists>m'. on_nodes f m = Done m' \<and> becomes slistq sl_data m h xs m' ys"
  using assms by (fastforce simp: slistq_def on_nodes_def intro: becomes_slistq_nodes)

lemma on_heads_slistq:
  assumes l: "slistq m h xs" "slistq m k ys" "h \<noteq> k"
    and f: "\<And>p p'. slist (sl_heap m) p xs \<Longrightarrow> slist (sl_heap m) p' ys \<Longrightarrow>
      \<exists>q r r'. f (sl_heap m) p p' = Done (q, r, r') \<and> slist q r us \<and> slist q r' vs \<and>
        relinks (sl_heap m) q (set xs \<union> set ys)"
  shows "\<exists>m'. on_heads f m h k = Done m' \<and> slistq m' h us \<and> slistq m' k vs \<and> sl_data m' = sl_data m \<and>
    keeps_others slistq m m' {h, k} (set xs \<union> set ys)"
proof -
  obtain p p' where p: "sl_heads m h = Some \<lparr>slh_first = p\<rparr>" "slist (sl_heap m) p xs"
      "sl_heads m k = Some \<lparr>slh_first = p'\<rparr>" "slist (sl_heap m) p' ys"
    using l by (auto simp: slistq_def)
  then obtain q r r' where q: "f (sl_heap m) p p' = Done (q, r, r')" "slist q r us" "slist q r' vs"
      "relinks (sl_heap m) q (set xs \<union> set ys)" using f by blast
  let ?m = "put_head (put_head (m\<lparr>sl_heap := q\<rparr>) h r) k r'"
  have "keeps_others slistq m ?m {h, k} (set xs \<union> set ys)"
    using q(4) by (intro frame_slistq) (auto simp: put_head_def relinks_def)
  moreover have "sl_data ?m = sl_data m"
    using q(4) by (simp add: sl_data_def put_head_def relinks_data)
  ultimately show ?thesis
    using p q l(3) by (simp add: on_heads_def slistq_def put_head_def)
qed

lemma first_slistq: "slistq m h xs \<Longrightarrow> sl_deref m (FirstOf h) = Done (first_or xs 0)"
  by (auto simp: slistq_def first_or_first dest: slist_first)

lemma next_slistq:
  assumes "slistq m h (xs @ y # ys)"
  shows "y \<noteq> 0 \<and> SLIST_NEXT (sl_heap m) y = Done (first_or ys 0)"
proof -
  obtain p where "slist (sl_heap m) p (xs @ y # ys)"
    using assms by (auto simp: slistq_def)
  from slist_split [OF this] show ?thesis
    by (auto simp: first_or_first SLIST_NEXT_def dest: slist_first)
qed

interpretation slistq: walked_queue SLIST slistq sl_data "\<lambda>m h. sl_deref m (FirstOf h)" "\<lambda>m. SLIST_NEXT (sl_heap m)"
proof (unfold_locales, goal_cases)
  case (1 m h xs)
  then show ?case by (simp add: SLIST_def SLIST_INIT_def on_head_slistq)
next
  case (2 m h xs e)
  then obtain n where "sl_heap m e = Some n" "e \<noteq> 0" by (auto simp: fresh_def sl_data_def qget_def)
  with 2 show ?case
    using insert_head_slist [of "sl_heap m" _ xs e n]
    by (auto simp: SLIST_def intro!: on_head_slistq relinks_upd)
next
  case (4 m h xs y ys e)
  then have e: "e \<noteq> 0" "e \<in> dom (sl_heap m)" by (auto simp: fresh_def sl_data_def qget_def)
  have "\<exists>m'. on_nodes (\<lambda>q. SLIST_INSERT_AFTER q y e) m = Done m' \<and>
      becomes slistq sl_data m h (xs @ y # ys) m' (xs @ y # e # ys)"
  proof (rule on_nodes_slistq [OF 4(1)])
    fix p assume "slist (sl_heap m) p (xs @ y # ys)"
    from insert_after_slist [OF this e(1) 4(3) e(2)]
    show "\<exists>q. SLIST_INSERT_AFTER (sl_heap m) y e = Done q \<and> slist q p (xs @ y # e # ys) \<and>
        relinks (sl_heap m) q (set (xs @ y # ys) \<union> set (xs @ y # e # ys))"
      by (auto elim!: relinks_mono)
  qed
  then show ?case by (simp add: SLIST_def)
next
  case (6 m h xs y ys)
  have "\<exists>m'. on_head (\<lambda>q head. SLIST_REMOVE q head y) m h = Done m' \<and>
      becomes slistq sl_data m h (xs @ y # ys) m' (xs @ ys)"
  proof (rule on_head_slistq [OF 6])
    fix p assume l: "slist (sl_heap m) p (xs @ y # ys)"
    then have "y \<notin> set xs" using slist_distinct by fastforce
    with remove_slist [OF l, of y] show "\<exists>q p'. SLIST_REMOVE (sl_heap m) p y = Done (q, p') \<and> slist q p' (xs @ ys) \<and>
        relinks (sl_heap m) q (set (xs @ y # ys) \<union> set (xs @ ys))"
      by (fastforce simp: remove1_append elim!: relinks_mono)
  qed
  then show ?case by (simp add: SLIST_def)
next
  case (7 p m h x xs)
  then show ?case
    using remove_head_slist [of "sl_heap m" _ x xs]
    by (fastforce simp: SLIST_def intro!: on_head_slistq)
next
  case (8 g m h xs y x ys)
  have "\<exists>m'. on_nodes (\<lambda>q. SLIST_REMOVE_AFTER q y) m = Done m' \<and>
      becomes slistq sl_data m h (xs @ y # x # ys) m' (xs @ y # ys)"
  proof (rule on_nodes_slistq [OF 8(2)])
    fix p assume "slist (sl_heap m) p (xs @ y # x # ys)"
    from remove_after_slist [OF this] obtain n where n: "sl_heap m y = Some n"
        "SLIST_REMOVE_AFTER (sl_heap m) y = Done ((sl_heap m)(y \<mapsto> n\<lparr>sle_next := sle_next (the (sl_heap m x))\<rparr>))"
        "slist ((sl_heap m)(y \<mapsto> n\<lparr>sle_next := sle_next (the (sl_heap m x))\<rparr>)) p (xs @ y # ys)" by blast
    then show "\<exists>q. SLIST_REMOVE_AFTER (sl_heap m) y = Done q \<and> slist q p (xs @ y # ys) \<and>
        relinks (sl_heap m) q (set (xs @ y # x # ys) \<union> set (xs @ y # ys))"
      by (auto intro!: relinks_upd)
  qed
  with 8(1) show ?case by (auto simp: SLIST_def)
next
  case (9 m h xs k ys)
  have "\<exists>m'. on_heads SLIST_CONCAT m h k = Done m' \<and> slistq m' h (xs @ ys) \<and> slistq m' k [] \<and>
      sl_data m' = sl_data m \<and> keeps_others slistq m m' {h, k} (set xs \<union> set ys)"
    by (rule on_heads_slistq [OF 9(1-3)])
      (use concat_slist [of "sl_heap m" _ xs _ ys, OF _ _ 9(4)] in \<open>fastforce elim!: relinks_mono\<close>)
  then show ?case by (simp add: SLIST_def)
next
  case (10 m h xs k ys)
  then show ?case
    by (simp add: SLIST_def SLIST_SWAP_def SLIST_FIRST_def on_heads_slistq)
qed (simp_all add: slistq_distinct first_slistq next_slistq SLIST_def del: sl_deref.simps)


section \<open>Iterating\<close>

lemma foreach_from_slistq:
  assumes "\<And>x s. x \<in> set xs \<Longrightarrow> slistq (mem s) h xs \<Longrightarrow> body x s = Done (g x s) \<and> slistq (mem (g x s)) h xs"
    and "slistq (mem s) h xs"
  shows "SLIST_FOREACH_FROM mem body 0 h s = Some (Done (fold g xs s))"
    and "xs = as @ y # bs \<Longrightarrow> SLIST_FOREACH_FROM mem body y h s = Some (Done (fold g (y # bs) s))"
proof -
  note on = slistq.visits [where mem = mem and h = h and g = g, OF assms]
  show "SLIST_FOREACH_FROM mem body 0 h s = Some (Done (fold g xs s))"
    using on [of "[]" xs] by (simp add: SLIST_FOREACH_FROM_def first_slistq [OF assms(2)] del: sl_deref.simps)
  assume y: "xs = as @ y # bs"
  then have "y \<noteq> 0" using next_slistq assms(2) by blast
  then show "SLIST_FOREACH_FROM mem body y h s = Some (Done (fold g (y # bs) s))"
    using on [of as "y # bs"] y by (simp add: SLIST_FOREACH_FROM_def)
qed

lemma foreach_from_safe_slistq:
  assumes "slistq m h (as @ y # bs)"
  shows "\<exists>m'. SLIST_FOREACH_FROM_SAFE id (\<lambda>x m. if dead (sl_data m x) then m_remove SLIST m h x else Done m) y h m
      = Some (Done m') \<and> becomes slistq sl_data m h (as @ y # bs) m' (as @ filter (\<lambda>x. \<not> dead (sl_data m x)) (y # bs))"
  using slistq.sweeps [OF assms, of dead] next_slistq [OF assms] by (simp add: SLIST_FOREACH_FROM_SAFE_def)

text \<open>The iteration by links hands out every element with the address of the link that leads to it.\<close>

fun links :: "qlink \<Rightarrow> nptr list \<Rightarrow> (nptr \<times> qlink) list" where
  "links l [] = []"
| "links l (x # xs) = (x, l) # links (NextOf x) xs"

lemma deref_slistq:
  assumes "slistq m h (xs @ ys)"
  shows "sl_deref m (cell_after (FirstOf h) xs) = Done (first_or ys 0)"
proof (cases xs rule: rev_cases)
  case Nil
  then show ?thesis using first_slistq assms by fastforce
next
  case (snoc as x)
  then show ?thesis using next_slistq [of m h as x ys] assms by simp
qed

lemma foreach_prevptr_slistq:
  assumes keep: "\<And>x l s. (x, l) \<in> set (links (FirstOf h) xs) \<Longrightarrow> slistq (mem s) h xs \<Longrightarrow>
      body x l s = Done (g x l s) \<and> slistq (mem (g x l s)) h xs"
    and start: "slistq (mem s) h xs"
  shows "SLIST_FOREACH_PREVPTR mem body h s = Some (Done (fold (\<lambda>(x, l). g x l) (links (FirstOf h) xs) s))"
proof -
  have "prevptr_loop mem body (cell_after (FirstOf h) as) s =
      Some (Done (fold (\<lambda>(x, l). g x l) (links (cell_after (FirstOf h) as) bs) s))"
    if "xs = as @ bs" "slistq (mem s) h xs"
      "set (links (cell_after (FirstOf h) as) bs) \<subseteq> set (links (FirstOf h) xs)" for as bs s
    using that
  proof (induction bs arbitrary: as s)
    case Nil
    then show ?case
      using deref_slistq [of "mem s" h as "[]"] by (subst prevptr_loop.simps) simp
  next
    case (Cons x bs)
    let ?l = "cell_after (FirstOf h) as"
    have body: "body x ?l s = Done (g x ?l s)" "slistq (mem (g x ?l s)) h xs"
      using keep [of x ?l s] Cons.prems by auto
    have "sl_deref (mem s) ?l = Done x" "x \<noteq> 0"
      using deref_slistq [of "mem s" h as "x # bs"] next_slistq [of "mem s" h as x bs] Cons.prems by auto
    then show ?case
      using Cons.IH [of "as @ [x]" "g x ?l s"] Cons.prems body by (subst prevptr_loop.simps) simp
  qed
  from this [of "[]" xs s] start show ?thesis by (simp add: SLIST_FOREACH_PREVPTR_def)
qed

end
