(* ===== verification/Stailq_Queue.thy ===== *)
theory Stailq_Queue
  imports Queue_Links
begin

text \<open>
  The singly linked tail queues of \<^verbatim>\<open>server/queue.h\<close>: a head with the first element and the address
  of the last link, elements with their successor only. Removing an element that is not the first
  walks to its predecessor; \<^verbatim>\<open>STAILQ_LAST\<close> is the element around the last link.
\<close>

section \<open>Heads, elements and their links\<close>

record stailq_head =
  stqh_first :: nptr
  stqh_last :: qlink

record 'a stailq_entry =
  stqe_next :: nptr
  stqe_data :: 'a

record 'a stailq_mem =
  st_heads :: "nptr \<rightharpoonup> stailq_head"
  st_elems :: "nptr \<rightharpoonup> 'a stailq_entry"

fun st_fwd :: "'a stailq_mem \<Rightarrow> qlink \<Rightarrow> nptr option" where
  "st_fwd m (FirstOf h) = map_option stqh_first (st_heads m h)"
| "st_fwd m (NextOf p) = map_option stqe_next (st_elems m p)"

definition st_tail :: "'a stailq_mem \<Rightarrow> nptr \<Rightarrow> qlink option" where
  "st_tail m h = map_option stqh_last (st_heads m h)"

definition st_data :: "'a stailq_mem \<Rightarrow> nptr \<Rightarrow> 'a option" where
  "st_data m p = map_option stqe_data (st_elems m p)"

fun st_put :: "'a stailq_mem \<Rightarrow> qlink \<Rightarrow> nptr \<Rightarrow> 'a stailq_mem" where
  "st_put m (FirstOf h) v =
     m\<lparr>st_heads := (st_heads m)(h := map_option (stqh_first_update (\<lambda>_. v)) (st_heads m h))\<rparr>"
| "st_put m (NextOf p) v =
     m\<lparr>st_elems := (st_elems m)(p := map_option (stqe_next_update (\<lambda>_. v)) (st_elems m p))\<rparr>"

definition st_put_last :: "'a stailq_mem \<Rightarrow> nptr \<Rightarrow> qlink \<Rightarrow> 'a stailq_mem" where
  "st_put_last m h k =
     m\<lparr>st_heads := (st_heads m)(h := map_option (stqh_last_update (\<lambda>_. k)) (st_heads m h))\<rparr>"

text \<open>\<open>*l\<close> and \<open>head->stqh_last\<close>, read and assigned.\<close>

definition st_deref :: "'a stailq_mem \<Rightarrow> qlink \<Rightarrow> nptr outcome" where
  "st_deref m l = live (st_fwd m l)"

definition st_last :: "'a stailq_mem \<Rightarrow> nptr \<Rightarrow> qlink outcome" where
  "st_last m h = live (st_tail m h)"

definition st_assign :: "'a stailq_mem \<Rightarrow> qlink \<Rightarrow> nptr \<Rightarrow> 'a stailq_mem outcome" where
  "st_assign m l v = (if st_fwd m l = None then Fault else Done (st_put m l v))"

definition st_assign_last :: "'a stailq_mem \<Rightarrow> nptr \<Rightarrow> qlink \<Rightarrow> 'a stailq_mem outcome" where
  "st_assign_last m h k = (if st_tail m h = None then Fault else Done (st_put_last m h k))"

section \<open>The macros\<close>

definition STAILQ_HEAD_INITIALIZER :: "nptr \<Rightarrow> stailq_head" where
  "STAILQ_HEAD_INITIALIZER head = \<lparr>stqh_first = 0, stqh_last = FirstOf head\<rparr>"

definition STAILQ_FIRST :: "'a stailq_mem \<Rightarrow> nptr \<Rightarrow> nptr outcome" where
  "STAILQ_FIRST m head = st_deref m (FirstOf head)"

definition STAILQ_NEXT :: "'a stailq_mem \<Rightarrow> nptr \<Rightarrow> nptr outcome" where
  "STAILQ_NEXT m elm = st_deref m (NextOf elm)"

definition STAILQ_EMPTY :: "'a stailq_mem \<Rightarrow> nptr \<Rightarrow> bool outcome" where
  "STAILQ_EMPTY m head = and_then (STAILQ_FIRST m head) (\<lambda>p. Done (p = 0))"

definition STAILQ_LAST :: "'a stailq_mem \<Rightarrow> nptr \<Rightarrow> nptr outcome" where
  "STAILQ_LAST m head =
     and_then (STAILQ_EMPTY m head) (\<lambda>e.
       if e then Done 0
       else and_then (st_last m head) (\<lambda>l. case l of NextOf p \<Rightarrow> Done p | FirstOf _ \<Rightarrow> Fault))"

definition STAILQ_INIT :: "'a stailq_mem \<Rightarrow> nptr \<Rightarrow> 'a stailq_mem outcome" where
  "STAILQ_INIT m head =
     and_then (st_assign m (FirstOf head) 0) (\<lambda>m. st_assign_last m head (FirstOf head))"

definition STAILQ_CONCAT :: "'a stailq_mem \<Rightarrow> nptr \<Rightarrow> nptr \<Rightarrow> 'a stailq_mem outcome" where
  "STAILQ_CONCAT m head1 head2 =
     and_then (STAILQ_EMPTY m head2) (\<lambda>e.
       if e then Done m
       else and_then (st_last m head1) (\<lambda>last1.
         and_then (STAILQ_FIRST m head2) (\<lambda>first2.
         and_then (st_assign m last1 first2) (\<lambda>m.
         and_then (st_last m head2) (\<lambda>last2.
         and_then (st_assign_last m head1 last2) (\<lambda>m.
         STAILQ_INIT m head2))))))"

definition STAILQ_INSERT_AFTER :: "'a stailq_mem \<Rightarrow> nptr \<Rightarrow> nptr \<Rightarrow> nptr \<Rightarrow> 'a stailq_mem outcome" where
  "STAILQ_INSERT_AFTER m head tqelm elm =
     and_then (STAILQ_NEXT m tqelm) (\<lambda>n.
     and_then (st_assign m (NextOf elm) n) (\<lambda>m.
     and_then (if n = 0 then st_assign_last m head (NextOf elm) else Done m) (\<lambda>m.
     st_assign m (NextOf tqelm) elm)))"

definition STAILQ_INSERT_HEAD :: "'a stailq_mem \<Rightarrow> nptr \<Rightarrow> nptr \<Rightarrow> 'a stailq_mem outcome" where
  "STAILQ_INSERT_HEAD m head elm =
     and_then (STAILQ_FIRST m head) (\<lambda>n.
     and_then (st_assign m (NextOf elm) n) (\<lambda>m.
     and_then (if n = 0 then st_assign_last m head (NextOf elm) else Done m) (\<lambda>m.
     st_assign m (FirstOf head) elm)))"

definition STAILQ_INSERT_TAIL :: "'a stailq_mem \<Rightarrow> nptr \<Rightarrow> nptr \<Rightarrow> 'a stailq_mem outcome" where
  "STAILQ_INSERT_TAIL m head elm =
     and_then (st_assign m (NextOf elm) 0) (\<lambda>m.
     and_then (st_last m head) (\<lambda>k.
     and_then (st_assign m k elm) (\<lambda>m.
     st_assign_last m head (NextOf elm))))"

definition STAILQ_REMOVE_HEAD :: "'a stailq_mem \<Rightarrow> nptr \<Rightarrow> 'a stailq_mem outcome" where
  "STAILQ_REMOVE_HEAD m head =
     and_then (STAILQ_FIRST m head) (\<lambda>p.
     and_then (STAILQ_NEXT m p) (\<lambda>n.
     and_then (st_assign m (FirstOf head) n) (\<lambda>m.
     if n = 0 then st_assign_last m head (FirstOf head) else Done m)))"

definition STAILQ_REMOVE_AFTER :: "'a stailq_mem \<Rightarrow> nptr \<Rightarrow> nptr \<Rightarrow> 'a stailq_mem outcome" where
  "STAILQ_REMOVE_AFTER m head elm =
     and_then (STAILQ_NEXT m elm) (\<lambda>p.
     and_then (STAILQ_NEXT m p) (\<lambda>n.
     and_then (st_assign m (NextOf elm) n) (\<lambda>m.
     if n = 0 then st_assign_last m head (NextOf elm) else Done m)))"

partial_function (option) stailq_find_prev :: "'a stailq_mem \<Rightarrow> nptr \<Rightarrow> nptr \<Rightarrow> nptr outcome option" where
  "stailq_find_prev m elm curelm =
     (case STAILQ_NEXT m curelm of
        Done n \<Rightarrow> if n \<noteq> elm then stailq_find_prev m elm n else Some (Done curelm)
      | Fault \<Rightarrow> Some Fault
      | Hang \<Rightarrow> Some Hang)"

definition STAILQ_REMOVE :: "'a stailq_mem \<Rightarrow> nptr \<Rightarrow> nptr \<Rightarrow> 'a stailq_mem outcome" where
  "STAILQ_REMOVE m head elm =
     and_then (STAILQ_FIRST m head) (\<lambda>first.
       if first = elm then STAILQ_REMOVE_HEAD m head
       else and_then (returns (stailq_find_prev m elm first)) (STAILQ_REMOVE_AFTER m head))"

definition st_reanchor :: "'a stailq_mem \<Rightarrow> nptr \<Rightarrow> 'a stailq_mem outcome" where
  "st_reanchor m head =
     and_then (STAILQ_EMPTY m head) (\<lambda>e. if e then st_assign_last m head (FirstOf head) else Done m)"

definition STAILQ_SWAP :: "'a stailq_mem \<Rightarrow> nptr \<Rightarrow> nptr \<Rightarrow> 'a stailq_mem outcome" where
  "STAILQ_SWAP m head1 head2 =
     and_then (STAILQ_FIRST m head1) (\<lambda>swap_first.
     and_then (st_last m head1) (\<lambda>swap_last.
     and_then (STAILQ_FIRST m head2) (\<lambda>first2.
     and_then (st_assign m (FirstOf head1) first2) (\<lambda>m.
     and_then (st_last m head2) (\<lambda>last2.
     and_then (st_assign_last m head1 last2) (\<lambda>m.
     and_then (st_assign m (FirstOf head2) swap_first) (\<lambda>m.
     and_then (st_assign_last m head2 swap_last) (\<lambda>m.
     and_then (st_reanchor m head1) (\<lambda>m.
     st_reanchor m head2)))))))))"

definition STAILQ_FOREACH :: "('s \<Rightarrow> 'a stailq_mem) \<Rightarrow> (nptr \<Rightarrow> 's \<Rightarrow> 's outcome) \<Rightarrow> nptr \<Rightarrow> 's \<Rightarrow> 's outcome option" where
  "STAILQ_FOREACH mem body head s =
     start_at (STAILQ_FIRST (mem s) head) (\<lambda>var. for_next (\<lambda>s. STAILQ_NEXT (mem s)) body var s)"

definition STAILQ_FOREACH_FROM :: "('s \<Rightarrow> 'a stailq_mem) \<Rightarrow> (nptr \<Rightarrow> 's \<Rightarrow> 's outcome) \<Rightarrow> nptr \<Rightarrow> nptr \<Rightarrow> 's \<Rightarrow> 's outcome option" where
  "STAILQ_FOREACH_FROM mem body var head s =
     start_at (if var \<noteq> 0 then Done var else STAILQ_FIRST (mem s) head)
       (\<lambda>var. for_next (\<lambda>s. STAILQ_NEXT (mem s)) body var s)"

definition STAILQ_FOREACH_SAFE :: "('s \<Rightarrow> 'a stailq_mem) \<Rightarrow> (nptr \<Rightarrow> 's \<Rightarrow> 's outcome) \<Rightarrow> nptr \<Rightarrow> 's \<Rightarrow> 's outcome option" where
  "STAILQ_FOREACH_SAFE mem body head s =
     start_at (STAILQ_FIRST (mem s) head) (\<lambda>var. for_next_safe (\<lambda>s. STAILQ_NEXT (mem s)) body var s)"

definition STAILQ_FOREACH_FROM_SAFE :: "('s \<Rightarrow> 'a stailq_mem) \<Rightarrow> (nptr \<Rightarrow> 's \<Rightarrow> 's outcome) \<Rightarrow> nptr \<Rightarrow> nptr \<Rightarrow> 's \<Rightarrow> 's outcome option" where
  "STAILQ_FOREACH_FROM_SAFE mem body var head s =
     start_at (if var \<noteq> 0 then Done var else STAILQ_FIRST (mem s) head)
       (\<lambda>var. for_next_safe (\<lambda>s. STAILQ_NEXT (mem s)) body var s)"

section \<open>The list a queue stands for\<close>

definition stailq :: "'a stailq_mem \<Rightarrow> nptr \<Rightarrow> nptr list \<Rightarrow> bool" where
  "stailq m h xs \<longleftrightarrow> st_fwd m (FirstOf h) = Some (first_or xs 0) \<and> chain (st_fwd m) xs 0 \<and>
     st_tail m h = Some (cell_after (FirstOf h) xs)"

lemma st_fwd_put [simp]: "st_fwd (st_put m l v) = (st_fwd m)(l := map_option (\<lambda>_. v) (st_fwd m l))"
    "st_fwd (st_put_last m h k) = st_fwd m"
  by (rule ext, rename_tac j, case_tac j; cases l; auto simp: st_put_last_def option.map_comp comp_def)+

lemma st_tail_put [simp]: "st_tail (st_put_last m h k) = (st_tail m)(h := map_option (\<lambda>_. k) (st_tail m h))"
    "st_tail (st_put m l v) = st_tail m"
  by (cases l; auto simp: fun_eq_iff st_tail_def st_put_last_def option.map_comp comp_def)+

lemma st_data_put [simp]: "st_data (st_put m l v) = st_data m" "st_data (st_put_last m h k) = st_data m"
  by (cases l; auto simp: st_data_def st_put_last_def fun_eq_iff option.map_comp comp_def)+

lemma st_fresh: "fresh st_data m p \<Longrightarrow> \<exists>v. p \<noteq> 0 \<and> st_fwd m (NextOf p) = Some v"
  by (auto simp: st_data_def fresh_def)

lemma st_head_live: "st_heads m h \<noteq> None \<Longrightarrow> \<exists>v k. st_fwd m (FirstOf h) = Some v \<and> st_tail m h = Some k"
  by (auto simp: st_tail_def)

declare st_fwd.simps [simp del] st_put.simps [simp del]

named_theorems stailq_simps "unfolding rules of the tail queue macros"

lemmas stailq_access [stailq_simps] =
  st_deref_def st_last_def st_assign_def st_assign_last_def STAILQ_FIRST_def STAILQ_NEXT_def STAILQ_EMPTY_def

lemma stailq_distinct: "stailq m h xs \<Longrightarrow> distinct xs"
  by (auto simp: stailq_def dest: chain_distinct)

lemma stailq_nonnull: "stailq m h xs \<Longrightarrow> 0 \<notin> set xs"
  by (auto simp: stailq_def dest: chain_nonnull)

section \<open>What the macros do to it\<close>

abbreviation st_becomes :: "'a stailq_mem \<Rightarrow> nptr \<Rightarrow> nptr list \<Rightarrow> 'a stailq_mem \<Rightarrow> nptr list \<Rightarrow> bool" where
  "st_becomes \<equiv> becomes stailq st_data"

lemma init_stailq:
  assumes "st_heads m h \<noteq> None"
  shows "\<exists>m'. STAILQ_INIT m h = Done m' \<and> st_becomes m h xs m' []"
  using st_head_live [OF assms]
  by (auto simp: STAILQ_INIT_def stailq_simps stailq_def becomes_def keeps_others_def)

lemma insert_head_stailq:
  assumes "stailq m h xs" and "fresh st_data m e" and "e \<notin> set xs"
  shows "\<exists>m'. STAILQ_INSERT_HEAD m h e = Done m' \<and> st_becomes m h xs m' (e # xs)"
  using assms st_fresh [OF assms(2)] stailq_nonnull [OF assms(1)] stailq_distinct [OF assms(1)]
  by (cases xs) (auto simp: STAILQ_INSERT_HEAD_def stailq_simps stailq_def becomes_def keeps_others_def
      simp del: and_then_Done_iff)

lemma insert_tail_stailq:
  assumes "stailq m h xs" and "fresh st_data m e" and "e \<notin> set xs"
  shows "\<exists>m'. STAILQ_INSERT_TAIL m h e = Done m' \<and> st_becomes m h xs m' (xs @ [e])"
  using assms st_fresh [OF assms(2)] stailq_nonnull [OF assms(1)] stailq_distinct [OF assms(1)]
  by (cases xs rule: rev_cases) (auto simp: STAILQ_INSERT_TAIL_def stailq_simps stailq_def becomes_def keeps_others_def
      simp del: and_then_Done_iff)

lemma insert_after_stailq:
  assumes "stailq m h (xs @ y # ys)" and "fresh st_data m e" and "e \<notin> set (xs @ y # ys)"
  shows "\<exists>m'. STAILQ_INSERT_AFTER m h y e = Done m' \<and> st_becomes m h (xs @ y # ys) m' (xs @ y # e # ys)"
  using assms st_fresh [OF assms(2)] stailq_nonnull [OF assms(1)] stailq_distinct [OF assms(1)]
  by (cases ys) (auto simp: STAILQ_INSERT_AFTER_def stailq_simps stailq_def becomes_def keeps_others_def
      simp del: and_then_Done_iff)

lemma remove_head_stailq:
  assumes "stailq m h (x # xs)"
  shows "\<exists>m'. STAILQ_REMOVE_HEAD m h = Done m' \<and> st_becomes m h (x # xs) m' xs"
  using assms stailq_nonnull [OF assms(1)] stailq_distinct [OF assms(1)]
  by (cases xs) (auto simp: STAILQ_REMOVE_HEAD_def stailq_simps stailq_def becomes_def keeps_others_def
      simp del: and_then_Done_iff)

lemma remove_after_stailq:
  assumes "stailq m h (xs @ y # x # ys)"
  shows "\<exists>m'. STAILQ_REMOVE_AFTER m h y = Done m' \<and> st_becomes m h (xs @ y # x # ys) m' (xs @ y # ys)"
  using assms stailq_nonnull [OF assms(1)] stailq_distinct [OF assms(1)]
  by (cases ys) (auto simp: STAILQ_REMOVE_AFTER_def stailq_simps stailq_def becomes_def keeps_others_def
      simp del: and_then_Done_iff)

lemma stailq_find_prev_chain:
  "chain (st_fwd m) (xs @ y # elm # ys) 0 \<Longrightarrow> elm \<notin> set (xs @ [y]) \<Longrightarrow>
     stailq_find_prev m elm (first_or xs y) = Some (Done y)"
proof (induction xs)
  case Nil
  then show ?case by (subst stailq_find_prev.simps) (simp add: stailq_simps)
next
  case (Cons x xs)
  then have "first_or xs y \<noteq> elm" by (cases xs) auto
  with Cons show ?case by (subst stailq_find_prev.simps) (simp add: stailq_simps)
qed

lemma remove_stailq:
  assumes "stailq m h (xs @ y # ys)"
  shows "\<exists>m'. STAILQ_REMOVE m h y = Done m' \<and> st_becomes m h (xs @ y # ys) m' (xs @ ys)"
proof (cases xs rule: rev_cases)
  case Nil
  then show ?thesis
    using assms remove_head_stailq [of m h y ys] by (simp add: STAILQ_REMOVE_def stailq_simps stailq_def)
next
  case (snoc as x)
  then have "stailq_find_prev m y (first_or as x) = Some (Done x)" "first_or as x \<noteq> y"
    using assms stailq_distinct [OF assms] stailq_find_prev_chain [of m as x y ys]
    by (cases as; auto simp: stailq_def)+
  then show ?thesis
    using assms snoc remove_after_stailq [of m h as x y ys]
    by (simp add: STAILQ_REMOVE_def returns_def stailq_simps stailq_def)
qed

lemma last_stailq: "stailq m h xs \<Longrightarrow> STAILQ_LAST m h = Done (first_or (rev xs) 0)"
  by (cases xs rule: rev_cases; cases "butlast xs") (auto simp: STAILQ_LAST_def stailq_simps stailq_def)

lemma next_stailq: "stailq m h (xs @ y # ys) \<Longrightarrow> y \<noteq> 0 \<and> STAILQ_NEXT m y = Done (first_or ys 0)"
  by (simp add: STAILQ_NEXT_def st_deref_def stailq_def)

lemma first_stailq: "stailq m h xs \<Longrightarrow> STAILQ_FIRST m h = Done (first_or xs 0)"
  by (simp add: STAILQ_FIRST_def st_deref_def stailq_def)

lemma concat_stailq:
  assumes "stailq m h1 xs" and "stailq m h2 ys" and "h1 \<noteq> h2" and "set xs \<inter> set ys = {}"
  shows "\<exists>m'. STAILQ_CONCAT m h1 h2 = Done m' \<and> stailq m' h1 (xs @ ys) \<and> stailq m' h2 [] \<and>
    st_data m' = st_data m \<and> keeps_others stailq m m' {h1, h2} (set xs \<union> set ys)"
  using assms stailq_nonnull [OF assms(1)] stailq_distinct [OF assms(1)]
    stailq_nonnull [OF assms(2)] stailq_distinct [OF assms(2)]
  by (cases xs rule: rev_cases; cases ys)
    (auto simp: STAILQ_CONCAT_def STAILQ_INIT_def stailq_simps stailq_def keeps_others_def simp del: and_then_Done_iff)

lemma swap_stailq:
  assumes "stailq m h1 xs" and "stailq m h2 ys" and "h1 \<noteq> h2" and "set xs \<inter> set ys = {}"
  shows "\<exists>m'. STAILQ_SWAP m h1 h2 = Done m' \<and> stailq m' h1 ys \<and> stailq m' h2 xs \<and>
    st_data m' = st_data m \<and> keeps_others stailq m m' {h1, h2} (set xs \<union> set ys)"
  using assms stailq_nonnull [OF assms(1)] stailq_distinct [OF assms(1)]
    stailq_nonnull [OF assms(2)] stailq_distinct [OF assms(2)]
  by (cases xs; cases ys)
    (auto simp: STAILQ_SWAP_def st_reanchor_def stailq_simps stailq_def keeps_others_def simp del: and_then_Done_iff)

section \<open>The contract\<close>

definition STAILQ :: "'a stailq_mem queue_macros" where
  "STAILQ = \<lparr>m_init = STAILQ_INIT, m_insert_head = STAILQ_INSERT_HEAD, m_insert_tail = Some STAILQ_INSERT_TAIL,
     m_insert_after = STAILQ_INSERT_AFTER, m_insert_before = None,
     m_remove = STAILQ_REMOVE, m_remove_head = Some STAILQ_REMOVE_HEAD, m_remove_after = Some STAILQ_REMOVE_AFTER,
     m_concat = STAILQ_CONCAT, m_swap = STAILQ_SWAP\<rparr>"

lemma STAILQ_simps [simp]:
  "m_init STAILQ = STAILQ_INIT" "m_insert_head STAILQ = STAILQ_INSERT_HEAD"
  "m_insert_tail STAILQ = Some STAILQ_INSERT_TAIL" "m_insert_after STAILQ = STAILQ_INSERT_AFTER"
  "m_insert_before STAILQ = None" "m_remove STAILQ = STAILQ_REMOVE"
  "m_remove_head STAILQ = Some STAILQ_REMOVE_HEAD" "m_remove_after STAILQ = Some STAILQ_REMOVE_AFTER"
  "m_concat STAILQ = STAILQ_CONCAT" "m_swap STAILQ = STAILQ_SWAP"
  by (simp_all add: STAILQ_def)

interpretation stailq: walked_queue STAILQ stailq st_data STAILQ_FIRST STAILQ_NEXT
proof (unfold_locales, goal_cases)
  case (1 m h xs)
  then show ?case using init_stailq [of m h xs] by (auto simp: stailq_def st_fwd.simps)
qed (auto intro: insert_head_stailq insert_tail_stailq insert_after_stailq remove_stailq remove_head_stailq
    remove_after_stailq concat_stailq swap_stailq stailq_distinct first_stailq dest: next_stailq)

section \<open>Iterating\<close>

lemma foreach_stailq:
  assumes "\<And>x s. x \<in> set xs \<Longrightarrow> stailq (mem s) h xs \<Longrightarrow> body x s = Done (g x s) \<and> stailq (mem (g x s)) h xs"
    and "stailq (mem s) h xs"
  shows "STAILQ_FOREACH mem body h s = Some (Done (fold g xs s))"
    and "xs = as @ y # bs \<Longrightarrow> STAILQ_FOREACH_FROM mem body y h s = Some (Done (fold g (y # bs) s))"
proof -
  note on = stailq.visits [where mem = mem and h = h and g = g, OF assms]
  show "STAILQ_FOREACH mem body h s = Some (Done (fold g xs s))"
    using on [of "[]" xs] by (simp add: STAILQ_FOREACH_def first_stailq [OF assms(2)])
  assume y: "xs = as @ y # bs"
  then have "y \<noteq> 0" using next_stailq assms(2) by blast
  then show "STAILQ_FOREACH_FROM mem body y h s = Some (Done (fold g (y # bs) s))"
    using on [of as "y # bs"] y by (simp add: STAILQ_FOREACH_FROM_def)
qed

lemma foreach_safe_stailq:
  assumes "stailq m h xs"
  shows "\<exists>m'. STAILQ_FOREACH_SAFE id (\<lambda>x m. if dead (st_data m x) then STAILQ_REMOVE m h x else Done m) h m
      = Some (Done m') \<and> st_becomes m h xs m' (filter (\<lambda>x. \<not> dead (st_data m x)) xs)"
    and "xs = as @ y # bs \<Longrightarrow>
      \<exists>m'. STAILQ_FOREACH_FROM_SAFE id (\<lambda>x m. if dead (st_data m x) then STAILQ_REMOVE m h x else Done m) y h m
      = Some (Done m') \<and> st_becomes m h xs m' (as @ filter (\<lambda>x. \<not> dead (st_data m x)) (y # bs))"
proof -
  note on = stailq.sweeps [where dead = dead]
  show "\<exists>m'. STAILQ_FOREACH_SAFE id (\<lambda>x m. if dead (st_data m x) then STAILQ_REMOVE m h x else Done m) h m
      = Some (Done m') \<and> st_becomes m h xs m' (filter (\<lambda>x. \<not> dead (st_data m x)) xs)"
    using on [of m h "[]" xs] assms by (simp add: STAILQ_FOREACH_SAFE_def first_stailq [OF assms] cong: if_cong)
  assume y: "xs = as @ y # bs"
  then have "y \<noteq> 0" using next_stailq assms by blast
  then show "\<exists>m'. STAILQ_FOREACH_FROM_SAFE id (\<lambda>x m. if dead (st_data m x) then STAILQ_REMOVE m h x else Done m) y h m
      = Some (Done m') \<and> st_becomes m h xs m' (as @ filter (\<lambda>x. \<not> dead (st_data m x)) (y # bs))"
    using on [of m h as "y # bs"] assms y by (simp add: STAILQ_FOREACH_FROM_SAFE_def cong: if_cong)
qed

end
