(* ===== verification/List_Queue.thy ===== *)
theory List_Queue
  imports Queue_Links
begin

text \<open>
  The doubly linked lists of \<^verbatim>\<open>server/queue.h\<close>: an element knows its successor and the address of
  the link that points to it, so that it can be removed, and another inserted before it, without
  the head. The head is a single pointer. The checks of the kernel's \<^verbatim>\<open>INVARIANTS\<close> are predicates.
\<close>

section \<open>Heads, elements and their links\<close>

record list_head =
  lh_first :: nptr

record 'a list_entry =
  le_next :: nptr
  le_prev :: qlink
  le_data :: 'a

record 'a list_mem =
  ls_heads :: "nptr \<rightharpoonup> list_head"
  ls_elems :: "nptr \<rightharpoonup> 'a list_entry"

fun ls_fwd :: "'a list_mem \<Rightarrow> qlink \<Rightarrow> nptr option" where
  "ls_fwd m (FirstOf h) = map_option lh_first (ls_heads m h)"
| "ls_fwd m (NextOf p) = map_option le_next (ls_elems m p)"

fun ls_bwd :: "'a list_mem \<Rightarrow> qlink \<Rightarrow> qlink option" where
  "ls_bwd m (FirstOf h) = None"
| "ls_bwd m (NextOf p) = map_option le_prev (ls_elems m p)"

definition ls_data :: "'a list_mem \<Rightarrow> nptr \<Rightarrow> 'a option" where
  "ls_data m p = map_option le_data (ls_elems m p)"

fun ls_put :: "'a list_mem \<Rightarrow> qlink \<Rightarrow> nptr \<Rightarrow> 'a list_mem" where
  "ls_put m (FirstOf h) v =
     m\<lparr>ls_heads := (ls_heads m)(h := map_option (lh_first_update (\<lambda>_. v)) (ls_heads m h))\<rparr>"
| "ls_put m (NextOf p) v =
     m\<lparr>ls_elems := (ls_elems m)(p := map_option (le_next_update (\<lambda>_. v)) (ls_elems m p))\<rparr>"

definition ls_put_prev :: "'a list_mem \<Rightarrow> nptr \<Rightarrow> qlink \<Rightarrow> 'a list_mem" where
  "ls_put_prev m p k =
     m\<lparr>ls_elems := (ls_elems m)(p := map_option (le_prev_update (\<lambda>_. k)) (ls_elems m p))\<rparr>"

text \<open>\<open>*l\<close> and \<open>elm->field.le_prev\<close>, read and assigned.\<close>

definition ls_deref :: "'a list_mem \<Rightarrow> qlink \<Rightarrow> nptr outcome" where
  "ls_deref m l = live (ls_fwd m l)"

definition ls_prev :: "'a list_mem \<Rightarrow> nptr \<Rightarrow> qlink outcome" where
  "ls_prev m p = live (ls_bwd m (NextOf p))"

definition ls_assign :: "'a list_mem \<Rightarrow> qlink \<Rightarrow> nptr \<Rightarrow> 'a list_mem outcome" where
  "ls_assign m l v = (if ls_fwd m l = None then Fault else Done (ls_put m l v))"

definition ls_assign_prev :: "'a list_mem \<Rightarrow> nptr \<Rightarrow> qlink \<Rightarrow> 'a list_mem outcome" where
  "ls_assign_prev m p k = (if ls_bwd m (NextOf p) = None then Fault else Done (ls_put_prev m p k))"

section \<open>The macros\<close>

definition LIST_HEAD_INITIALIZER :: list_head where
  "LIST_HEAD_INITIALIZER = \<lparr>lh_first = 0\<rparr>"

definition LIST_FIRST :: "'a list_mem \<Rightarrow> nptr \<Rightarrow> nptr outcome" where
  "LIST_FIRST m head = ls_deref m (FirstOf head)"

definition LIST_NEXT :: "'a list_mem \<Rightarrow> nptr \<Rightarrow> nptr outcome" where
  "LIST_NEXT m elm = ls_deref m (NextOf elm)"

definition LIST_EMPTY :: "'a list_mem \<Rightarrow> nptr \<Rightarrow> bool outcome" where
  "LIST_EMPTY m head = and_then (LIST_FIRST m head) (\<lambda>p. Done (p = 0))"

text \<open>The element around a link that is not the head's.\<close>

definition LIST_PREV :: "'a list_mem \<Rightarrow> nptr \<Rightarrow> nptr \<Rightarrow> nptr outcome" where
  "LIST_PREV m elm head =
     and_then (ls_prev m elm) (\<lambda>l.
       if l = FirstOf head then Done 0
       else case l of NextOf p \<Rightarrow> Done p | FirstOf _ \<Rightarrow> Fault)"

definition LIST_INIT :: "'a list_mem \<Rightarrow> nptr \<Rightarrow> 'a list_mem outcome" where
  "LIST_INIT m head = ls_assign m (FirstOf head) 0"

partial_function (option) list_find_last :: "'a list_mem \<Rightarrow> nptr \<Rightarrow> nptr outcome option" where
  "list_find_last m curelm =
     (case LIST_NEXT m curelm of
        Done n \<Rightarrow> if n \<noteq> 0 then list_find_last m n else Some (Done curelm)
      | Fault \<Rightarrow> Some Fault
      | Hang \<Rightarrow> Some Hang)"

definition LIST_CONCAT :: "'a list_mem \<Rightarrow> nptr \<Rightarrow> nptr \<Rightarrow> 'a list_mem outcome" where
  "LIST_CONCAT m head1 head2 =
     and_then (LIST_FIRST m head1) (\<lambda>curelm.
     and_then (LIST_FIRST m head2) (\<lambda>first2.
       if curelm = 0
       then and_then (ls_assign m (FirstOf head1) first2) (\<lambda>m.
         if first2 \<noteq> 0
         then and_then (LIST_FIRST m head2) (\<lambda>first2.
           and_then (ls_assign_prev m first2 (FirstOf head1)) (\<lambda>m. LIST_INIT m head2))
         else Done m)
       else if first2 \<noteq> 0
       then and_then (returns (list_find_last m curelm)) (\<lambda>curelm.
         and_then (ls_assign m (NextOf curelm) first2) (\<lambda>m.
         and_then (LIST_FIRST m head2) (\<lambda>first2.
         and_then (ls_assign_prev m first2 (NextOf curelm)) (\<lambda>m. LIST_INIT m head2))))
       else Done m))"

definition LIST_INSERT_AFTER :: "'a list_mem \<Rightarrow> nptr \<Rightarrow> nptr \<Rightarrow> 'a list_mem outcome" where
  "LIST_INSERT_AFTER m listelm elm =
     and_then (LIST_NEXT m listelm) (\<lambda>n.
     and_then (ls_assign m (NextOf elm) n) (\<lambda>m.
     and_then (if n \<noteq> 0
               then and_then (LIST_NEXT m listelm) (\<lambda>q. ls_assign_prev m q (NextOf elm))
               else Done m) (\<lambda>m.
     and_then (ls_assign m (NextOf listelm) elm) (\<lambda>m.
     ls_assign_prev m elm (NextOf listelm)))))"

definition LIST_INSERT_BEFORE :: "'a list_mem \<Rightarrow> nptr \<Rightarrow> nptr \<Rightarrow> 'a list_mem outcome" where
  "LIST_INSERT_BEFORE m listelm elm =
     and_then (ls_prev m listelm) (\<lambda>k.
     and_then (ls_assign_prev m elm k) (\<lambda>m.
     and_then (ls_assign m (NextOf elm) listelm) (\<lambda>m.
     and_then (ls_prev m listelm) (\<lambda>k.
     and_then (ls_assign m k elm) (\<lambda>m.
     ls_assign_prev m listelm (NextOf elm))))))"

definition LIST_INSERT_HEAD :: "'a list_mem \<Rightarrow> nptr \<Rightarrow> nptr \<Rightarrow> 'a list_mem outcome" where
  "LIST_INSERT_HEAD m head elm =
     and_then (LIST_FIRST m head) (\<lambda>n.
     and_then (ls_assign m (NextOf elm) n) (\<lambda>m.
     and_then (if n \<noteq> 0
               then and_then (LIST_FIRST m head) (\<lambda>q. ls_assign_prev m q (NextOf elm))
               else Done m) (\<lambda>m.
     and_then (ls_assign m (FirstOf head) elm) (\<lambda>m.
     ls_assign_prev m elm (FirstOf head)))))"

definition LIST_REMOVE :: "'a list_mem \<Rightarrow> nptr \<Rightarrow> 'a list_mem outcome" where
  "LIST_REMOVE m elm =
     and_then (LIST_NEXT m elm) (\<lambda>n.
     and_then (if n \<noteq> 0 then and_then (ls_prev m elm) (ls_assign_prev m n) else Done m) (\<lambda>m.
     and_then (ls_prev m elm) (\<lambda>k.
     and_then (LIST_NEXT m elm) (\<lambda>n.
     ls_assign m k n))))"

definition ls_reanchor :: "'a list_mem \<Rightarrow> nptr \<Rightarrow> 'a list_mem outcome" where
  "ls_reanchor m head =
     and_then (LIST_FIRST m head) (\<lambda>swap_tmp.
       if swap_tmp \<noteq> 0 then ls_assign_prev m swap_tmp (FirstOf head) else Done m)"

definition LIST_SWAP :: "'a list_mem \<Rightarrow> nptr \<Rightarrow> nptr \<Rightarrow> 'a list_mem outcome" where
  "LIST_SWAP m head1 head2 =
     and_then (LIST_FIRST m head1) (\<lambda>swap_tmp.
     and_then (LIST_FIRST m head2) (\<lambda>first2.
     and_then (ls_assign m (FirstOf head1) first2) (\<lambda>m.
     and_then (ls_assign m (FirstOf head2) swap_tmp) (\<lambda>m.
     and_then (ls_reanchor m head1) (\<lambda>m.
     ls_reanchor m head2)))))"

definition LIST_FOREACH :: "('s \<Rightarrow> 'a list_mem) \<Rightarrow> (nptr \<Rightarrow> 's \<Rightarrow> 's outcome) \<Rightarrow> nptr \<Rightarrow> 's \<Rightarrow> 's outcome option" where
  "LIST_FOREACH mem body head s =
     start_at (LIST_FIRST (mem s) head) (\<lambda>var. for_next (\<lambda>s. LIST_NEXT (mem s)) body var s)"

definition LIST_FOREACH_FROM :: "('s \<Rightarrow> 'a list_mem) \<Rightarrow> (nptr \<Rightarrow> 's \<Rightarrow> 's outcome) \<Rightarrow> nptr \<Rightarrow> nptr \<Rightarrow> 's \<Rightarrow> 's outcome option" where
  "LIST_FOREACH_FROM mem body var head s =
     start_at (if var \<noteq> 0 then Done var else LIST_FIRST (mem s) head)
       (\<lambda>var. for_next (\<lambda>s. LIST_NEXT (mem s)) body var s)"

definition LIST_FOREACH_SAFE :: "('s \<Rightarrow> 'a list_mem) \<Rightarrow> (nptr \<Rightarrow> 's \<Rightarrow> 's outcome) \<Rightarrow> nptr \<Rightarrow> 's \<Rightarrow> 's outcome option" where
  "LIST_FOREACH_SAFE mem body head s =
     start_at (LIST_FIRST (mem s) head) (\<lambda>var. for_next_safe (\<lambda>s. LIST_NEXT (mem s)) body var s)"

definition LIST_FOREACH_FROM_SAFE :: "('s \<Rightarrow> 'a list_mem) \<Rightarrow> (nptr \<Rightarrow> 's \<Rightarrow> 's outcome) \<Rightarrow> nptr \<Rightarrow> nptr \<Rightarrow> 's \<Rightarrow> 's outcome option" where
  "LIST_FOREACH_FROM_SAFE mem body var head s =
     start_at (if var \<noteq> 0 then Done var else LIST_FIRST (mem s) head)
       (\<lambda>var. for_next_safe (\<lambda>s. LIST_NEXT (mem s)) body var s)"

section \<open>The kernel's checks\<close>

text \<open>\<open>Done False\<close> stands for the panic.\<close>

definition QMD_LIST_CHECK_HEAD :: "'a list_mem \<Rightarrow> nptr \<Rightarrow> bool outcome" where
  "QMD_LIST_CHECK_HEAD m head =
     and_then (LIST_FIRST m head) (\<lambda>p.
       if p \<noteq> 0 then and_then (ls_prev m p) (\<lambda>k. Done (k = FirstOf head)) else Done True)"

definition QMD_LIST_CHECK_NEXT :: "'a list_mem \<Rightarrow> nptr \<Rightarrow> bool outcome" where
  "QMD_LIST_CHECK_NEXT m elm =
     and_then (LIST_NEXT m elm) (\<lambda>p.
       if p \<noteq> 0 then and_then (ls_prev m p) (\<lambda>k. Done (k = NextOf elm)) else Done True)"

definition QMD_LIST_CHECK_PREV :: "'a list_mem \<Rightarrow> nptr \<Rightarrow> bool outcome" where
  "QMD_LIST_CHECK_PREV m elm =
     and_then (ls_prev m elm) (\<lambda>k. and_then (ls_deref m k) (\<lambda>p. Done (p = elm)))"

section \<open>The list a head stands for\<close>

definition listq :: "'a list_mem \<Rightarrow> nptr \<Rightarrow> nptr list \<Rightarrow> bool" where
  "listq m h xs \<longleftrightarrow> ls_fwd m (FirstOf h) = Some (first_or xs 0) \<and> chain (ls_fwd m) xs 0 \<and>
     backs (ls_bwd m) (FirstOf h) xs"

lemma ls_fwd_put [simp]: "ls_fwd (ls_put m l v) = (ls_fwd m)(l := map_option (\<lambda>_. v) (ls_fwd m l))"
    "ls_fwd (ls_put_prev m p k) = ls_fwd m"
  by (rule ext, rename_tac j, case_tac j; cases l; auto simp: ls_put_prev_def option.map_comp comp_def)+

lemma ls_bwd_put [simp]: "ls_bwd (ls_put_prev m p k) = (ls_bwd m)(NextOf p := map_option (\<lambda>_. k) (ls_bwd m (NextOf p)))"
    "ls_bwd (ls_put m l v) = ls_bwd m"
  by (rule ext, rename_tac j, case_tac j; cases l; auto simp: ls_put_prev_def option.map_comp comp_def)+

lemma ls_data_put [simp]: "ls_data (ls_put m l v) = ls_data m" "ls_data (ls_put_prev m p k) = ls_data m"
  by (cases l; auto simp: ls_data_def ls_put_prev_def fun_eq_iff option.map_comp comp_def)+

lemma ls_fresh: "fresh ls_data m p \<Longrightarrow>
    \<exists>v k. p \<noteq> 0 \<and> ls_fwd m (NextOf p) = Some v \<and> ls_bwd m (NextOf p) = Some k"
  by (auto simp: ls_data_def fresh_def)

lemma ls_head_live: "ls_heads m h \<noteq> None \<Longrightarrow> \<exists>v. ls_fwd m (FirstOf h) = Some v"
  by auto

declare ls_fwd.simps [simp del] ls_bwd.simps [simp del] ls_put.simps [simp del]

named_theorems listq_simps "unfolding rules of the list macros"

lemmas listq_access [listq_simps] =
  ls_deref_def ls_prev_def ls_assign_def ls_assign_prev_def LIST_FIRST_def LIST_NEXT_def LIST_EMPTY_def LIST_INIT_def

lemma listq_distinct: "listq m h xs \<Longrightarrow> distinct xs"
  by (auto simp: listq_def dest: chain_distinct)

lemma listq_nonnull: "listq m h xs \<Longrightarrow> 0 \<notin> set xs"
  by (auto simp: listq_def dest: chain_nonnull)

section \<open>What the macros do to it\<close>

abbreviation ls_becomes :: "'a list_mem \<Rightarrow> nptr \<Rightarrow> nptr list \<Rightarrow> 'a list_mem \<Rightarrow> nptr list \<Rightarrow> bool" where
  "ls_becomes \<equiv> becomes listq ls_data"

lemma init_listq:
  assumes "ls_heads m h \<noteq> None"
  shows "\<exists>m'. LIST_INIT m h = Done m' \<and> ls_becomes m h xs m' []"
  using ls_head_live [OF assms] by (auto simp: listq_simps listq_def becomes_def keeps_others_def)

lemma insert_head_listq:
  assumes "listq m h xs" and "fresh ls_data m e" and "e \<notin> set xs"
  shows "\<exists>m'. LIST_INSERT_HEAD m h e = Done m' \<and> ls_becomes m h xs m' (e # xs)"
  using assms ls_fresh [OF assms(2)] listq_nonnull [OF assms(1)] listq_distinct [OF assms(1)]
  by (cases xs) (auto simp: LIST_INSERT_HEAD_def listq_simps listq_def becomes_def keeps_others_def
      simp del: and_then_Done_iff)

lemma insert_after_listq:
  assumes "listq m h (xs @ y # ys)" and "fresh ls_data m e" and "e \<notin> set (xs @ y # ys)"
  shows "\<exists>m'. LIST_INSERT_AFTER m y e = Done m' \<and> ls_becomes m h (xs @ y # ys) m' (xs @ y # e # ys)"
  using assms ls_fresh [OF assms(2)] listq_nonnull [OF assms(1)] listq_distinct [OF assms(1)]
  by (cases ys) (auto simp: LIST_INSERT_AFTER_def listq_simps listq_def becomes_def keeps_others_def
      simp del: and_then_Done_iff)

lemma insert_before_listq:
  assumes "listq m h (xs @ y # ys)" and "fresh ls_data m e" and "e \<notin> set (xs @ y # ys)"
  shows "\<exists>m'. LIST_INSERT_BEFORE m y e = Done m' \<and> ls_becomes m h (xs @ y # ys) m' (xs @ e # y # ys)"
  using assms ls_fresh [OF assms(2)] listq_nonnull [OF assms(1)] listq_distinct [OF assms(1)]
  by (cases xs rule: rev_cases) (auto simp: LIST_INSERT_BEFORE_def listq_simps listq_def becomes_def keeps_others_def
      simp del: and_then_Done_iff)

lemma remove_listq:
  assumes "listq m h (xs @ y # ys)"
  shows "\<exists>m'. LIST_REMOVE m y = Done m' \<and> ls_becomes m h (xs @ y # ys) m' (xs @ ys)"
  using assms listq_nonnull [OF assms(1)] listq_distinct [OF assms(1)]
  by (cases xs rule: rev_cases; cases ys)
    (auto simp: LIST_REMOVE_def listq_simps listq_def becomes_def keeps_others_def simp del: and_then_Done_iff)

lemma prev_listq:
  "listq m h (xs @ y # ys) \<Longrightarrow> LIST_PREV m y h = Done (first_or (rev xs) 0)"
  by (cases xs rule: rev_cases) (auto simp: LIST_PREV_def listq_simps listq_def)

lemma next_listq: "listq m h (xs @ y # ys) \<Longrightarrow> y \<noteq> 0 \<and> LIST_NEXT m y = Done (first_or ys 0)"
  by (simp add: LIST_NEXT_def ls_deref_def listq_def)

lemma first_listq: "listq m h xs \<Longrightarrow> LIST_FIRST m h = Done (first_or xs 0)"
  by (simp add: LIST_FIRST_def ls_deref_def listq_def)

lemma list_find_last_chain:
  "chain (ls_fwd m) (xs @ [y]) 0 \<Longrightarrow> list_find_last m (first_or xs y) = Some (Done y)"
proof (induction xs)
  case Nil
  then show ?case by (subst list_find_last.simps) (simp add: listq_simps)
next
  case (Cons x xs)
  then have "first_or xs y \<noteq> 0" by (cases xs) auto
  with Cons show ?case by (subst list_find_last.simps) (simp add: listq_simps)
qed

lemma concat_listq:
  assumes "listq m h1 xs" and "listq m h2 ys" and "h1 \<noteq> h2" and "set xs \<inter> set ys = {}"
  shows "\<exists>m'. LIST_CONCAT m h1 h2 = Done m' \<and> listq m' h1 (xs @ ys) \<and> listq m' h2 [] \<and>
    ls_data m' = ls_data m \<and> keeps_others listq m m' {h1, h2} (set xs \<union> set ys)"
proof (cases xs rule: rev_cases)
  case Nil
  then show ?thesis
    using assms listq_nonnull [OF assms(2)] listq_distinct [OF assms(2)]
    by (cases ys) (auto simp: LIST_CONCAT_def listq_simps listq_def keeps_others_def simp del: and_then_Done_iff)
next
  case (snoc as x)
  have "list_find_last m (first_or as x) = Some (Done x)" "first_or as x \<noteq> 0"
    using assms(1) snoc list_find_last_chain [of m as x] listq_nonnull [OF assms(1)]
    by (cases as; auto simp: listq_def)+
  then show ?thesis
    using snoc assms listq_nonnull [OF assms(1)] listq_distinct [OF assms(1)]
      listq_nonnull [OF assms(2)] listq_distinct [OF assms(2)]
    by (cases ys)
      (auto simp: LIST_CONCAT_def returns_def listq_simps listq_def keeps_others_def simp del: and_then_Done_iff)
qed

lemma swap_listq:
  assumes "listq m h1 xs" and "listq m h2 ys" and "h1 \<noteq> h2" and "set xs \<inter> set ys = {}"
  shows "\<exists>m'. LIST_SWAP m h1 h2 = Done m' \<and> listq m' h1 ys \<and> listq m' h2 xs \<and>
    ls_data m' = ls_data m \<and> keeps_others listq m m' {h1, h2} (set xs \<union> set ys)"
  using assms listq_nonnull [OF assms(1)] listq_distinct [OF assms(1)]
    listq_nonnull [OF assms(2)] listq_distinct [OF assms(2)]
  by (cases xs; cases ys)
    (auto simp: LIST_SWAP_def ls_reanchor_def listq_simps listq_def keeps_others_def simp del: and_then_Done_iff)

section \<open>The kernel's checks are silent\<close>

lemma check_head_listq: "listq m h xs \<Longrightarrow> QMD_LIST_CHECK_HEAD m h = Done True"
  by (cases xs) (auto simp: QMD_LIST_CHECK_HEAD_def listq_simps listq_def)

lemma check_next_listq: "listq m h (xs @ y # ys) \<Longrightarrow> QMD_LIST_CHECK_NEXT m y = Done True"
  by (cases ys) (auto simp: QMD_LIST_CHECK_NEXT_def listq_simps listq_def)

lemma check_prev_listq: "listq m h (xs @ y # ys) \<Longrightarrow> QMD_LIST_CHECK_PREV m y = Done True"
  by (cases xs rule: rev_cases) (auto simp: QMD_LIST_CHECK_PREV_def listq_simps listq_def)

text \<open>And they are complete: elements linked forwards that pass them are linked backwards.\<close>

lemma checks_back:
  assumes "chain (ls_fwd m) xs 0" and "\<forall>x \<in> set xs. QMD_LIST_CHECK_NEXT m x = Done True"
    and "xs \<noteq> [] \<Longrightarrow> ls_bwd m (NextOf (first_or xs 0)) = Some l"
  shows "backs (ls_bwd m) l xs"
  using assms
proof (induction xs arbitrary: l)
  case (Cons x xs)
  have "ls_bwd m (NextOf (first_or xs 0)) = Some (NextOf x)" if "xs \<noteq> []"
    using Cons.prems(1,2) that first_or_null [of "ls_fwd m" xs]
    by (auto simp: QMD_LIST_CHECK_NEXT_def listq_simps live_def split: option.splits)
  with Cons show ?case by simp
qed simp

lemma listq_iff_checks:
  assumes "ls_fwd m (FirstOf h) = Some (first_or xs 0)" and "chain (ls_fwd m) xs 0"
  shows "listq m h xs \<longleftrightarrow> QMD_LIST_CHECK_HEAD m h = Done True \<and> (\<forall>x \<in> set xs. QMD_LIST_CHECK_NEXT m x = Done True)"
    (is "_ \<longleftrightarrow> ?checks")
proof
  assume "listq m h xs"
  then show ?checks
    using check_head_listq check_next_listq by (metis split_list)
next
  assume checks: ?checks
  have "ls_bwd m (NextOf (first_or xs 0)) = Some (FirstOf h)" if "xs \<noteq> []"
    using assms checks that first_or_null [OF assms(2)]
    by (auto simp: QMD_LIST_CHECK_HEAD_def listq_simps live_def split: option.splits)
  with assms checks checks_back [of m xs "FirstOf h"] show "listq m h xs"
    by (simp add: listq_def)
qed

section \<open>The contract\<close>

definition LIST :: "'a list_mem queue_macros" where
  "LIST = \<lparr>m_init = LIST_INIT, m_insert_head = LIST_INSERT_HEAD, m_insert_tail = None,
     m_insert_after = (\<lambda>m head. LIST_INSERT_AFTER m), m_insert_before = Some LIST_INSERT_BEFORE,
     m_remove = (\<lambda>m head. LIST_REMOVE m), m_remove_head = None, m_remove_after = None,
     m_concat = LIST_CONCAT, m_swap = LIST_SWAP\<rparr>"

lemma LIST_simps [simp]:
  "m_init LIST = LIST_INIT" "m_insert_head LIST = LIST_INSERT_HEAD"
  "m_insert_tail LIST = None" "m_insert_after LIST = (\<lambda>m head. LIST_INSERT_AFTER m)"
  "m_insert_before LIST = Some LIST_INSERT_BEFORE" "m_remove LIST = (\<lambda>m head. LIST_REMOVE m)"
  "m_remove_head LIST = None" "m_remove_after LIST = None" "m_concat LIST = LIST_CONCAT"
  "m_swap LIST = LIST_SWAP"
  by (simp_all add: LIST_def)

interpretation listq: walked_queue LIST listq ls_data LIST_FIRST LIST_NEXT
proof (unfold_locales, goal_cases)
  case (1 m h xs)
  then show ?case using init_listq [of m h xs] by (auto simp: listq_def ls_fwd.simps)
qed (auto intro: insert_head_listq insert_after_listq insert_before_listq remove_listq
    concat_listq swap_listq listq_distinct first_listq dest: next_listq)

section \<open>Iterating\<close>

lemma foreach_listq:
  assumes "\<And>x s. x \<in> set xs \<Longrightarrow> listq (mem s) h xs \<Longrightarrow> body x s = Done (g x s) \<and> listq (mem (g x s)) h xs"
    and "listq (mem s) h xs"
  shows "LIST_FOREACH mem body h s = Some (Done (fold g xs s))"
    and "xs = as @ y # bs \<Longrightarrow> LIST_FOREACH_FROM mem body y h s = Some (Done (fold g (y # bs) s))"
proof -
  note on = listq.visits [where mem = mem and h = h and g = g, OF assms]
  show "LIST_FOREACH mem body h s = Some (Done (fold g xs s))"
    using on [of "[]" xs] by (simp add: LIST_FOREACH_def first_listq [OF assms(2)])
  assume y: "xs = as @ y # bs"
  then have "y \<noteq> 0" using next_listq assms(2) by blast
  then show "LIST_FOREACH_FROM mem body y h s = Some (Done (fold g (y # bs) s))"
    using on [of as "y # bs"] y by (simp add: LIST_FOREACH_FROM_def)
qed

lemma foreach_safe_listq:
  assumes "listq m h xs"
  shows "\<exists>m'. LIST_FOREACH_SAFE id (\<lambda>x m. if dead (ls_data m x) then LIST_REMOVE m x else Done m) h m
      = Some (Done m') \<and> ls_becomes m h xs m' (filter (\<lambda>x. \<not> dead (ls_data m x)) xs)"
    and "xs = as @ y # bs \<Longrightarrow>
      \<exists>m'. LIST_FOREACH_FROM_SAFE id (\<lambda>x m. if dead (ls_data m x) then LIST_REMOVE m x else Done m) y h m
      = Some (Done m') \<and> ls_becomes m h xs m' (as @ filter (\<lambda>x. \<not> dead (ls_data m x)) (y # bs))"
proof -
  note on = listq.sweeps [where dead = dead]
  show "\<exists>m'. LIST_FOREACH_SAFE id (\<lambda>x m. if dead (ls_data m x) then LIST_REMOVE m x else Done m) h m
      = Some (Done m') \<and> ls_becomes m h xs m' (filter (\<lambda>x. \<not> dead (ls_data m x)) xs)"
    using on [of m h "[]" xs] assms by (simp add: LIST_FOREACH_SAFE_def first_listq [OF assms] cong: if_cong)
  assume y: "xs = as @ y # bs"
  then have "y \<noteq> 0" using next_listq assms by blast
  then show "\<exists>m'. LIST_FOREACH_FROM_SAFE id (\<lambda>x m. if dead (ls_data m x) then LIST_REMOVE m x else Done m) y h m
      = Some (Done m') \<and> ls_becomes m h xs m' (as @ filter (\<lambda>x. \<not> dead (ls_data m x)) (y # bs))"
    using on [of m h as "y # bs"] assms y by (simp add: LIST_FOREACH_FROM_SAFE_def cong: if_cong)
qed

end
