(* ===== verification/Tailq_Queue.thy ===== *)
theory Tailq_Queue
  imports Queue_Links
begin

text \<open>
  The tail queues of \<^verbatim>\<open>server/queue.h\<close>: doubly linked elements, a head that also knows the address
  of the last link. \<^verbatim>\<open>TAILQ_LAST\<close> and \<^verbatim>\<open>TAILQ_PREV\<close> view the address of a link as a head, which works
  because head and entry have the same layout; \<open>tq_behind\<close> is that view. The checks of
  the kernel's \<^verbatim>\<open>INVARIANTS\<close> are predicates of their own; what \<^verbatim>\<open>QUEUE_MACRO_DEBUG\<close> adds is in \<open>Queue_Traces\<close>.
\<close>

section \<open>Heads, elements and their links\<close>

record tailq_head =
  tqh_first :: nptr
  tqh_last :: qlink

record 'a tailq_entry =
  tqe_next :: nptr
  tqe_prev :: qlink
  tqe_data :: 'a

record 'a tailq_mem =
  tq_heads :: "nptr \<rightharpoonup> tailq_head"
  tq_elems :: "nptr \<rightharpoonup> 'a tailq_entry"

fun tq_fwd :: "'a tailq_mem \<Rightarrow> qlink \<Rightarrow> nptr option" where
  "tq_fwd m (FirstOf h) = map_option tqh_first (tq_heads m h)"
| "tq_fwd m (NextOf p) = map_option tqe_next (tq_elems m p)"

fun tq_bwd :: "'a tailq_mem \<Rightarrow> qlink \<Rightarrow> qlink option" where
  "tq_bwd m (FirstOf h) = map_option tqh_last (tq_heads m h)"
| "tq_bwd m (NextOf p) = map_option tqe_prev (tq_elems m p)"

definition tq_data :: "'a tailq_mem \<Rightarrow> nptr \<Rightarrow> 'a option" where
  "tq_data m p = map_option tqe_data (tq_elems m p)"

text \<open>\<open>*l\<close>, and the member behind it: \<open>tqh_last\<close> of a head, \<open>tqe_prev\<close> of an element.\<close>

definition tq_deref :: "'a tailq_mem \<Rightarrow> qlink \<Rightarrow> nptr outcome" where
  "tq_deref m l = live (tq_fwd m l)"

definition tq_behind :: "'a tailq_mem \<Rightarrow> qlink \<Rightarrow> qlink outcome" where
  "tq_behind m l = live (tq_bwd m l)"

fun tq_put :: "'a tailq_mem \<Rightarrow> qlink \<Rightarrow> nptr \<Rightarrow> 'a tailq_mem" where
  "tq_put m (FirstOf h) v =
     m\<lparr>tq_heads := (tq_heads m)(h := map_option (tqh_first_update (\<lambda>_. v)) (tq_heads m h))\<rparr>"
| "tq_put m (NextOf p) v =
     m\<lparr>tq_elems := (tq_elems m)(p := map_option (tqe_next_update (\<lambda>_. v)) (tq_elems m p))\<rparr>"

fun tq_put_behind :: "'a tailq_mem \<Rightarrow> qlink \<Rightarrow> qlink \<Rightarrow> 'a tailq_mem" where
  "tq_put_behind m (FirstOf h) k =
     m\<lparr>tq_heads := (tq_heads m)(h := map_option (tqh_last_update (\<lambda>_. k)) (tq_heads m h))\<rparr>"
| "tq_put_behind m (NextOf p) k =
     m\<lparr>tq_elems := (tq_elems m)(p := map_option (tqe_prev_update (\<lambda>_. k)) (tq_elems m p))\<rparr>"

definition tq_assign :: "'a tailq_mem \<Rightarrow> qlink \<Rightarrow> nptr \<Rightarrow> 'a tailq_mem outcome" where
  "tq_assign m l v = (if tq_fwd m l = None then Fault else Done (tq_put m l v))"

definition tq_assign_behind :: "'a tailq_mem \<Rightarrow> qlink \<Rightarrow> qlink \<Rightarrow> 'a tailq_mem outcome" where
  "tq_assign_behind m l k = (if tq_bwd m l = None then Fault else Done (tq_put_behind m l k))"

section \<open>The macros\<close>

definition TAILQ_HEAD_INITIALIZER :: "nptr \<Rightarrow> tailq_head" where
  "TAILQ_HEAD_INITIALIZER head = \<lparr>tqh_first = 0, tqh_last = FirstOf head\<rparr>"

definition TAILQ_FIRST :: "'a tailq_mem \<Rightarrow> nptr \<Rightarrow> nptr outcome" where
  "TAILQ_FIRST m head = tq_deref m (FirstOf head)"

definition TAILQ_NEXT :: "'a tailq_mem \<Rightarrow> nptr \<Rightarrow> nptr outcome" where
  "TAILQ_NEXT m elm = tq_deref m (NextOf elm)"

definition TAILQ_EMPTY :: "'a tailq_mem \<Rightarrow> nptr \<Rightarrow> bool outcome" where
  "TAILQ_EMPTY m head = and_then (TAILQ_FIRST m head) (\<lambda>p. Done (p = 0))"

definition TAILQ_LAST :: "'a tailq_mem \<Rightarrow> nptr \<Rightarrow> nptr outcome" where
  "TAILQ_LAST m head =
     and_then (tq_behind m (FirstOf head)) (\<lambda>l. and_then (tq_behind m l) (tq_deref m))"

definition TAILQ_PREV :: "'a tailq_mem \<Rightarrow> nptr \<Rightarrow> nptr outcome" where
  "TAILQ_PREV m elm =
     and_then (tq_behind m (NextOf elm)) (\<lambda>l. and_then (tq_behind m l) (tq_deref m))"

definition TAILQ_INIT :: "'a tailq_mem \<Rightarrow> nptr \<Rightarrow> 'a tailq_mem outcome" where
  "TAILQ_INIT m head =
     and_then (tq_assign m (FirstOf head) 0) (\<lambda>m. tq_assign_behind m (FirstOf head) (FirstOf head))"

definition TAILQ_CONCAT :: "'a tailq_mem \<Rightarrow> nptr \<Rightarrow> nptr \<Rightarrow> 'a tailq_mem outcome" where
  "TAILQ_CONCAT m head1 head2 =
     and_then (TAILQ_EMPTY m head2) (\<lambda>e.
       if e then Done m
       else and_then (tq_behind m (FirstOf head1)) (\<lambda>last1.
         and_then (TAILQ_FIRST m head2) (\<lambda>first2.
         and_then (tq_assign m last1 first2) (\<lambda>m.
         and_then (TAILQ_FIRST m head2) (\<lambda>first2.
         and_then (tq_behind m (FirstOf head1)) (\<lambda>last1.
         and_then (tq_assign_behind m (NextOf first2) last1) (\<lambda>m.
         and_then (tq_behind m (FirstOf head2)) (\<lambda>last2.
         and_then (tq_assign_behind m (FirstOf head1) last2) (\<lambda>m.
         TAILQ_INIT m head2)))))))))"

definition TAILQ_INSERT_AFTER :: "'a tailq_mem \<Rightarrow> nptr \<Rightarrow> nptr \<Rightarrow> nptr \<Rightarrow> 'a tailq_mem outcome" where
  "TAILQ_INSERT_AFTER m head listelm elm =
     and_then (TAILQ_NEXT m listelm) (\<lambda>n.
     and_then (tq_assign m (NextOf elm) n) (\<lambda>m.
     and_then (if n \<noteq> 0
               then and_then (TAILQ_NEXT m elm) (\<lambda>q. tq_assign_behind m (NextOf q) (NextOf elm))
               else tq_assign_behind m (FirstOf head) (NextOf elm)) (\<lambda>m.
     and_then (tq_assign m (NextOf listelm) elm) (\<lambda>m.
     tq_assign_behind m (NextOf elm) (NextOf listelm)))))"

definition TAILQ_INSERT_BEFORE :: "'a tailq_mem \<Rightarrow> nptr \<Rightarrow> nptr \<Rightarrow> 'a tailq_mem outcome" where
  "TAILQ_INSERT_BEFORE m listelm elm =
     and_then (tq_behind m (NextOf listelm)) (\<lambda>k.
     and_then (tq_assign_behind m (NextOf elm) k) (\<lambda>m.
     and_then (tq_assign m (NextOf elm) listelm) (\<lambda>m.
     and_then (tq_behind m (NextOf listelm)) (\<lambda>k.
     and_then (tq_assign m k elm) (\<lambda>m.
     tq_assign_behind m (NextOf listelm) (NextOf elm))))))"

definition TAILQ_INSERT_HEAD :: "'a tailq_mem \<Rightarrow> nptr \<Rightarrow> nptr \<Rightarrow> 'a tailq_mem outcome" where
  "TAILQ_INSERT_HEAD m head elm =
     and_then (TAILQ_FIRST m head) (\<lambda>n.
     and_then (tq_assign m (NextOf elm) n) (\<lambda>m.
     and_then (if n \<noteq> 0
               then and_then (TAILQ_FIRST m head) (\<lambda>q. tq_assign_behind m (NextOf q) (NextOf elm))
               else tq_assign_behind m (FirstOf head) (NextOf elm)) (\<lambda>m.
     and_then (tq_assign m (FirstOf head) elm) (\<lambda>m.
     tq_assign_behind m (NextOf elm) (FirstOf head)))))"

definition TAILQ_INSERT_TAIL :: "'a tailq_mem \<Rightarrow> nptr \<Rightarrow> nptr \<Rightarrow> 'a tailq_mem outcome" where
  "TAILQ_INSERT_TAIL m head elm =
     and_then (tq_assign m (NextOf elm) 0) (\<lambda>m.
     and_then (tq_behind m (FirstOf head)) (\<lambda>k.
     and_then (tq_assign_behind m (NextOf elm) k) (\<lambda>m.
     and_then (tq_behind m (FirstOf head)) (\<lambda>k.
     and_then (tq_assign m k elm) (\<lambda>m.
     tq_assign_behind m (FirstOf head) (NextOf elm))))))"

definition TAILQ_REMOVE :: "'a tailq_mem \<Rightarrow> nptr \<Rightarrow> nptr \<Rightarrow> 'a tailq_mem outcome" where
  "TAILQ_REMOVE m head elm =
     and_then (TAILQ_NEXT m elm) (\<lambda>n.
     and_then (if n \<noteq> 0
               then and_then (tq_behind m (NextOf elm)) (tq_assign_behind m (NextOf n))
               else and_then (tq_behind m (NextOf elm)) (tq_assign_behind m (FirstOf head))) (\<lambda>m.
     and_then (tq_behind m (NextOf elm)) (\<lambda>k.
     and_then (TAILQ_NEXT m elm) (\<lambda>n.
     tq_assign m k n))))"

definition tq_reanchor :: "'a tailq_mem \<Rightarrow> nptr \<Rightarrow> 'a tailq_mem outcome" where
  "tq_reanchor m head =
     and_then (TAILQ_FIRST m head) (\<lambda>swap_first.
       if swap_first \<noteq> 0 then tq_assign_behind m (NextOf swap_first) (FirstOf head)
       else tq_assign_behind m (FirstOf head) (FirstOf head))"

definition TAILQ_SWAP :: "'a tailq_mem \<Rightarrow> nptr \<Rightarrow> nptr \<Rightarrow> 'a tailq_mem outcome" where
  "TAILQ_SWAP m head1 head2 =
     and_then (TAILQ_FIRST m head1) (\<lambda>swap_first.
     and_then (tq_behind m (FirstOf head1)) (\<lambda>swap_last.
     and_then (TAILQ_FIRST m head2) (\<lambda>first2.
     and_then (tq_assign m (FirstOf head1) first2) (\<lambda>m.
     and_then (tq_behind m (FirstOf head2)) (\<lambda>last2.
     and_then (tq_assign_behind m (FirstOf head1) last2) (\<lambda>m.
     and_then (tq_assign m (FirstOf head2) swap_first) (\<lambda>m.
     and_then (tq_assign_behind m (FirstOf head2) swap_last) (\<lambda>m.
     and_then (tq_reanchor m head1) (\<lambda>m.
     tq_reanchor m head2)))))))))"

text \<open>The iterations, over a state \<open>'s\<close> that holds the memory.\<close>

definition TAILQ_FOREACH :: "('s \<Rightarrow> 'a tailq_mem) \<Rightarrow> (nptr \<Rightarrow> 's \<Rightarrow> 's outcome) \<Rightarrow> nptr \<Rightarrow> 's \<Rightarrow> 's outcome option" where
  "TAILQ_FOREACH mem body head s =
     start_at (TAILQ_FIRST (mem s) head) (\<lambda>var. for_next (\<lambda>s. TAILQ_NEXT (mem s)) body var s)"

definition TAILQ_FOREACH_FROM :: "('s \<Rightarrow> 'a tailq_mem) \<Rightarrow> (nptr \<Rightarrow> 's \<Rightarrow> 's outcome) \<Rightarrow> nptr \<Rightarrow> nptr \<Rightarrow> 's \<Rightarrow> 's outcome option" where
  "TAILQ_FOREACH_FROM mem body var head s =
     start_at (if var \<noteq> 0 then Done var else TAILQ_FIRST (mem s) head)
       (\<lambda>var. for_next (\<lambda>s. TAILQ_NEXT (mem s)) body var s)"

definition TAILQ_FOREACH_SAFE :: "('s \<Rightarrow> 'a tailq_mem) \<Rightarrow> (nptr \<Rightarrow> 's \<Rightarrow> 's outcome) \<Rightarrow> nptr \<Rightarrow> 's \<Rightarrow> 's outcome option" where
  "TAILQ_FOREACH_SAFE mem body head s =
     start_at (TAILQ_FIRST (mem s) head) (\<lambda>var. for_next_safe (\<lambda>s. TAILQ_NEXT (mem s)) body var s)"

definition TAILQ_FOREACH_FROM_SAFE :: "('s \<Rightarrow> 'a tailq_mem) \<Rightarrow> (nptr \<Rightarrow> 's \<Rightarrow> 's outcome) \<Rightarrow> nptr \<Rightarrow> nptr \<Rightarrow> 's \<Rightarrow> 's outcome option" where
  "TAILQ_FOREACH_FROM_SAFE mem body var head s =
     start_at (if var \<noteq> 0 then Done var else TAILQ_FIRST (mem s) head)
       (\<lambda>var. for_next_safe (\<lambda>s. TAILQ_NEXT (mem s)) body var s)"

definition TAILQ_FOREACH_REVERSE :: "('s \<Rightarrow> 'a tailq_mem) \<Rightarrow> (nptr \<Rightarrow> 's \<Rightarrow> 's outcome) \<Rightarrow> nptr \<Rightarrow> 's \<Rightarrow> 's outcome option" where
  "TAILQ_FOREACH_REVERSE mem body head s =
     start_at (TAILQ_LAST (mem s) head) (\<lambda>var. for_next (\<lambda>s. TAILQ_PREV (mem s)) body var s)"

definition TAILQ_FOREACH_REVERSE_FROM :: "('s \<Rightarrow> 'a tailq_mem) \<Rightarrow> (nptr \<Rightarrow> 's \<Rightarrow> 's outcome) \<Rightarrow> nptr \<Rightarrow> nptr \<Rightarrow> 's \<Rightarrow> 's outcome option" where
  "TAILQ_FOREACH_REVERSE_FROM mem body var head s =
     start_at (if var \<noteq> 0 then Done var else TAILQ_LAST (mem s) head)
       (\<lambda>var. for_next (\<lambda>s. TAILQ_PREV (mem s)) body var s)"

definition TAILQ_FOREACH_REVERSE_SAFE :: "('s \<Rightarrow> 'a tailq_mem) \<Rightarrow> (nptr \<Rightarrow> 's \<Rightarrow> 's outcome) \<Rightarrow> nptr \<Rightarrow> 's \<Rightarrow> 's outcome option" where
  "TAILQ_FOREACH_REVERSE_SAFE mem body head s =
     start_at (TAILQ_LAST (mem s) head) (\<lambda>var. for_next_safe (\<lambda>s. TAILQ_PREV (mem s)) body var s)"

definition TAILQ_FOREACH_REVERSE_FROM_SAFE :: "('s \<Rightarrow> 'a tailq_mem) \<Rightarrow> (nptr \<Rightarrow> 's \<Rightarrow> 's outcome) \<Rightarrow> nptr \<Rightarrow> nptr \<Rightarrow> 's \<Rightarrow> 's outcome option" where
  "TAILQ_FOREACH_REVERSE_FROM_SAFE mem body var head s =
     start_at (if var \<noteq> 0 then Done var else TAILQ_LAST (mem s) head)
       (\<lambda>var. for_next_safe (\<lambda>s. TAILQ_PREV (mem s)) body var s)"

section \<open>The kernel's checks\<close>

text \<open>\<open>Done False\<close> stands for the panic.\<close>

definition QMD_TAILQ_CHECK_HEAD :: "'a tailq_mem \<Rightarrow> nptr \<Rightarrow> bool outcome" where
  "QMD_TAILQ_CHECK_HEAD m head =
     and_then (TAILQ_FIRST m head) (\<lambda>p.
       if p \<noteq> 0 then and_then (tq_behind m (NextOf p)) (\<lambda>k. Done (k = FirstOf head)) else Done True)"

definition QMD_TAILQ_CHECK_TAIL :: "'a tailq_mem \<Rightarrow> nptr \<Rightarrow> bool outcome" where
  "QMD_TAILQ_CHECK_TAIL m head =
     and_then (tq_behind m (FirstOf head)) (\<lambda>k. and_then (tq_deref m k) (\<lambda>p. Done (p = 0)))"

definition QMD_TAILQ_CHECK_NEXT :: "'a tailq_mem \<Rightarrow> nptr \<Rightarrow> bool outcome" where
  "QMD_TAILQ_CHECK_NEXT m elm =
     and_then (TAILQ_NEXT m elm) (\<lambda>p.
       if p \<noteq> 0 then and_then (tq_behind m (NextOf p)) (\<lambda>k. Done (k = NextOf elm)) else Done True)"

definition QMD_TAILQ_CHECK_PREV :: "'a tailq_mem \<Rightarrow> nptr \<Rightarrow> bool outcome" where
  "QMD_TAILQ_CHECK_PREV m elm =
     and_then (tq_behind m (NextOf elm)) (\<lambda>k. and_then (tq_deref m k) (\<lambda>p. Done (p = elm)))"

section \<open>The list a tail queue stands for\<close>

definition tailq :: "'a tailq_mem \<Rightarrow> nptr \<Rightarrow> nptr list \<Rightarrow> bool" where
  "tailq m h xs \<longleftrightarrow> tq_fwd m (FirstOf h) = Some (first_or xs 0) \<and> chain (tq_fwd m) xs 0 \<and>
     backs (tq_bwd m) (FirstOf h) xs \<and> tq_bwd m (FirstOf h) = Some (cell_after (FirstOf h) xs)"

lemma tq_fwd_put [simp]: "tq_fwd (tq_put m l v) = (tq_fwd m)(l := map_option (\<lambda>_. v) (tq_fwd m l))"
    "tq_fwd (tq_put_behind m l k) = tq_fwd m"
  by (rule ext, rename_tac j, case_tac j; cases l; auto simp: option.map_comp comp_def)+

lemma tq_bwd_put [simp]: "tq_bwd (tq_put_behind m l k) = (tq_bwd m)(l := map_option (\<lambda>_. k) (tq_bwd m l))"
    "tq_bwd (tq_put m l v) = tq_bwd m"
  by (rule ext, rename_tac j, case_tac j; cases l; auto simp: option.map_comp comp_def)+

lemma tq_data_put [simp]: "tq_data (tq_put m l v) = tq_data m" "tq_data (tq_put_behind m l k) = tq_data m"
  by (cases l; auto simp: tq_data_def fun_eq_iff option.map_comp comp_def)+

lemma tq_fresh: "fresh tq_data m p \<Longrightarrow> \<exists>v k. p \<noteq> 0 \<and> tq_fwd m (NextOf p) = Some v \<and> tq_bwd m (NextOf p) = Some k"
  by (auto simp: tq_data_def fresh_def)


lemma tq_head_live: "tq_heads m h \<noteq> None \<Longrightarrow> \<exists>v k. tq_fwd m (FirstOf h) = Some v \<and> tq_bwd m (FirstOf h) = Some k"
  by auto

declare tq_fwd.simps [simp del] tq_bwd.simps [simp del] tq_put.simps [simp del] tq_put_behind.simps [simp del]

named_theorems tailq_simps "unfolding rules of the tail queue macros"

lemmas tailq_access [tailq_simps] =
  tq_deref_def tq_behind_def tq_assign_def tq_assign_behind_def TAILQ_FIRST_def TAILQ_NEXT_def TAILQ_EMPTY_def

lemma tailq_distinct: "tailq m h xs \<Longrightarrow> distinct xs"
  by (auto simp: tailq_def dest: chain_distinct)

lemma tailq_live:
  "tailq m h xs \<Longrightarrow> x \<in> set xs \<Longrightarrow> \<exists>v k. tq_fwd m (NextOf x) = Some v \<and> tq_bwd m (NextOf x) = Some k"
  by (auto simp: tailq_def dest: chain_live backs_live)

lemma tailq_nonnull: "tailq m h xs \<Longrightarrow> 0 \<notin> set xs"
  by (auto simp: tailq_def dest: chain_nonnull)

section \<open>What the macros do to it\<close>

abbreviation tq_becomes :: "'a tailq_mem \<Rightarrow> nptr \<Rightarrow> nptr list \<Rightarrow> 'a tailq_mem \<Rightarrow> nptr list \<Rightarrow> bool" where
  "tq_becomes \<equiv> becomes tailq tq_data"

lemma init_tailq:
  assumes "tq_heads m h \<noteq> None"
  shows "\<exists>m'. TAILQ_INIT m h = Done m' \<and> tq_becomes m h xs m' []"
  using tq_head_live [OF assms] by (auto simp: TAILQ_INIT_def tailq_simps tailq_def becomes_def keeps_others_def)

lemma insert_head_tailq:
  assumes "tailq m h xs" and "fresh tq_data m e" and "e \<notin> set xs"
  shows "\<exists>m'. TAILQ_INSERT_HEAD m h e = Done m' \<and> tq_becomes m h xs m' (e # xs)"
  using assms tq_fresh [OF assms(2)] tailq_nonnull [OF assms(1)] tailq_distinct [OF assms(1)]
  by (cases xs) (auto simp: TAILQ_INSERT_HEAD_def tailq_simps tailq_def becomes_def keeps_others_def)

lemma insert_tail_tailq:
  assumes "tailq m h xs" and "fresh tq_data m e" and "e \<notin> set xs"
  shows "\<exists>m'. TAILQ_INSERT_TAIL m h e = Done m' \<and> tq_becomes m h xs m' (xs @ [e])"
  using assms tq_fresh [OF assms(2)] tailq_nonnull [OF assms(1)] tailq_distinct [OF assms(1)]
  by (cases xs rule: rev_cases) (auto simp: TAILQ_INSERT_TAIL_def tailq_simps tailq_def becomes_def keeps_others_def)


lemma insert_after_tailq:
  assumes "tailq m h (xs @ y # ys)" and "fresh tq_data m e" and "e \<notin> set (xs @ y # ys)"
  shows "\<exists>m'. TAILQ_INSERT_AFTER m h y e = Done m' \<and> tq_becomes m h (xs @ y # ys) m' (xs @ y # e # ys)"
  using assms tq_fresh [OF assms(2)] tailq_nonnull [OF assms(1)] tailq_distinct [OF assms(1)]
  by (cases ys) (auto simp: TAILQ_INSERT_AFTER_def tailq_simps tailq_def becomes_def keeps_others_def simp del: and_then_Done_iff)

lemma insert_before_tailq:
  assumes "tailq m h (xs @ y # ys)" and "fresh tq_data m e" and "e \<notin> set (xs @ y # ys)"
  shows "\<exists>m'. TAILQ_INSERT_BEFORE m y e = Done m' \<and> tq_becomes m h (xs @ y # ys) m' (xs @ e # y # ys)"
  using assms tq_fresh [OF assms(2)] tailq_nonnull [OF assms(1)] tailq_distinct [OF assms(1)]
  by (cases xs rule: rev_cases) (auto simp: TAILQ_INSERT_BEFORE_def tailq_simps tailq_def becomes_def keeps_others_def)

lemma remove_tailq:
  assumes "tailq m h (xs @ y # ys)"
  shows "\<exists>m'. TAILQ_REMOVE m h y = Done m' \<and> tq_becomes m h (xs @ y # ys) m' (xs @ ys)"
  using assms tailq_nonnull [OF assms(1)] tailq_distinct [OF assms(1)]
  by (cases xs rule: rev_cases; cases ys)
    (auto simp: TAILQ_REMOVE_def tailq_simps tailq_def becomes_def keeps_others_def)

lemma last_tailq: "tailq m h xs \<Longrightarrow> TAILQ_LAST m h = Done (first_or (rev xs) 0)"
  by (cases xs rule: rev_cases; cases "butlast xs" rule: rev_cases)
    (auto simp: TAILQ_LAST_def tailq_simps tailq_def chain_end)

lemma prev_tailq: "tailq m h (xs @ y # ys) \<Longrightarrow> TAILQ_PREV m y = Done (first_or (rev xs) 0)"
  by (cases xs rule: rev_cases; cases "butlast xs" rule: rev_cases)
    (auto simp: TAILQ_PREV_def tailq_simps tailq_def chain_end)

lemma concat_tailq:
  assumes "tailq m h1 xs" and "tailq m h2 ys" and "h1 \<noteq> h2" and "set xs \<inter> set ys = {}"
  shows "\<exists>m'. TAILQ_CONCAT m h1 h2 = Done m' \<and> tailq m' h1 (xs @ ys) \<and> tailq m' h2 [] \<and>
    tq_data m' = tq_data m \<and> keeps_others tailq m m' {h1, h2} (set xs \<union> set ys)"
  using assms tailq_nonnull [OF assms(1)] tailq_distinct [OF assms(1)]
    tailq_nonnull [OF assms(2)] tailq_distinct [OF assms(2)]
  by (cases xs rule: rev_cases; cases ys)
    (auto simp: TAILQ_CONCAT_def TAILQ_INIT_def tailq_simps tailq_def keeps_others_def simp del: and_then_Done_iff)

lemma swap_tailq:
  assumes "tailq m h1 xs" and "tailq m h2 ys" and "h1 \<noteq> h2" and "set xs \<inter> set ys = {}"
  shows "\<exists>m'. TAILQ_SWAP m h1 h2 = Done m' \<and> tailq m' h1 ys \<and> tailq m' h2 xs \<and>
    tq_data m' = tq_data m \<and> keeps_others tailq m m' {h1, h2} (set xs \<union> set ys)"
  using assms tailq_nonnull [OF assms(1)] tailq_distinct [OF assms(1)]
    tailq_nonnull [OF assms(2)] tailq_distinct [OF assms(2)]
  by (cases xs; cases ys)
    (auto simp: TAILQ_SWAP_def tq_reanchor_def tailq_simps tailq_def keeps_others_def simp del: and_then_Done_iff)

section \<open>The kernel's checks are silent\<close>

lemma check_head_tailq: "tailq m h xs \<Longrightarrow> QMD_TAILQ_CHECK_HEAD m h = Done True"
  by (cases xs) (auto simp: QMD_TAILQ_CHECK_HEAD_def tailq_simps tailq_def)

lemma check_tail_tailq: "tailq m h xs \<Longrightarrow> QMD_TAILQ_CHECK_TAIL m h = Done True"
  by (auto simp: QMD_TAILQ_CHECK_TAIL_def tailq_simps tailq_def chain_end)

lemma check_next_tailq: "tailq m h (xs @ y # ys) \<Longrightarrow> QMD_TAILQ_CHECK_NEXT m y = Done True"
  by (cases ys) (auto simp: QMD_TAILQ_CHECK_NEXT_def tailq_simps tailq_def)

lemma check_prev_tailq: "tailq m h (xs @ y # ys) \<Longrightarrow> QMD_TAILQ_CHECK_PREV m y = Done True"
  by (cases xs rule: rev_cases) (auto simp: QMD_TAILQ_CHECK_PREV_def tailq_simps tailq_def)

section \<open>The contract\<close>

lemma next_tailq: "tailq m h (xs @ y # ys) \<Longrightarrow> y \<noteq> 0 \<and> TAILQ_NEXT m y = Done (first_or ys 0)"
  by (simp add: TAILQ_NEXT_def tq_deref_def tailq_def)

lemma first_tailq: "tailq m h xs \<Longrightarrow> TAILQ_FIRST m h = Done (first_or xs 0)"
  by (simp add: TAILQ_FIRST_def tq_deref_def tailq_def)

definition TAILQ :: "'a tailq_mem queue_macros" where
  "TAILQ = \<lparr>m_init = TAILQ_INIT, m_insert_head = TAILQ_INSERT_HEAD, m_insert_tail = Some TAILQ_INSERT_TAIL,
     m_insert_after = TAILQ_INSERT_AFTER, m_insert_before = Some TAILQ_INSERT_BEFORE,
     m_remove = TAILQ_REMOVE, m_remove_head = None, m_remove_after = None,
     m_concat = TAILQ_CONCAT, m_swap = TAILQ_SWAP\<rparr>"

lemma TAILQ_simps [simp]:
  "m_init TAILQ = TAILQ_INIT" "m_insert_head TAILQ = TAILQ_INSERT_HEAD"
  "m_insert_tail TAILQ = Some TAILQ_INSERT_TAIL" "m_insert_after TAILQ = TAILQ_INSERT_AFTER"
  "m_insert_before TAILQ = Some TAILQ_INSERT_BEFORE" "m_remove TAILQ = TAILQ_REMOVE"
  "m_remove_head TAILQ = None" "m_remove_after TAILQ = None" "m_concat TAILQ = TAILQ_CONCAT"
  "m_swap TAILQ = TAILQ_SWAP"
  by (simp_all add: TAILQ_def)

interpretation tailq: back_queue TAILQ tailq tq_data TAILQ_FIRST TAILQ_NEXT TAILQ_LAST TAILQ_PREV
proof (unfold_locales, goal_cases)
  case (1 m h xs)
  then show ?case using init_tailq [of m h xs] by (auto simp: tailq_def tq_fwd.simps)
qed (auto intro: insert_head_tailq insert_tail_tailq insert_after_tailq insert_before_tailq remove_tailq
    concat_tailq swap_tailq tailq_distinct first_tailq last_tailq prev_tailq dest: next_tailq)

section \<open>Iterating\<close>

text \<open>A body that keeps the queue is folded over the elements from where the iteration starts, or
  over those up to there in reverse.\<close>

lemma foreach_tailq:
  assumes "\<And>x s. x \<in> set xs \<Longrightarrow> tailq (mem s) h xs \<Longrightarrow> body x s = Done (g x s) \<and> tailq (mem (g x s)) h xs"
    and "tailq (mem s) h xs"
  shows "TAILQ_FOREACH mem body h s = Some (Done (fold g xs s))"
    and "xs = as @ y # bs \<Longrightarrow> TAILQ_FOREACH_FROM mem body y h s = Some (Done (fold g (y # bs) s))"
    and "TAILQ_FOREACH_REVERSE mem body h s = Some (Done (fold g (rev xs) s))"
    and "xs = as @ y # bs \<Longrightarrow> TAILQ_FOREACH_REVERSE_FROM mem body y h s = Some (Done (fold g (y # rev as) s))"
proof -
  note on = tailq.visits [where mem = mem and h = h and g = g, OF assms] and
    on_back = tailq.visits_back [where mem = mem and h = h and g = g, OF assms]
  show "TAILQ_FOREACH mem body h s = Some (Done (fold g xs s))"
    using on [of "[]" xs] by (simp add: TAILQ_FOREACH_def first_tailq [OF assms(2)])
  show "TAILQ_FOREACH_REVERSE mem body h s = Some (Done (fold g (rev xs) s))"
    using on_back [of xs "[]"] by (simp add: TAILQ_FOREACH_REVERSE_def last_tailq [OF assms(2)])
  assume y: "xs = as @ y # bs"
  then have "y \<noteq> 0" using next_tailq assms(2) by blast
  then show "TAILQ_FOREACH_FROM mem body y h s = Some (Done (fold g (y # bs) s))"
    using on [of as "y # bs"] y by (simp add: TAILQ_FOREACH_FROM_def)
  show "TAILQ_FOREACH_REVERSE_FROM mem body y h s = Some (Done (fold g (y # rev as) s))"
    using on_back [of "as @ [y]" bs] y \<open>y \<noteq> 0\<close> by (simp add: TAILQ_FOREACH_REVERSE_FROM_def)
qed

text \<open>The safe iterations may remove the element they are at.\<close>

lemma foreach_safe_tailq:
  assumes "tailq m h xs"
  shows "\<exists>m'. TAILQ_FOREACH_SAFE id (\<lambda>x m. if dead (tq_data m x) then TAILQ_REMOVE m h x else Done m) h m
      = Some (Done m') \<and> tq_becomes m h xs m' (filter (\<lambda>x. \<not> dead (tq_data m x)) xs)"
    and "xs = as @ y # bs \<Longrightarrow>
      \<exists>m'. TAILQ_FOREACH_FROM_SAFE id (\<lambda>x m. if dead (tq_data m x) then TAILQ_REMOVE m h x else Done m) y h m
      = Some (Done m') \<and> tq_becomes m h xs m' (as @ filter (\<lambda>x. \<not> dead (tq_data m x)) (y # bs))"
    and "\<exists>m'. TAILQ_FOREACH_REVERSE_SAFE id (\<lambda>x m. if dead (tq_data m x) then TAILQ_REMOVE m h x else Done m) h m
      = Some (Done m') \<and> tq_becomes m h xs m' (filter (\<lambda>x. \<not> dead (tq_data m x)) xs)"
    and "xs = as @ y # bs \<Longrightarrow>
      \<exists>m'. TAILQ_FOREACH_REVERSE_FROM_SAFE id (\<lambda>x m. if dead (tq_data m x) then TAILQ_REMOVE m h x else Done m) y h m
      = Some (Done m') \<and> tq_becomes m h xs m' (filter (\<lambda>x. \<not> dead (tq_data m x)) (as @ [y]) @ bs)"
proof -
  note on = tailq.sweeps [where dead = dead] and on_back = tailq.sweeps_back [where dead = dead]
    and at = first_tailq [OF assms] last_tailq [OF assms]
  show "\<exists>m'. TAILQ_FOREACH_SAFE id (\<lambda>x m. if dead (tq_data m x) then TAILQ_REMOVE m h x else Done m) h m
      = Some (Done m') \<and> tq_becomes m h xs m' (filter (\<lambda>x. \<not> dead (tq_data m x)) xs)"
    using on [of m h "[]" xs] assms by (simp add: TAILQ_FOREACH_SAFE_def at cong: if_cong)
  show "\<exists>m'. TAILQ_FOREACH_REVERSE_SAFE id (\<lambda>x m. if dead (tq_data m x) then TAILQ_REMOVE m h x else Done m) h m
      = Some (Done m') \<and> tq_becomes m h xs m' (filter (\<lambda>x. \<not> dead (tq_data m x)) xs)"
    using on_back [of m h xs "[]"] assms by (simp add: TAILQ_FOREACH_REVERSE_SAFE_def at cong: if_cong)
  assume y: "xs = as @ y # bs"
  then have "y \<noteq> 0" using next_tailq assms by blast
  then show "\<exists>m'. TAILQ_FOREACH_FROM_SAFE id (\<lambda>x m. if dead (tq_data m x) then TAILQ_REMOVE m h x else Done m) y h m
      = Some (Done m') \<and> tq_becomes m h xs m' (as @ filter (\<lambda>x. \<not> dead (tq_data m x)) (y # bs))"
    using on [of m h as "y # bs"] assms y by (simp add: TAILQ_FOREACH_FROM_SAFE_def cong: if_cong)
  show "\<exists>m'. TAILQ_FOREACH_REVERSE_FROM_SAFE id (\<lambda>x m. if dead (tq_data m x) then TAILQ_REMOVE m h x else Done m) y h m
      = Some (Done m') \<and> tq_becomes m h xs m' (filter (\<lambda>x. \<not> dead (tq_data m x)) (as @ [y]) @ bs)"
    using on_back [of m h "as @ [y]" bs] assms y \<open>y \<noteq> 0\<close>
    by (simp add: TAILQ_FOREACH_REVERSE_FROM_SAFE_def cong: if_cong)
qed

end
