(* ===== verification/Queue_Properties.thy ===== *)
theory Queue_Properties
  imports Slist_Macros Stailq_Queue List_Queue Tailq_Queue
begin

text \<open>
  The properties of the four kinds of queue of \<^verbatim>\<open>server/queue.h\<close>: any sequence of macro calls on any
  number of queues in one memory does what the list operations of \<open>queue_spec\<close> say, the iterations
  visit what they should in the order they should, and the kernel's checks hold.
\<close>

section \<open>Sequences of macro calls\<close>

text \<open>C26: tail queues: as long as the caller keeps the contract (an inserted element is live and in no
  queue, a named one is in the queue it is looked for in), no call faults or hangs, the queues are
  what the list operations say, and what the elements carry is untouched.\<close>

theorem tailq_calls_refine:
  fixes m :: "'a tailq_mem"
  assumes "represents tailq m hs \<sigma>" and "spec_all hs ops \<sigma> = Some \<sigma>'"
    and "\<forall>op \<in> set ops. provides (TAILQ :: 'a tailq_mem queue_macros) op" and "\<forall>op \<in> set ops. \<forall>e \<in> set (added op). fresh tq_data m e"
  shows "\<exists>m'. exec_all TAILQ ops m = Some (Done m') \<and> represents tailq m' hs \<sigma>' \<and> tq_data m' = tq_data m"
  using assms by (intro tailq.runs_refine)

definition two_tailqs :: "nat tailq_mem" where
  "two_tailqs =
     \<lparr>tq_heads = [1 \<mapsto> TAILQ_HEAD_INITIALIZER 1, 2 \<mapsto> TAILQ_HEAD_INITIALIZER 2],
      tq_elems = (\<lambda>p. if p \<in> {10, 11, 12} then Some \<lparr>tqe_next = 0, tqe_prev = FirstOf 0, tqe_data = p\<rparr> else None)\<rparr>"

lemma two_tailqs: "represents tailq two_tailqs [1, 2] (\<lambda>_. [])"
  by (simp add: represents_def two_tailqs_def tailq_def TAILQ_HEAD_INITIALIZER_def tq_fwd.simps tq_bwd.simps)

theorem tailq_calls_refine_witness:
  "\<exists>m'. exec_all TAILQ [InsertHead 1 10, InsertTail 1 11, InsertBefore 1 11 12, Concat 2 1, RemoveElm 2 10] two_tailqs
      = Some (Done m') \<and> tailq m' 2 [12, 11] \<and> tailq m' 1 []"
proof -
  let ?ops = "[InsertHead 1 10, InsertTail 1 11, InsertBefore 1 11 12, Concat 2 1, RemoveElm 2 10]"
  have "spec_all [1, 2] ?ops (\<lambda>_. []) = Some ((\<lambda>_. [])(2 := [12, 11], 1 := []))"
    by (simp add: elements_def fun_eq_iff)
  from tailq_calls_refine [OF two_tailqs this] show ?thesis
    by (auto simp: fresh_def tq_data_def two_tailqs_def represents_def)
qed


text \<open>C27: doubly linked lists, likewise.\<close>

theorem list_calls_refine:
  fixes m :: "'a list_mem"
  assumes "represents listq m hs \<sigma>" and "spec_all hs ops \<sigma> = Some \<sigma>'"
    and "\<forall>op \<in> set ops. provides (LIST :: 'a list_mem queue_macros) op"
    and "\<forall>op \<in> set ops. \<forall>e \<in> set (added op). fresh ls_data m e"
  shows "\<exists>m'. exec_all LIST ops m = Some (Done m') \<and> represents listq m' hs \<sigma>' \<and> ls_data m' = ls_data m"
  using assms by (intro listq.runs_refine)

definition two_lists :: "nat list_mem" where
  "two_lists =
     \<lparr>ls_heads = [1 \<mapsto> LIST_HEAD_INITIALIZER, 2 \<mapsto> LIST_HEAD_INITIALIZER],
      ls_elems = (\<lambda>p. if p \<in> {10, 11, 12} then Some \<lparr>le_next = 0, le_prev = FirstOf 0, le_data = p\<rparr> else None)\<rparr>"

lemma two_lists: "represents listq two_lists [1, 2] (\<lambda>_. [])"
  by (simp add: represents_def two_lists_def listq_def LIST_HEAD_INITIALIZER_def ls_fwd.simps ls_bwd.simps)

theorem list_calls_refine_witness:
  "\<exists>m'. exec_all LIST [InsertHead 1 10, InsertAfter 1 10 11, InsertBefore 1 11 12, Swap 2 1, RemoveElm 2 10] two_lists
      = Some (Done m') \<and> listq m' 2 [12, 11] \<and> listq m' 1 []"
proof -
  let ?ops = "[InsertHead 1 10, InsertAfter 1 10 11, InsertBefore 1 11 12, Swap 2 1, RemoveElm 2 10]"
  have "spec_all [1, 2] ?ops (\<lambda>_. []) = Some ((\<lambda>_. [])(2 := [12, 11], 1 := []))"
    by (simp add: elements_def fun_eq_iff)
  from list_calls_refine [OF two_lists this] show ?thesis
    by (auto simp: fresh_def ls_data_def two_lists_def represents_def)
qed

text \<open>C29: singly linked tail queues, likewise, with the removals at the head and after an element.\<close>

theorem stailq_calls_refine:
  fixes m :: "'a stailq_mem"
  assumes "represents stailq m hs \<sigma>" and "spec_all hs ops \<sigma> = Some \<sigma>'"
    and "\<forall>op \<in> set ops. provides (STAILQ :: 'a stailq_mem queue_macros) op"
    and "\<forall>op \<in> set ops. \<forall>e \<in> set (added op). fresh st_data m e"
  shows "\<exists>m'. exec_all STAILQ ops m = Some (Done m') \<and> represents stailq m' hs \<sigma>' \<and> st_data m' = st_data m"
  using assms by (intro stailq.runs_refine)

definition two_stailqs :: "nat stailq_mem" where
  "two_stailqs =
     \<lparr>st_heads = [1 \<mapsto> STAILQ_HEAD_INITIALIZER 1, 2 \<mapsto> STAILQ_HEAD_INITIALIZER 2],
      st_elems = (\<lambda>p. if p \<in> {10, 11, 12} then Some \<lparr>stqe_next = 0, stqe_data = p\<rparr> else None)\<rparr>"

lemma two_stailqs: "represents stailq two_stailqs [1, 2] (\<lambda>_. [])"
  by (simp add: represents_def two_stailqs_def stailq_def STAILQ_HEAD_INITIALIZER_def st_fwd.simps st_tail_def)

theorem stailq_calls_refine_witness:
  "\<exists>m'. exec_all STAILQ [InsertTail 1 10, InsertTail 1 11, InsertAfter 1 10 12, Concat 2 1, RemoveAfter 2 10, RemoveHead 2]
      two_stailqs = Some (Done m') \<and> stailq m' 2 [11] \<and> stailq m' 1 []"
proof -
  let ?ops = "[InsertTail 1 10, InsertTail 1 11, InsertAfter 1 10 12, Concat 2 1, RemoveAfter 2 10, RemoveHead 2]"
  have "spec_all [1, 2] ?ops (\<lambda>_. []) = Some ((\<lambda>_. [])(2 := [11], 1 := []))"
    by (simp add: elements_def fun_eq_iff)
  from stailq_calls_refine [OF two_stailqs this] show ?thesis
    by (auto simp: fresh_def st_data_def two_stailqs_def represents_def)
qed

text \<open>C28: singly linked lists, the kind the server keeps its connections in, likewise.\<close>

theorem slist_calls_refine:
  fixes m :: "'a slist_mem"
  assumes "represents slistq m hs \<sigma>" and "spec_all hs ops \<sigma> = Some \<sigma>'"
    and "\<forall>op \<in> set ops. provides (SLIST :: 'a slist_mem queue_macros) op"
    and "\<forall>op \<in> set ops. \<forall>e \<in> set (added op). fresh sl_data m e"
  shows "\<exists>m'. exec_all SLIST ops m = Some (Done m') \<and> represents slistq m' hs \<sigma>' \<and> sl_data m' = sl_data m"
  using assms by (intro slistq.runs_refine)

definition two_slists :: "nat slist_mem" where
  "two_slists =
     \<lparr>sl_heads = [1 \<mapsto> SLIST_HEAD_INITIALIZER, 2 \<mapsto> SLIST_HEAD_INITIALIZER],
      sl_heap = (\<lambda>p. if p \<in> {10, 11, 12} then Some \<lparr>sle_next = 0, qdata = p\<rparr> else None)\<rparr>"

lemma two_slists: "represents slistq two_slists [1, 2] (\<lambda>_. [])"
  by (simp add: represents_def two_slists_def slistq_def SLIST_HEAD_INITIALIZER_def SLIST_INIT_def)

theorem slist_calls_refine_witness:
  "\<exists>m'. exec_all SLIST [InsertHead 1 10, InsertAfter 1 10 11, InsertHead 1 12, Concat 2 1, RemoveElm 2 10, RemoveAfter 2 12]
      two_slists = Some (Done m') \<and> slistq m' 2 [12] \<and> slistq m' 1 []"
proof -
  let ?ops = "[InsertHead 1 10, InsertAfter 1 10 11, InsertHead 1 12, Concat 2 1, RemoveElm 2 10, RemoveAfter 2 12]"
  have "spec_all [1, 2] ?ops (\<lambda>_. []) = Some ((\<lambda>_. [])(2 := [12], 1 := []))"
    by (simp add: elements_def fun_eq_iff)
  from slist_calls_refine [OF two_slists this] show ?thesis
    by (auto simp: SLIST_def fresh_def sl_data_def qget_def two_slists_def represents_def)
qed

section \<open>Iterations and checks\<close>

text \<open>on a tail queue \<^verbatim>\<open>TAILQ_FOREACH\<close> visits the elements in order and \<^verbatim>\<open>TAILQ_FOREACH_REVERSE\<close> in
  reverse, whatever the body does as long as it leaves the queue; started at an element they cover the
  elements from there on, or back from there.\<close>

theorem tailq_iterations:
  assumes "\<And>x s. x \<in> set xs \<Longrightarrow> tailq (mem s) h xs \<Longrightarrow> body x s = Done (g x s) \<and> tailq (mem (g x s)) h xs"
    and "tailq (mem s) h xs"
  shows "TAILQ_FOREACH mem body h s = Some (Done (fold g xs s)) \<and>
    TAILQ_FOREACH_REVERSE mem body h s = Some (Done (fold g (rev xs) s)) \<and>
    (\<forall>as y bs. xs = as @ y # bs \<longrightarrow>
       TAILQ_FOREACH_FROM mem body y h s = Some (Done (fold g (y # bs) s)) \<and>
       TAILQ_FOREACH_REVERSE_FROM mem body y h s = Some (Done (fold g (y # rev as) s)))"
  using foreach_tailq [where mem = mem and h = h and g = g, OF assms] by blast

theorem tailq_iterations_witness:
  "\<exists>m :: nat tailq_mem. tailq m 1 [11, 10] \<and>
     TAILQ_FOREACH_REVERSE fst (\<lambda>x (m, seen). Done (m, x # seen)) 1 (m, []) = Some (Done (m, [11, 10]))"
proof -
  have "spec_all [1, 2] [InsertHead 1 10, InsertHead 1 11] (\<lambda>_. []) = Some ((\<lambda>_. [])(1 := [11, 10]))"
    by (simp add: elements_def fun_eq_iff)
  from tailq.runs_refine [OF _ two_tailqs this] obtain m :: "nat tailq_mem" where m: "tailq m 1 [11, 10]"
    by (auto simp: fresh_def tq_data_def two_tailqs_def represents_def)
  with tailq_iterations [of "[11, 10]" fst 1 "\<lambda>x (m, seen). Done (m, x # seen)" "\<lambda>x (m, seen). (m, x # seen)" "(m, [])"]
  show ?thesis by auto
qed

text \<open>the safe iterations may remove the element they are at, from the front and from the back:
  exactly the elements that carry what \<open>dead\<close> says are gone, the others stay in order, and
  other queues are untouched.\<close>

theorem tailq_sweeps:
  assumes "tailq m h xs"
  shows "(\<exists>m'. TAILQ_FOREACH_SAFE id (\<lambda>x m. if dead (tq_data m x) then TAILQ_REMOVE m h x else Done m) h m = Some (Done m') \<and>
      becomes tailq tq_data m h xs m' (filter (\<lambda>x. \<not> dead (tq_data m x)) xs)) \<and>
    (\<exists>m'. TAILQ_FOREACH_REVERSE_SAFE id (\<lambda>x m. if dead (tq_data m x) then TAILQ_REMOVE m h x else Done m) h m = Some (Done m') \<and>
      becomes tailq tq_data m h xs m' (filter (\<lambda>x. \<not> dead (tq_data m x)) xs))"
  using foreach_safe_tailq [OF assms] by blast

theorem tailq_sweeps_witness:
  "\<exists>m m' :: nat tailq_mem. tailq m 1 [11, 10] \<and> tailq m' 1 [11] \<and>
     TAILQ_FOREACH_SAFE id (\<lambda>x m. if tq_data m x = Some 10 then TAILQ_REMOVE m 1 x else Done m) 1 m = Some (Done m')"
proof -
  have "spec_all [1, 2] [InsertHead 1 10, InsertHead 1 11] (\<lambda>_. []) = Some ((\<lambda>_. [])(1 := [11, 10]))"
    by (simp add: elements_def fun_eq_iff)
  from tailq.runs_refine [OF _ two_tailqs this] obtain m where m: "tailq m 1 [11, 10]" "tq_data m = tq_data two_tailqs"
    by (auto simp: fresh_def tq_data_def two_tailqs_def represents_def)
  then have "filter (\<lambda>x. tq_data m x \<noteq> Some 10) [11, 10] = [11]"
    by (simp add: tq_data_def two_tailqs_def)
  moreover obtain m' where "TAILQ_FOREACH_SAFE id (\<lambda>x m. if tq_data m x = Some 10 then TAILQ_REMOVE m 1 x else Done m) 1 m
      = Some (Done m')" "becomes tailq tq_data m 1 [11, 10] m' (filter (\<lambda>x. tq_data m x \<noteq> Some 10) [11, 10])"
    using tailq_sweeps [OF m(1), of "\<lambda>d. d = Some 10"] by blast
  ultimately have "tailq m' 1 [11]" unfolding becomes_def by argo
  with m(1) \<open>TAILQ_FOREACH_SAFE _ _ 1 m = Some (Done m')\<close> show ?thesis by blast
qed

text \<open>C30: the checks the kernel compiles in with \<^verbatim>\<open>INVARIANTS\<close>: on elements linked forwards, the checks of
  \<^verbatim>\<open>LIST\<close> hold exactly if the list is well formed backwards too, so that they miss no broken back link; on a
  well-formed tail queue, and so in every state the macros reach, none of the checks of \<^verbatim>\<open>TAILQ\<close> panics.\<close>

theorem kernel_checks:
  "(ls_fwd l (FirstOf h) = Some (first_or xs 0) \<and> chain (ls_fwd l) xs 0 \<longrightarrow>
     (listq l h xs \<longleftrightarrow> QMD_LIST_CHECK_HEAD l h = Done True \<and> (\<forall>x \<in> set xs. QMD_LIST_CHECK_NEXT l x = Done True))) \<and>
   (listq l h xs \<longrightarrow> (\<forall>x \<in> set xs. QMD_LIST_CHECK_PREV l x = Done True)) \<and>
   (tailq t h xs \<longrightarrow> QMD_TAILQ_CHECK_HEAD t h = Done True \<and> QMD_TAILQ_CHECK_TAIL t h = Done True \<and>
     (\<forall>x \<in> set xs. QMD_TAILQ_CHECK_NEXT t x = Done True \<and> QMD_TAILQ_CHECK_PREV t x = Done True))"
proof (intro conjI impI ballI)
  fix x assume "listq l h xs" "x \<in> set xs"
  then show "QMD_LIST_CHECK_PREV l x = Done True"
    using check_prev_listq split_list by metis
next
  fix x assume t: "tailq t h xs" and "x \<in> set xs"
  then obtain as bs where "tailq t h (as @ x # bs)" using split_list by metis
  then show "QMD_TAILQ_CHECK_NEXT t x = Done True" "QMD_TAILQ_CHECK_PREV t x = Done True"
    using check_next_tailq check_prev_tailq by blast+
qed (simp_all add: listq_iff_checks check_head_tailq check_tail_tailq)

theorem kernel_checks_witness:
  "QMD_TAILQ_CHECK_TAIL two_tailqs 1 = Done True \<and> QMD_LIST_CHECK_HEAD two_lists 1 = Done True"
  using kernel_checks [of two_lists 1 "[]" two_tailqs] two_tailqs two_lists
  by (simp add: represents_def listq_def)

end
