(* ===== verification/Queue_Debug.thy ===== *)
theory Queue_Debug
  imports Slist_Macros Stailq_Queue List_Queue Tailq_Queue
begin

text \<open>
  The build of \<^verbatim>\<open>server/queue.h\<close> with \<^verbatim>\<open>QUEUE_MACRO_DEBUG\<close>. There a removed element gets its links
  trashed (\<^verbatim>\<open>TRASHIT\<close>), in every kind of queue, and the heads and elements of tail queues remember where
  they were last altered (\<^verbatim>\<open>struct qm_trace\<close>). What the debug build adds is stated on top of the plain
  macros, whose statements it keeps.
\<close>

section \<open>Trashed links\<close>

text \<open>\<^verbatim>\<open>(void *)-1\<close>, where no object is.\<close>

definition TRASH :: nptr where
  "TRASH = 2 ^ 64 - 1"

lemma TRASH_nonnull [simp]: "TRASH \<noteq> 0"
  by (simp add: TRASH_def)

definition SLIST_TRASHIT :: "'a slist_mem \<Rightarrow> nptr \<Rightarrow> 'a slist_mem outcome" where
  "SLIST_TRASHIT m elm = on_nodes (\<lambda>q. set_next q elm TRASH) m"

definition SLIST_REMOVE_debug :: "'a slist_mem \<Rightarrow> nptr \<Rightarrow> nptr \<Rightarrow> 'a slist_mem outcome" where
  "SLIST_REMOVE_debug m head elm =
     and_then (on_head (\<lambda>q head. SLIST_REMOVE q head elm) m head) (\<lambda>m. SLIST_TRASHIT m elm)"

definition STAILQ_TRASHIT :: "'a stailq_mem \<Rightarrow> nptr \<Rightarrow> 'a stailq_mem outcome" where
  "STAILQ_TRASHIT m elm = st_assign m (NextOf elm) TRASH"

definition STAILQ_REMOVE_debug :: "'a stailq_mem \<Rightarrow> nptr \<Rightarrow> nptr \<Rightarrow> 'a stailq_mem outcome" where
  "STAILQ_REMOVE_debug m head elm = and_then (STAILQ_REMOVE m head elm) (\<lambda>m. STAILQ_TRASHIT m elm)"

definition LIST_TRASHIT :: "'a list_mem \<Rightarrow> nptr \<Rightarrow> 'a list_mem outcome" where
  "LIST_TRASHIT m elm =
     and_then (ls_assign m (NextOf elm) TRASH) (\<lambda>m. ls_assign_prev m elm (NextOf TRASH))"

definition LIST_REMOVE_debug :: "'a list_mem \<Rightarrow> nptr \<Rightarrow> 'a list_mem outcome" where
  "LIST_REMOVE_debug m elm = and_then (LIST_REMOVE m elm) (\<lambda>m. LIST_TRASHIT m elm)"

definition TAILQ_TRASHIT :: "'a tailq_mem \<Rightarrow> nptr \<Rightarrow> 'a tailq_mem outcome" where
  "TAILQ_TRASHIT m elm =
     and_then (tq_assign m (NextOf elm) TRASH) (\<lambda>m. tq_assign_behind m (NextOf elm) (NextOf TRASH))"

text \<open>The macros of a kind with a removal that trashes.\<close>

definition trashing :: "('m \<Rightarrow> nptr \<Rightarrow> 'm outcome) \<Rightarrow> 'm queue_macros \<Rightarrow> 'm queue_macros" where
  "trashing trash M = M\<lparr>m_remove := \<lambda>m h y. and_then (m_remove M m h y) (\<lambda>m. trash m y)\<rparr>"

lemma trashing_simps [simp]:
  "m_init (trashing t M) = m_init M" "m_insert_head (trashing t M) = m_insert_head M"
  "m_insert_tail (trashing t M) = m_insert_tail M" "m_insert_after (trashing t M) = m_insert_after M"
  "m_insert_before (trashing t M) = m_insert_before M" "m_remove_head (trashing t M) = m_remove_head M"
  "m_remove_after (trashing t M) = m_remove_after M" "m_concat (trashing t M) = m_concat M"
  "m_swap (trashing t M) = m_swap M"
  "m_remove (trashing t M) m h y = and_then (m_remove M m h y) (\<lambda>m. t m y)"
  by (simp_all add: trashing_def)

text \<open>A loop body that removes the elements whose contents say so, reading them first.\<close>

definition prune :: "'m queue_macros \<Rightarrow> ('m \<Rightarrow> nptr \<Rightarrow> 'd option) \<Rightarrow> ('d \<Rightarrow> bool) \<Rightarrow> nptr \<Rightarrow> nptr \<Rightarrow> 'm \<Rightarrow> 'm outcome" where
  "prune M data dead h x m = and_then (live (data m x)) (\<lambda>d. if dead d then m_remove M m h x else Done m)"

text \<open>Queues whose elements carry contents, and queues that a removal leaves with a trashed element.\<close>

locale filled_queue = walked_queue M queue_at data head_of next_of
  for M :: "'m queue_macros" and queue_at :: "'m \<Rightarrow> nptr \<Rightarrow> nptr list \<Rightarrow> bool" and data :: "'m \<Rightarrow> nptr \<Rightarrow> 'd option"
    and head_of :: "'m \<Rightarrow> nptr \<Rightarrow> nptr outcome" and next_of :: "'m \<Rightarrow> nptr \<Rightarrow> nptr outcome" +
  assumes holds: "queue_at m h xs \<Longrightarrow> x \<in> set xs \<Longrightarrow> data m x \<noteq> None"

locale debug_queue = filled_queue M queue_at data head_of next_of
  for M :: "'m queue_macros" and queue_at :: "'m \<Rightarrow> nptr \<Rightarrow> nptr list \<Rightarrow> bool" and data :: "'m \<Rightarrow> nptr \<Rightarrow> 'd option"
    and head_of :: "'m \<Rightarrow> nptr \<Rightarrow> nptr outcome" and next_of :: "'m \<Rightarrow> nptr \<Rightarrow> nptr outcome" +
  assumes remove_trashes: "queue_at m h (xs @ y # ys) \<Longrightarrow>
      \<exists>m'. m_remove M m h y = Done m' \<and> becomes queue_at data m h (xs @ y # ys) m' (xs @ ys) \<and> next_of m' y = Done TRASH"
begin

text \<open>A loop without \<^verbatim>\<open>SAFE\<close> whose body removes elements reads the link of the one it has just removed. It
  ends up at the trash, where the body faults.\<close>

lemma prune_faults:
  assumes q: "queue_at m h xs" and dead: "\<exists>x \<in> set xs. dead (the (data m x))" and none: "data m TRASH = None"
  shows "for_next next_of (prune M data dead h) (first_or xs 0) m = Some Fault"
proof -
  have "for_next next_of (prune M data dead h) (first_or ys 0) m = Some Fault"
    if "xs = pre @ ys" "\<exists>x \<in> set ys. dead (the (data m x))" for pre ys
    using that
  proof (induction ys arbitrary: pre)
    case (Cons x ys)
    have s: "queue_at m h (pre @ x # ys)" using q Cons.prems(1) by simp
    have x: "x \<noteq> 0" "next_of m x = Done (first_or ys 0)" using next_of [OF s] by simp_all
    from holds [OF s, of x] obtain c where c: "data m x = Some c" by auto
    show ?case
    proof (cases "dead c")
      case True
      from remove_trashes [OF s] obtain m' where m': "m_remove M m h x = Done m'"
          "next_of m' x = Done TRASH" "data m' = data m" by (auto simp: becomes_def)
      have "for_next next_of (prune M data dead h) TRASH m' = Some Fault"
        using m'(3) none by (subst SLIST_FOREACH.simps) (simp add: prune_def)
      then show ?thesis
        using True c x(1) m' by (subst SLIST_FOREACH.simps) (simp add: prune_def)
    next
      case False
      then have "for_next next_of (prune M data dead h) (first_or ys 0) m = Some Fault"
        using Cons.IH [of "pre @ [x]"] Cons.prems c by auto
      then show ?thesis
        using False c x by (subst SLIST_FOREACH.simps) (simp add: prune_def)
    qed
  qed simp
  from this [of "[]" xs] dead show ?thesis by simp
qed

end

locale trashed_queue = filled_queue M queue_at data head_of next_of
  for M :: "'m queue_macros" and queue_at :: "'m \<Rightarrow> nptr \<Rightarrow> nptr list \<Rightarrow> bool" and data :: "'m \<Rightarrow> nptr \<Rightarrow> 'd option"
    and head_of :: "'m \<Rightarrow> nptr \<Rightarrow> nptr outcome" and next_of :: "'m \<Rightarrow> nptr \<Rightarrow> nptr outcome" +
  fixes trash :: "'m \<Rightarrow> nptr \<Rightarrow> 'm outcome"
  assumes trash: "data m x \<noteq> None \<Longrightarrow> \<exists>m'. trash m x = Done m' \<and> data m' = data m \<and> next_of m' x = Done TRASH \<and>
      (\<forall>h zs. x \<notin> set zs \<longrightarrow> queue_at m h zs \<longrightarrow> queue_at m' h zs)"
    and remove_keeps: "queue_at m h (xs @ y # ys) \<Longrightarrow> m_remove M m h y = Done m' \<Longrightarrow> next_of m' y = next_of m y"
begin

lemma remove_trashing:
  assumes q: "queue_at m h (xs @ y # ys)"
  shows "\<exists>m'. m_remove (trashing trash M) m h y = Done m' \<and> becomes queue_at data m h (xs @ y # ys) m' (xs @ ys) \<and>
    next_of m' y = Done TRASH"
proof -
  from remove [OF q] obtain m1 where m1: "m_remove M m h y = Done m1" "becomes queue_at data m h (xs @ y # ys) m1 (xs @ ys)"
    by blast
  have "data m1 y \<noteq> None" using holds [OF q, of y] m1(2) by (simp add: becomes_def)
  from trash [OF this] obtain m2 where m2: "trash m1 y = Done m2" "data m2 = data m1" "next_of m2 y = Done TRASH"
      "\<forall>h zs. y \<notin> set zs \<longrightarrow> queue_at m1 h zs \<longrightarrow> queue_at m2 h zs" by blast
  have "y \<notin> set (xs @ ys)" using queue_distinct [OF q] by simp
  with m1(2) m2(2,4) have "becomes queue_at data m h (xs @ y # ys) m2 (xs @ ys)"
    by (auto simp: becomes_def keeps_others_def)
  with m1(1) m2(1,3) show ?thesis by simp
qed

text \<open>In the plain build the link of a removed element is still there and the same loop works.\<close>

lemma prunes:
  assumes q: "queue_at m h xs"
  shows "\<exists>m'. for_next next_of (prune M data dead h) (first_or xs 0) m = Some (Done m') \<and>
    becomes queue_at data m h xs m' (filter (\<lambda>x. \<not> dead (the (data m x))) xs)"
proof -
  let ?keep = "filter (\<lambda>x. \<not> dead (the (data m x)))"
  let ?good = "\<lambda>rest s. \<exists>pre. xs = pre @ rest \<and> queue_at s h (?keep pre @ rest) \<and> data s = data m \<and>
      keeps_others queue_at m s {h} (set xs)"
  have "\<exists>m'. for_next next_of (prune M data dead h) (first xs) m = Some (Done m') \<and> ?good [] m'"
  proof (rule foreach_rule)
    fix x rest s assume "?good (x # rest) s"
    then obtain pre where pre: "xs = pre @ x # rest" and s: "queue_at s h (?keep pre @ x # rest)" and d: "data s = data m"
      and k: "keeps_others queue_at m s {h} (set xs)" by blast
    have x: "x \<noteq> 0" "next_of s x = Done (first rest)" using next_of [OF s] by (simp_all add: first_or_first)
    from holds [OF q, of x] pre obtain c where c: "data m x = Some c" by auto
    show "x \<noteq> 0 \<and> (\<exists>s'. prune M data dead h x s = Done s' \<and> next_of s' x = Done (first rest) \<and> ?good rest s')"
    proof (cases "dead c")
      case True
      from remove [OF s] obtain s' where s': "m_remove M s h x = Done s'" "queue_at s' h (?keep pre @ rest)"
          "data s' = data s" "keeps_others queue_at s s' {h} (set (?keep pre @ x # rest) \<union> set (?keep pre @ rest))"
        by (auto simp: becomes_def)
      have "keeps_others queue_at m s' {h} (set xs)"
        by (rule keeps_others_trans [OF k s'(4)]) (use pre in auto)
      then have "?good rest s'"
        using True c s'(2,3) d pre by (intro exI [of _ "pre @ [x]"]) simp
      then show ?thesis
        using True c d x s'(1) remove_keeps [OF s s'(1)] by (simp add: prune_def)
    next
      case False
      then have "?good rest s" using c s d k pre by (intro exI [of _ "pre @ [x]"]) simp
      with False c d x show ?thesis by (simp add: prune_def)
    qed
  qed (use q in \<open>simp add: keeps_others_refl\<close>)
  then obtain m' where m': "for_next next_of (prune M data dead h) (first_or xs 0) m = Some (Done m')"
      "queue_at m' h (?keep xs)" "data m' = data m" "keeps_others queue_at m m' {h} (set xs)"
    by (auto simp: first_or_first)
  have "set xs \<union> set (?keep xs) = set xs" by auto
  with m' show ?thesis by (auto simp: becomes_def)
qed

end

text \<open>A kind with trashing removals is again a kind one can walk along.\<close>

sublocale trashed_queue \<subseteq> debug: debug_queue "trashing trash M" queue_at data head_of next_of
proof (unfold_locales, goal_cases)
  case (6 m h xs y ys)
  then show ?case using remove_trashing by blast
next
  case (14 m h xs x)
  then show ?case by (rule holds)
next
  case (15 m h xs y ys)
  then show ?case by (rule remove_trashing)
qed (auto intro: init insert_head insert_tail insert_after insert_before remove_head remove_after concat swap
    queue_distinct head_of dest: next_of)

section \<open>The four kinds\<close>

lemma slistq_trash:
  assumes "sl_data m x \<noteq> None"
  shows "\<exists>m'. SLIST_TRASHIT m x = Done m' \<and> sl_data m' = sl_data m \<and> SLIST_NEXT (sl_heap m') x = Done TRASH \<and>
    (\<forall>h zs. x \<notin> set zs \<longrightarrow> slistq m h zs \<longrightarrow> slistq m' h zs)"
proof -
  obtain n where n: "sl_heap m x = Some n" using assms by (auto simp: sl_data_def qget_def)
  let ?m = "m\<lparr>sl_heap := (sl_heap m)(x \<mapsto> n\<lparr>sle_next := TRASH\<rparr>)\<rparr>"
  have "SLIST_TRASHIT m x = Done ?m" using n by (simp add: SLIST_TRASHIT_def on_nodes_def set_next_def)
  moreover have "sl_data ?m = sl_data m" using n by (auto simp: sl_data_def qget_def fun_eq_iff)
  ultimately show ?thesis by (auto simp: SLIST_NEXT_def slistq_def)
qed

lemma slistq_live: "slistq m h xs \<Longrightarrow> x \<in> set xs \<Longrightarrow> sl_data m x \<noteq> None"
  by (auto simp: slistq_def sl_data_def qget_def dest: slist_live)

lemma slistq_remove_keeps:
  assumes "slistq m h (xs @ y # ys)" and "m_remove SLIST m h y = Done m'"
  shows "SLIST_NEXT (sl_heap m') y = SLIST_NEXT (sl_heap m) y"
proof -
  obtain p where p: "sl_heads m h = Some \<lparr>slh_first = p\<rparr>" "slist (sl_heap m) p (xs @ y # ys)"
    using assms(1) by (auto simp: slistq_def)
  then obtain q p' where "SLIST_REMOVE (sl_heap m) p y = Done (q, p')" "q y = sl_heap m y"
    using remove_slist [OF p(2), of y] by auto
  with assms(2) p(1) show ?thesis
    by (auto simp: SLIST_def on_head_def put_head_def SLIST_NEXT_def)
qed

interpretation slistq_debug: trashed_queue SLIST slistq sl_data "\<lambda>m h. sl_deref m (FirstOf h)" "\<lambda>m. SLIST_NEXT (sl_heap m)" SLIST_TRASHIT
  by (unfold_locales; (erule (1) slistq_live slistq_remove_keeps | erule slistq_trash))

lemma st_trash:
  assumes "st_data m x \<noteq> None"
  shows "\<exists>m'. STAILQ_TRASHIT m x = Done m' \<and> st_data m' = st_data m \<and> STAILQ_NEXT m' x = Done TRASH \<and>
    (\<forall>h zs. x \<notin> set zs \<longrightarrow> stailq m h zs \<longrightarrow> stailq m' h zs)"
proof -
  obtain v where "st_fwd m (NextOf x) = Some v" using assms by (auto simp: st_data_def st_fwd.simps)
  then show ?thesis
    by (auto simp: STAILQ_TRASHIT_def st_assign_def STAILQ_NEXT_def st_deref_def stailq_def)
qed

lemma stailq_holds: "stailq m h xs \<Longrightarrow> x \<in> set xs \<Longrightarrow> st_data m x \<noteq> None"
  by (auto simp: stailq_def st_data_def st_fwd.simps dest!: chain_live)

lemma st_keeps_next:
  "STAILQ_REMOVE_AFTER m h x = Done m' \<Longrightarrow> y \<noteq> x \<Longrightarrow> STAILQ_NEXT m' y = STAILQ_NEXT m y"
  by (auto simp: STAILQ_REMOVE_AFTER_def stailq_simps split: if_splits)

lemma stailq_remove_keeps:
  assumes "stailq m h (xs @ y # ys)" and "STAILQ_REMOVE m h y = Done m'"
  shows "STAILQ_NEXT m' y = STAILQ_NEXT m y"
proof (cases xs rule: rev_cases)
  case Nil
  with assms show ?thesis
    by (auto simp: STAILQ_REMOVE_def STAILQ_REMOVE_HEAD_def stailq_simps stailq_def split: if_splits)
next
  case (snoc as x)
  then have "stailq_find_prev m y (first_or as x) = Some (Done x)" "first_or as x \<noteq> y" "y \<noteq> x"
      "STAILQ_FIRST m h = Done (first_or as x)"
    using assms stailq_distinct [OF assms(1)] stailq_find_prev_chain [of m as x y ys]
    by (cases as; auto simp: stailq_def stailq_simps)+
  with assms(2) st_keeps_next [of m h x m' y] show ?thesis
    by (simp add: STAILQ_REMOVE_def returns_def)
qed

interpretation stailq_debug: trashed_queue STAILQ stailq st_data STAILQ_FIRST STAILQ_NEXT STAILQ_TRASHIT
  by (unfold_locales; (erule (1) stailq_holds stailq_remove_keeps [folded STAILQ_simps] | erule st_trash))

lemma ls_trash:
  assumes "ls_data m x \<noteq> None"
  shows "\<exists>m'. LIST_TRASHIT m x = Done m' \<and> ls_data m' = ls_data m \<and> LIST_NEXT m' x = Done TRASH \<and>
    (\<forall>h zs. x \<notin> set zs \<longrightarrow> listq m h zs \<longrightarrow> listq m' h zs)"
proof -
  obtain v k where "ls_fwd m (NextOf x) = Some v" "ls_bwd m (NextOf x) = Some k"
    using assms by (auto simp: ls_data_def ls_fwd.simps ls_bwd.simps)
  then show ?thesis
    by (auto simp: LIST_TRASHIT_def ls_assign_def ls_assign_prev_def LIST_NEXT_def ls_deref_def listq_def)
qed

lemma listq_holds: "listq m h xs \<Longrightarrow> x \<in> set xs \<Longrightarrow> ls_data m x \<noteq> None"
  by (auto simp: listq_def ls_data_def ls_fwd.simps dest!: chain_live)

lemma tq_trash:
  assumes "tq_data m x \<noteq> None"
  shows "\<exists>m'. TAILQ_TRASHIT m x = Done m' \<and> tq_data m' = tq_data m \<and> TAILQ_NEXT m' x = Done TRASH \<and>
    (\<forall>h zs. x \<notin> set zs \<longrightarrow> tailq m h zs \<longrightarrow> tailq m' h zs)"
proof -
  obtain v k where "tq_fwd m (NextOf x) = Some v" "tq_bwd m (NextOf x) = Some k"
    using assms by (auto simp: tq_data_def tq_fwd.simps tq_bwd.simps)
  then show ?thesis
    by (auto simp: TAILQ_TRASHIT_def tailq_simps tailq_def)
qed

lemma tailq_holds: "tailq m h xs \<Longrightarrow> x \<in> set xs \<Longrightarrow> tq_data m x \<noteq> None"
  by (auto simp: tailq_def tq_data_def tq_fwd.simps dest!: chain_live)

lemma listq_remove_keeps:
  assumes "listq m h (xs @ y # ys)" and "m_remove LIST m h y = Done m'"
  shows "LIST_NEXT m' y = LIST_NEXT m y"
  using assms listq_distinct [OF assms(1)]
  by (cases xs rule: rev_cases; cases ys)
    (auto simp: LIST_REMOVE_def LIST_NEXT_def ls_deref_def ls_prev_def ls_assign_def ls_assign_prev_def listq_def)

interpretation listq_debug: trashed_queue LIST listq ls_data LIST_FIRST LIST_NEXT LIST_TRASHIT
  by (unfold_locales; (erule (1) listq_holds listq_remove_keeps | erule ls_trash))

lemma tailq_remove_keeps:
  assumes "tailq m h (xs @ y # ys)" and "TAILQ_REMOVE m h y = Done m'"
  shows "TAILQ_NEXT m' y = TAILQ_NEXT m y"
  using assms tailq_distinct [OF assms(1)]
  by (cases xs rule: rev_cases; cases ys) (auto simp: TAILQ_REMOVE_def tailq_simps tailq_def)

interpretation tailq_trash: trashed_queue TAILQ tailq tq_data TAILQ_FIRST TAILQ_NEXT TAILQ_TRASHIT
  by (unfold_locales; (erule (1) tailq_holds tailq_remove_keeps [folded TAILQ_simps] | erule tq_trash))


text \<open>The macros of the debug build; those of tail queues also trace and are in \<open>Queue_Traces\<close>.\<close>

definition SLIST_debug :: "'a slist_mem queue_macros" where
  "SLIST_debug = SLIST\<lparr>m_remove := SLIST_REMOVE_debug\<rparr>"

definition STAILQ_debug :: "'a stailq_mem queue_macros" where
  "STAILQ_debug = STAILQ\<lparr>m_remove := STAILQ_REMOVE_debug\<rparr>"

definition LIST_debug :: "'a list_mem queue_macros" where
  "LIST_debug = LIST\<lparr>m_remove := \<lambda>m head. LIST_REMOVE_debug m\<rparr>"

lemma debug_trashing:
  "SLIST_debug = trashing SLIST_TRASHIT SLIST" "STAILQ_debug = trashing STAILQ_TRASHIT STAILQ"
  "LIST_debug = trashing LIST_TRASHIT LIST"
  by (simp_all add: SLIST_debug_def STAILQ_debug_def LIST_debug_def trashing_def SLIST_REMOVE_debug_def [abs_def]
      STAILQ_REMOVE_debug_def [abs_def] LIST_REMOVE_debug_def [abs_def]) (simp add: SLIST_def)

end
