(* ===== verification/Queue_Traces.thy ===== *)
theory Queue_Traces
  imports Queue_Debug
begin

text \<open>
  The tail queues of the build with \<^verbatim>\<open>QUEUE_MACRO_DEBUG\<close>: beside the memory of \<open>Tailq_Queue\<close> there is a trace in
  every head and every entry. A trace is apart from the links, so each macro is the plain one and then
  its traces, in their order; where a trace depends on a link, the link is read first.
\<close>

section \<open>Traces\<close>

text \<open>A place in a program: \<^verbatim>\<open>__LINE__\<close> and \<^verbatim>\<open>__FILE__\<close> where the macro is used.\<close>

type_synonym site = "64 word \<times> string"

record qm_trace =
  lastline :: "64 word"
  prevline :: "64 word"
  lastfile :: "string option"
  prevfile :: "string option"

definition TRACEBUF_INITIALIZER :: "site \<Rightarrow> qm_trace" where
  "TRACEBUF_INITIALIZER s = \<lparr>lastline = fst s, prevline = 0, lastfile = Some (snd s), prevfile = None\<rparr>"

definition trace_at :: "site \<Rightarrow> qm_trace \<Rightarrow> qm_trace" where
  "trace_at s t =
     (let t = t\<lparr>prevline := lastline t\<rparr>; t = t\<lparr>prevfile := lastfile t\<rparr>; t = t\<lparr>lastline := fst s\<rparr>
      in t\<lparr>lastfile := Some (snd s)\<rparr>)"

record 'a traced =
  plain :: "'a tailq_mem"
  head_trace :: "nptr \<Rightarrow> qm_trace"
  elem_trace :: "nptr \<Rightarrow> qm_trace"

definition QMD_TRACE_HEAD :: "site \<Rightarrow> nptr \<Rightarrow> 'a traced \<Rightarrow> 'a traced" where
  "QMD_TRACE_HEAD s head m = m\<lparr>head_trace := (head_trace m)(head := trace_at s (head_trace m head))\<rparr>"

definition QMD_TRACE_ELEM :: "site \<Rightarrow> nptr \<Rightarrow> 'a traced \<Rightarrow> 'a traced" where
  "QMD_TRACE_ELEM s elem m = m\<lparr>elem_trace := (elem_trace m)(elem := trace_at s (elem_trace m elem))\<rparr>"

definition on_links :: "('a tailq_mem \<Rightarrow> 'a tailq_mem outcome) \<Rightarrow> 'a traced \<Rightarrow> 'a traced outcome" where
  "on_links f m = and_then (f (plain m)) (\<lambda>q. Done (m\<lparr>plain := q\<rparr>))"

section \<open>The macros\<close>

definition TAILQ_INIT_debug :: "site \<Rightarrow> 'a traced \<Rightarrow> nptr \<Rightarrow> 'a traced outcome" where
  "TAILQ_INIT_debug s m head =
     and_then (on_links (\<lambda>q. TAILQ_INIT q head) m) (\<lambda>m. Done (QMD_TRACE_HEAD s head m))"

definition TAILQ_CONCAT_debug :: "site \<Rightarrow> 'a traced \<Rightarrow> nptr \<Rightarrow> nptr \<Rightarrow> 'a traced outcome" where
  "TAILQ_CONCAT_debug s m head1 head2 =
     and_then (TAILQ_EMPTY (plain m) head2) (\<lambda>e.
       if e then Done m
       else and_then (on_links (\<lambda>q. TAILQ_CONCAT q head1 head2) m) (\<lambda>m.
         let m = QMD_TRACE_HEAD s head2 m; m = QMD_TRACE_HEAD s head1 m
         in Done (QMD_TRACE_HEAD s head2 m)))"

definition TAILQ_INSERT_AFTER_debug :: "site \<Rightarrow> 'a traced \<Rightarrow> nptr \<Rightarrow> nptr \<Rightarrow> nptr \<Rightarrow> 'a traced outcome" where
  "TAILQ_INSERT_AFTER_debug s m head listelm elm =
     and_then (TAILQ_NEXT (plain m) listelm) (\<lambda>n.
     and_then (on_links (\<lambda>q. TAILQ_INSERT_AFTER q head listelm elm) m) (\<lambda>m.
       let m = (if n \<noteq> 0 then m else QMD_TRACE_HEAD s head m); m = QMD_TRACE_ELEM s elm m
       in Done (QMD_TRACE_ELEM s listelm m)))"

definition TAILQ_INSERT_BEFORE_debug :: "site \<Rightarrow> 'a traced \<Rightarrow> nptr \<Rightarrow> nptr \<Rightarrow> 'a traced outcome" where
  "TAILQ_INSERT_BEFORE_debug s m listelm elm =
     and_then (on_links (\<lambda>q. TAILQ_INSERT_BEFORE q listelm elm) m) (\<lambda>m.
       let m = QMD_TRACE_ELEM s elm m in Done (QMD_TRACE_ELEM s listelm m))"

definition TAILQ_INSERT_HEAD_debug :: "site \<Rightarrow> 'a traced \<Rightarrow> nptr \<Rightarrow> nptr \<Rightarrow> 'a traced outcome" where
  "TAILQ_INSERT_HEAD_debug s m head elm =
     and_then (on_links (\<lambda>q. TAILQ_INSERT_HEAD q head elm) m) (\<lambda>m.
       let m = QMD_TRACE_HEAD s head m in Done (QMD_TRACE_ELEM s elm m))"

definition TAILQ_INSERT_TAIL_debug :: "site \<Rightarrow> 'a traced \<Rightarrow> nptr \<Rightarrow> nptr \<Rightarrow> 'a traced outcome" where
  "TAILQ_INSERT_TAIL_debug s m head elm =
     and_then (on_links (\<lambda>q. TAILQ_INSERT_TAIL q head elm) m) (\<lambda>m.
       let m = QMD_TRACE_HEAD s head m in Done (QMD_TRACE_ELEM s elm m))"

definition TAILQ_REMOVE_debug :: "site \<Rightarrow> 'a traced \<Rightarrow> nptr \<Rightarrow> nptr \<Rightarrow> 'a traced outcome" where
  "TAILQ_REMOVE_debug s m head elm =
     and_then (TAILQ_NEXT (plain m) elm) (\<lambda>n.
     and_then (on_links (\<lambda>q. TAILQ_REMOVE q head elm) m) (\<lambda>m.
     let m = (if n \<noteq> 0 then m else QMD_TRACE_HEAD s head m)
     in and_then (on_links (\<lambda>q. TAILQ_TRASHIT q elm) m) (\<lambda>m.
     Done (QMD_TRACE_ELEM s elm m))))"

definition TAILQ_SWAP_debug :: "'a traced \<Rightarrow> nptr \<Rightarrow> nptr \<Rightarrow> 'a traced outcome" where
  "TAILQ_SWAP_debug m head1 head2 = on_links (\<lambda>q. TAILQ_SWAP q head1 head2) m"

definition TAILQ_debug :: "site \<Rightarrow> 'a traced queue_macros" where
  "TAILQ_debug s = \<lparr>m_init = TAILQ_INIT_debug s, m_insert_head = TAILQ_INSERT_HEAD_debug s,
     m_insert_tail = Some (TAILQ_INSERT_TAIL_debug s), m_insert_after = TAILQ_INSERT_AFTER_debug s,
     m_insert_before = Some (TAILQ_INSERT_BEFORE_debug s), m_remove = TAILQ_REMOVE_debug s,
     m_remove_head = None, m_remove_after = None, m_concat = TAILQ_CONCAT_debug s, m_swap = TAILQ_SWAP_debug\<rparr>"

section \<open>The contract\<close>

definition tailq_in :: "'a traced \<Rightarrow> nptr \<Rightarrow> nptr list \<Rightarrow> bool" where
  "tailq_in m = tailq (plain m)"

definition traced_data :: "'a traced \<Rightarrow> nptr \<Rightarrow> 'a option" where
  "traced_data m = tq_data (plain m)"

lemma trace_links [simp]: "plain (QMD_TRACE_HEAD s h m) = plain m" "plain (QMD_TRACE_ELEM s e m) = plain m"
  by (simp_all add: QMD_TRACE_HEAD_def QMD_TRACE_ELEM_def)

lemma becomes_traced:
  "becomes tailq_in traced_data m h xs m' ys \<longleftrightarrow> becomes tailq tq_data (plain m) h xs (plain m') ys"
  "keeps_others tailq_in m m' H S \<longleftrightarrow> keeps_others tailq (plain m) (plain m') H S"
  by (simp_all add: becomes_def keeps_others_def tailq_in_def traced_data_def)

lemma on_links_Done: "f (plain m) = Done q \<Longrightarrow> on_links f m = Done (m\<lparr>plain := q\<rparr>)"
  by (simp add: on_links_def)

lemma fresh_traced [simp]: "fresh traced_data m e = fresh tq_data (plain m) e"
  by (simp add: fresh_def traced_data_def)

text \<open>The last element is the one with no next.\<close>

lemma next_traced: "tailq m h (xs @ y # ys) \<Longrightarrow> TAILQ_NEXT m y = Done (first_or ys 0) \<and> (first_or ys 0 \<noteq> 0 \<longleftrightarrow> ys \<noteq> [])"
  using tailq_nonnull [of m h "xs @ y # ys"] by (cases ys) (auto dest: next_tailq)

lemma remove_traced:
  assumes "tailq (plain m) h (xs @ y # ys)"
  shows "\<exists>q. TAILQ_REMOVE_debug s m h y =
      Done (QMD_TRACE_ELEM s y ((if ys = [] then QMD_TRACE_HEAD s h m else m)\<lparr>plain := q\<rparr>)) \<and>
    becomes tailq tq_data (plain m) h (xs @ y # ys) q (xs @ ys) \<and> TAILQ_NEXT q y = Done TRASH"
proof -
  obtain q where q: "m_remove (trashing TAILQ_TRASHIT TAILQ) (plain m) h y = Done q"
      "becomes tailq tq_data (plain m) h (xs @ y # ys) q (xs @ ys)" "TAILQ_NEXT q y = Done TRASH"
    using tailq_trash.remove_trashing [OF assms] by blast
  then obtain q1 where "TAILQ_REMOVE (plain m) h y = Done q1" "TAILQ_TRASHIT q1 y = Done q" by auto
  with q(2,3) next_traced [OF assms] show ?thesis
    by (auto simp: TAILQ_REMOVE_debug_def on_links_def QMD_TRACE_HEAD_def)
qed

lemma concat_traced:
  assumes "tailq (plain m) h1 xs" and "tailq (plain m) h2 ys" and "h1 \<noteq> h2" and "set xs \<inter> set ys = {}"
  shows "\<exists>q. TAILQ_CONCAT_debug s m h1 h2 = Done (if ys = [] then m
      else QMD_TRACE_HEAD s h2 (QMD_TRACE_HEAD s h1 (QMD_TRACE_HEAD s h2 (m\<lparr>plain := q\<rparr>)))) \<and>
    (ys = [] \<longrightarrow> q = plain m) \<and> tailq q h1 (xs @ ys) \<and> tailq q h2 [] \<and> tq_data q = tq_data (plain m) \<and>
    keeps_others tailq (plain m) q {h1, h2} (set xs \<union> set ys)"
proof -
  have e: "TAILQ_EMPTY (plain m) h2 = Done (ys = [])"
    using first_tailq [OF assms(2)] tailq_nonnull [OF assms(2)] by (cases ys) (auto simp: TAILQ_EMPTY_def)
  show ?thesis
  proof (cases "ys = []")
    case True
    with e assms show ?thesis by (auto simp: TAILQ_CONCAT_debug_def keeps_others_refl)
  next
    case False
    with e concat_tailq [OF assms] show ?thesis
      by (auto simp: TAILQ_CONCAT_debug_def on_links_def Let_def)
  qed
qed

lemma plain_traced:
  assumes "f (plain m) = Done q"
  shows "and_then (on_links f m) g = g (m\<lparr>plain := q\<rparr>)"
  using assms by (simp add: on_links_def)

interpretation tailq_debug: back_queue "TAILQ_debug s" tailq_in traced_data "\<lambda>m. TAILQ_FIRST (plain m)"
  "\<lambda>m. TAILQ_NEXT (plain m)" "\<lambda>m. TAILQ_LAST (plain m)" "\<lambda>m. TAILQ_PREV (plain m)" for s
proof (unfold_locales, goal_cases)
  case (1 m h xs)
  with tailq.init [of "plain m" h xs] show ?case
    by (auto simp: TAILQ_debug_def TAILQ_INIT_debug_def plain_traced becomes_traced tailq_in_def simp del: and_then_Done_iff)
next
  case (2 m h xs e)
  with insert_head_tailq [of "plain m" h xs e] show ?case
    by (auto simp: TAILQ_debug_def TAILQ_INSERT_HEAD_debug_def plain_traced becomes_traced tailq_in_def Let_def
        simp del: and_then_Done_iff)
next
  case (3 f m h xs e)
  with insert_tail_tailq [of "plain m" h xs e] show ?case
    by (auto simp: TAILQ_debug_def TAILQ_INSERT_TAIL_debug_def plain_traced becomes_traced tailq_in_def Let_def
        simp del: and_then_Done_iff)
next
  case (4 m h xs y ys e)
  with insert_after_tailq [of "plain m" h xs y ys e] next_traced [of "plain m" h xs y ys] show ?case
    by (auto simp: TAILQ_debug_def TAILQ_INSERT_AFTER_debug_def plain_traced becomes_traced tailq_in_def Let_def
        simp del: and_then_Done_iff)
next
  case (5 g m h xs y ys e)
  with insert_before_tailq [of "plain m" h xs y ys e] show ?case
    by (auto simp: TAILQ_debug_def TAILQ_INSERT_BEFORE_debug_def plain_traced becomes_traced tailq_in_def Let_def
        simp del: and_then_Done_iff)
next
  case (6 m h xs y ys)
  then obtain q where q: "TAILQ_REMOVE_debug s m h y =
      Done (QMD_TRACE_ELEM s y ((if ys = [] then QMD_TRACE_HEAD s h m else m)\<lparr>plain := q\<rparr>))"
    "becomes tailq tq_data (plain m) h (xs @ y # ys) q (xs @ ys)"
    unfolding tailq_in_def using remove_traced by blast
  then show ?case by (simp add: TAILQ_debug_def becomes_traced)
next
  case (9 m h xs k ys)
  then obtain q where q: "TAILQ_CONCAT_debug s m h k = Done (if ys = [] then m
      else QMD_TRACE_HEAD s k (QMD_TRACE_HEAD s h (QMD_TRACE_HEAD s k (m\<lparr>plain := q\<rparr>))))"
      "ys = [] \<longrightarrow> q = plain m" "tailq q h (xs @ ys)" "tailq q k []" "tq_data q = tq_data (plain m)"
      "keeps_others tailq (plain m) q {h, k} (set xs \<union> set ys)"
    unfolding tailq_in_def using concat_traced by blast
  then show ?case by (auto simp: TAILQ_debug_def becomes_traced tailq_in_def traced_data_def)
next
  case (10 m h xs k ys)
  with swap_tailq [of "plain m" h xs k ys] show ?case
    by (auto simp: TAILQ_debug_def TAILQ_SWAP_debug_def on_links_def becomes_traced tailq_in_def traced_data_def)
qed (auto simp: TAILQ_debug_def tailq_in_def tailq_distinct first_tailq last_tailq prev_tailq dest: next_tailq)

interpretation tailq_debug: debug_queue "TAILQ_debug s" tailq_in traced_data "\<lambda>m. TAILQ_FIRST (plain m)"
  "\<lambda>m. TAILQ_NEXT (plain m)" for s
proof (unfold_locales, goal_cases)
  case (1 m h xs x)
  then show ?case unfolding tailq_in_def traced_data_def by (rule tailq_holds)
next
  case (2 m h xs y ys)
  then obtain q where "TAILQ_REMOVE_debug s m h y =
      Done (QMD_TRACE_ELEM s y ((if ys = [] then QMD_TRACE_HEAD s h m else m)\<lparr>plain := q\<rparr>))"
    "becomes tailq tq_data (plain m) h (xs @ y # ys) q (xs @ ys)" "TAILQ_NEXT q y = Done TRASH"
    unfolding tailq_in_def using remove_traced by blast
  then show ?case by (simp add: TAILQ_debug_def becomes_traced)
qed

section \<open>Sequences of calls and their traces\<close>

text \<open>Each call is made at a place of the program.\<close>

fun debug_run :: "(site \<times> queue_op) list \<Rightarrow> 'a traced \<Rightarrow> 'a traced outcome option" where
  "debug_run [] m = Some (Done m)"
| "debug_run ((s, op) # calls) m =
     (case exec_op (TAILQ_debug s) op m of Some (Done m) \<Rightarrow> debug_run calls m | r \<Rightarrow> r)"

text \<open>On the lists: the heads and the elements a call records, and at what places each of them is recorded in a
  sequence of calls.\<close>

fun marked_heads :: "queue_op \<Rightarrow> (nptr \<Rightarrow> nptr list) \<Rightarrow> nptr list" where
  "marked_heads (Init h) \<sigma> = [h]"
| "marked_heads (InsertHead h e) \<sigma> = [h]"
| "marked_heads (InsertTail h e) \<sigma> = [h]"
| "marked_heads (InsertAfter h y e) \<sigma> = (if y = last (\<sigma> h) then [h] else [])"
| "marked_heads (RemoveElm h y) \<sigma> = (if y = last (\<sigma> h) then [h] else [])"
| "marked_heads (Concat h k) \<sigma> = (if \<sigma> k = [] then [] else [k, h, k])"
| "marked_heads op \<sigma> = []"

fun marked_elems :: "queue_op \<Rightarrow> nptr list" where
  "marked_elems (InsertHead h e) = [e]"
| "marked_elems (InsertTail h e) = [e]"
| "marked_elems (InsertAfter h y e) = [e, y]"
| "marked_elems (InsertBefore h y e) = [e, y]"
| "marked_elems (RemoveElm h y) = [y]"
| "marked_elems op = []"

fun head_sites :: "nptr list \<Rightarrow> (site \<times> queue_op) list \<Rightarrow> (nptr \<Rightarrow> nptr list) \<Rightarrow> nptr \<Rightarrow> site list" where
  "head_sites hs [] \<sigma> h = []"
| "head_sites hs ((s, op) # calls) \<sigma> h = replicate (count_list (marked_heads op \<sigma>) h) s @
     (case queue_spec hs op \<sigma> of None \<Rightarrow> [] | Some \<sigma> \<Rightarrow> head_sites hs calls \<sigma> h)"

definition elem_sites :: "(site \<times> queue_op) list \<Rightarrow> nptr \<Rightarrow> site list" where
  "elem_sites calls e = concat (map (\<lambda>(s, op). replicate (count_list (marked_elems op) e) s) calls)"

text \<open>A trace holds the last two places.\<close>

definition last_two :: "site list \<Rightarrow> qm_trace \<Rightarrow> qm_trace" where
  "last_two sites t =
     (case rev sites of
        [] \<Rightarrow> t
      | [b] \<Rightarrow> \<lparr>lastline = fst b, prevline = lastline t, lastfile = Some (snd b), prevfile = lastfile t\<rparr>
      | b # a # _ \<Rightarrow> \<lparr>lastline = fst b, prevline = fst a, lastfile = Some (snd b), prevfile = Some (snd a)\<rparr>)"

lemma trace_at_simp: "trace_at s t = \<lparr>lastline = fst s, prevline = lastline t, lastfile = Some (snd s), prevfile = lastfile t\<rparr>"
  by (cases t) (simp add: trace_at_def)

lemma fold_trace: "fold trace_at sites t = last_two sites t"
proof (induction sites rule: rev_induct)
  case (snoc s sites)
  then show ?case
    by (cases sites rule: rev_cases; cases "butlast sites" rule: rev_cases) (auto simp: last_two_def trace_at_simp)
qed (simp add: last_two_def)

lemma on_links_traces:
  "on_links f m = Done m' \<Longrightarrow> head_trace m' = head_trace m \<and> elem_trace m' = elem_trace m"
  by (auto simp: on_links_def)

lemmas debug_defs = TAILQ_debug_def TAILQ_INIT_debug_def TAILQ_CONCAT_debug_def TAILQ_INSERT_AFTER_debug_def
    TAILQ_INSERT_BEFORE_debug_def TAILQ_INSERT_HEAD_debug_def TAILQ_INSERT_TAIL_debug_def TAILQ_REMOVE_debug_def
    TAILQ_SWAP_debug_def

lemma trace_of_trace [simp]:
  "head_trace (QMD_TRACE_HEAD s k m) = (head_trace m)(k := trace_at s (head_trace m k))"
  "elem_trace (QMD_TRACE_HEAD s k m) = elem_trace m" "head_trace (QMD_TRACE_ELEM s x m) = head_trace m"
  "elem_trace (QMD_TRACE_ELEM s x m) = (elem_trace m)(x := trace_at s (elem_trace m x))"
  by (simp_all add: QMD_TRACE_HEAD_def QMD_TRACE_ELEM_def)

lemma traces_insert_after:
  assumes "TAILQ_INSERT_AFTER_debug s m h y e = Done m'" and "TAILQ_NEXT (plain m) y = Done n"
  shows "head_trace m' = (if n \<noteq> 0 then head_trace m else (head_trace m)(h := trace_at s (head_trace m h))) \<and>
    elem_trace m' = (let t = (elem_trace m)(e := trace_at s (elem_trace m e)) in t(y := trace_at s (t y)))"
  using assms by (auto simp: TAILQ_INSERT_AFTER_debug_def Let_def dest!: on_links_traces)

lemma traces_remove:
  assumes "TAILQ_REMOVE_debug s m h y = Done m'" and "TAILQ_NEXT (plain m) y = Done n"
  shows "head_trace m' = (if n \<noteq> 0 then head_trace m else (head_trace m)(h := trace_at s (head_trace m h))) \<and>
    elem_trace m' = (elem_trace m)(y := trace_at s (elem_trace m y))"
  using assms by (cases "n = 0") (auto simp: TAILQ_REMOVE_debug_def Let_def dest!: on_links_traces)

lemma traces_concat:
  assumes "TAILQ_CONCAT_debug s m h k = Done m'" and "TAILQ_EMPTY (plain m) k = Done b" and "h \<noteq> k"
  shows "head_trace m' = (if b then head_trace m
      else (head_trace m)(h := trace_at s (head_trace m h), k := trace_at s (trace_at s (head_trace m k)))) \<and>
    elem_trace m' = elem_trace m"
  using assms by (auto simp: TAILQ_CONCAT_debug_def Let_def fun_upd_twist dest!: on_links_traces split: if_splits)

lemma traces_others:
  "TAILQ_INIT_debug s m h = Done m' \<Longrightarrow>
    head_trace m' = (head_trace m)(h := trace_at s (head_trace m h)) \<and> elem_trace m' = elem_trace m"
  "TAILQ_INSERT_HEAD_debug s m h e = Done m' \<Longrightarrow>
    head_trace m' = (head_trace m)(h := trace_at s (head_trace m h)) \<and>
    elem_trace m' = (elem_trace m)(e := trace_at s (elem_trace m e))"
  "TAILQ_INSERT_TAIL_debug s m h e = Done m' \<Longrightarrow>
    head_trace m' = (head_trace m)(h := trace_at s (head_trace m h)) \<and>
    elem_trace m' = (elem_trace m)(e := trace_at s (elem_trace m e))"
  "TAILQ_INSERT_BEFORE_debug s m y e = Done m' \<Longrightarrow> head_trace m' = head_trace m \<and>
    elem_trace m' = (let t = (elem_trace m)(e := trace_at s (elem_trace m e)) in t(y := trace_at s (t y)))"
  "TAILQ_SWAP_debug m h k = Done m' \<Longrightarrow> head_trace m' = head_trace m \<and> elem_trace m' = elem_trace m"
  by (auto simp: TAILQ_INIT_debug_def TAILQ_INSERT_HEAD_debug_def TAILQ_INSERT_TAIL_debug_def
      TAILQ_INSERT_BEFORE_debug_def TAILQ_SWAP_debug_def Let_def dest!: on_links_traces)

lemma TAILQ_debug_simps:
  "m_init (TAILQ_debug s) = TAILQ_INIT_debug s" "m_insert_head (TAILQ_debug s) = TAILQ_INSERT_HEAD_debug s"
  "m_insert_tail (TAILQ_debug s) = Some (TAILQ_INSERT_TAIL_debug s)"
  "m_insert_after (TAILQ_debug s) = TAILQ_INSERT_AFTER_debug s"
  "m_insert_before (TAILQ_debug s) = Some (TAILQ_INSERT_BEFORE_debug s)"
  "m_remove (TAILQ_debug s) = TAILQ_REMOVE_debug s" "m_remove_head (TAILQ_debug s) = None"
  "m_remove_after (TAILQ_debug s) = None" "m_concat (TAILQ_debug s) = TAILQ_CONCAT_debug s"
  "m_swap (TAILQ_debug s) = TAILQ_SWAP_debug"
  by (simp_all add: TAILQ_debug_def)

lemma traces_step:
  assumes r: "represents tailq_in m hs \<sigma>" and s: "queue_spec hs op \<sigma> = Some \<sigma>'"
    and e: "exec_op (TAILQ_debug s) op m = Some (Done m')"
  shows "head_trace m' h = fold trace_at (replicate (count_list (marked_heads op \<sigma>) h) s) (head_trace m h) \<and>
    elem_trace m' x = fold trace_at (replicate (count_list (marked_elems op) x) s) (elem_trace m x)"
proof -
  have at: "tailq (plain m) k (\<sigma> k)" if "k \<in> set hs" for k
    using r that by (simp add: represents_def tailq_in_def)
  have nx: "\<exists>n. TAILQ_NEXT (plain m) y = Done n \<and> (n = 0 \<longleftrightarrow> y = last (\<sigma> k))" if "k \<in> set hs" "y \<in> set (\<sigma> k)" for k y
  proof -
    from that(2) obtain xs ys where split: "\<sigma> k = xs @ y # ys" by (meson split_list)
    with at [OF that(1)] have t: "tailq (plain m) k (xs @ y # ys)" by simp
    have "ys \<noteq> [] \<Longrightarrow> last ys \<noteq> y" using tailq_distinct [OF t] last_in_set by fastforce
    then have "ys = [] \<longleftrightarrow> y = last (\<sigma> k)" using split by auto
    then show ?thesis using next_traced [OF t] by (intro exI [of _ "first_or ys 0"]) auto
  qed
  show ?thesis
  proof (cases op)
    case (InsertAfter k y z)
    with s nx [of k y] obtain n where "TAILQ_NEXT (plain m) y = Done n" "n = 0 \<longleftrightarrow> y = last (\<sigma> k)"
      by (auto split: if_splits)
    with e InsertAfter traces_insert_after [of s m k y z m' n] show ?thesis by (simp add: TAILQ_debug_simps Let_def)
  next
    case (RemoveElm k y)
    with s nx [of k y] obtain n where "TAILQ_NEXT (plain m) y = Done n" "n = 0 \<longleftrightarrow> y = last (\<sigma> k)"
      by (auto split: if_splits)
    with e RemoveElm traces_remove [of s m k y m' n] show ?thesis by (simp add: TAILQ_debug_simps Let_def)
  next
    case (Concat k l)
    with s have kl: "l \<in> set hs" "k \<noteq> l" by (auto split: if_splits)
    have "TAILQ_EMPTY (plain m) l = Done (\<sigma> l = [])"
      using first_tailq [OF at [OF kl(1)]] tailq_nonnull [OF at [OF kl(1)]] by (cases "\<sigma> l") (auto simp: TAILQ_EMPTY_def)
    with e Concat kl traces_concat [of s m k l m' "\<sigma> l = []"] show ?thesis by (simp add: TAILQ_debug_simps)
  next
    case (Init k)
    with e traces_others(1) [of s m k m'] show ?thesis by (simp add: TAILQ_debug_simps)
  next
    case (InsertHead k z)
    with e traces_others(2) [of s m k z m'] show ?thesis by (simp add: TAILQ_debug_simps)
  next
    case (InsertTail k z)
    with e traces_others(3) [of s m k z m'] show ?thesis by (simp add: TAILQ_debug_simps)
  next
    case (InsertBefore k y z)
    with e traces_others(4) [of s m y z m'] show ?thesis by (simp add: TAILQ_debug_simps Let_def)
  next
    case (Swap k l)
    with e traces_others(5) [of m k l m'] show ?thesis by (simp add: TAILQ_debug_simps)
  qed (use e in \<open>simp_all add: TAILQ_debug_simps\<close>)
qed

end
