(* ===== verification/Debug_Properties.thy ===== *)
theory Debug_Properties
  imports Queue_Traces Queue_Properties
begin

text \<open>
  Properties of \<^verbatim>\<open>server/queue.h\<close> built with \<^verbatim>\<open>QUEUE_MACRO_DEBUG\<close>: what it adds does no harm, what its traces
  hold, and which misuse its trashed links bring to light.
\<close>

section \<open>Calls and their traces\<close>

text \<open>C31: with tracing and trashing, any sequence of tail queue macro calls, each at its place in the program,
  still does what the list operations say, and afterwards every head and every element holds the last
  two places at which it was recorded.\<close>

theorem debug_calls_refine:
  fixes m :: "'a traced"
  assumes "represents tailq_in m hs \<sigma>" and "spec_all hs (map snd calls) \<sigma> = Some \<sigma>'"
    and "\<forall>(s, op) \<in> set calls. provides (TAILQ_debug s :: 'a traced queue_macros) op"
    and "\<forall>(s, op) \<in> set calls. \<forall>e \<in> set (added op). fresh traced_data m e"
  shows "\<exists>m'. debug_run calls m = Some (Done m') \<and> represents tailq_in m' hs \<sigma>' \<and> traced_data m' = traced_data m \<and>
    (\<forall>h. head_trace m' h = last_two (head_sites hs calls \<sigma> h) (head_trace m h)) \<and>
    (\<forall>x. elem_trace m' x = last_two (elem_sites calls x) (elem_trace m x))"
  using assms
proof (induction calls arbitrary: m \<sigma>)
  case (Cons call calls)
  obtain s op where call: "call = (s, op)" by fastforce
  with Cons.prems obtain \<sigma>1 where sp: "queue_spec hs op \<sigma> = Some \<sigma>1" "spec_all hs (map snd calls) \<sigma>1 = Some \<sigma>'"
    by (auto simp: bind_eq_Some_conv)
  obtain m1 where m1: "exec_op (TAILQ_debug s) op m = Some (Done m1)" "represents tailq_in m1 hs \<sigma>1"
      "traced_data m1 = traced_data m"
    using tailq_debug.macro_refines [of s op m hs \<sigma> \<sigma>1] Cons.prems sp(1) call by auto
  then have "\<forall>(s, op) \<in> set calls. \<forall>e \<in> set (added op). fresh traced_data m1 e"
    using Cons.prems(4) by (auto simp: fresh_def)
  with Cons.IH [OF m1(2) sp(2)] Cons.prems(3) obtain m' where
    m': "debug_run calls m1 = Some (Done m')" "represents tailq_in m' hs \<sigma>'" "traced_data m' = traced_data m1"
      "\<forall>h. head_trace m' h = last_two (head_sites hs calls \<sigma>1 h) (head_trace m1 h)"
      "\<forall>x. elem_trace m' x = last_two (elem_sites calls x) (elem_trace m1 x)" by auto
  note tr = traces_step [OF Cons.prems(1) sp(1) m1(1)]
  have "head_trace m' h = last_two (head_sites hs (call # calls) \<sigma> h) (head_trace m h)" for h
    using m'(4) tr [of h] sp(1) call by (simp flip: fold_trace)
  moreover have "elem_trace m' x = last_two (elem_sites (call # calls) x) (elem_trace m x)" for x
    using m'(5) tr [of _ x] call by (simp add: elem_sites_def flip: fold_trace)
  ultimately show ?case using m1 m'(1-3) call by simp
qed (simp add: last_two_def elem_sites_def)

definition two_traced :: "nat traced" where
  "two_traced = \<lparr>plain = two_tailqs, head_trace = \<lambda>h. TRACEBUF_INITIALIZER (of_nat h, ''main.c''),
     elem_trace = \<lambda>_. \<lparr>lastline = 0, prevline = 0, lastfile = None, prevfile = None\<rparr>\<rparr>"

theorem debug_calls_refine_witness:
  "\<exists>m'. debug_run [((10, ''a.c''), InsertTail 1 10), ((20, ''a.c''), InsertTail 1 11), ((30, ''b.c''), RemoveElm 1 10)]
      two_traced = Some (Done m') \<and> tailq_in m' 1 [11] \<and>
    head_trace m' 1 = \<lparr>lastline = 20, prevline = 10, lastfile = Some ''a.c'', prevfile = Some ''a.c''\<rparr> \<and>
    elem_trace m' 10 = \<lparr>lastline = 30, prevline = 10, lastfile = Some ''b.c'', prevfile = Some ''a.c''\<rparr>"
proof -
  let ?calls = "[((10, ''a.c''), InsertTail 1 10), ((20, ''a.c''), InsertTail 1 11), ((30, ''b.c''), RemoveElm 1 10)]
    :: (site \<times> queue_op) list"
  have r: "represents tailq_in two_traced [1, 2] (\<lambda>_. [])"
    using two_tailqs by (simp add: represents_def tailq_in_def two_traced_def)
  have s: "spec_all [1, 2] (map snd ?calls) (\<lambda>_. []) = Some ((\<lambda>_. [])(1 := [11]))"
    by (simp add: elements_def fun_eq_iff)
  have "\<forall>(s, op) \<in> set ?calls. \<forall>e \<in> set (added op). fresh traced_data two_traced e"
    by (simp add: fresh_def traced_data_def tq_data_def two_traced_def two_tailqs_def)
  from debug_calls_refine [OF r s _ this] show ?thesis
    by (fastforce simp: TAILQ_debug_simps represents_def last_two_def elem_sites_def elements_def)
qed

section \<open>Loops that remove the element they are at\<close>

lemma unsafe_slist:
  assumes "slistq a h xs"
  shows "\<exists>a'. SLIST_FOREACH_FROM id (prune SLIST sl_data dead h) 0 h a = Some (Done a') \<and>
      slistq a' h (filter (\<lambda>x. \<not> dead (the (sl_data a x))) xs)"
    and "x \<in> set xs \<Longrightarrow> dead (the (sl_data a x)) \<Longrightarrow> sl_data a TRASH = None \<Longrightarrow>
      SLIST_FOREACH_FROM id (prune SLIST_debug sl_data dead h) 0 h a = Some Fault"
  using slistq_debug.prunes [OF assms, of dead] slistq_debug.debug.prune_faults [OF assms, of dead]
  by (auto simp: SLIST_FOREACH_FROM_def first_slistq [OF assms] debug_trashing becomes_def
      simp del: sl_deref.simps)

lemma unsafe_stailq:
  assumes "stailq b h xs"
  shows "\<exists>b'. STAILQ_FOREACH id (prune STAILQ st_data dead h) h b = Some (Done b') \<and>
      stailq b' h (filter (\<lambda>x. \<not> dead (the (st_data b x))) xs)"
    and "x \<in> set xs \<Longrightarrow> dead (the (st_data b x)) \<Longrightarrow> st_data b TRASH = None \<Longrightarrow>
      STAILQ_FOREACH id (prune STAILQ_debug st_data dead h) h b = Some Fault"
  using stailq_debug.prunes [OF assms, of dead] stailq_debug.debug.prune_faults [OF assms, of dead]
  by (auto simp: STAILQ_FOREACH_def first_stailq [OF assms] debug_trashing becomes_def)

lemma unsafe_list:
  assumes "listq c h xs"
  shows "\<exists>c'. LIST_FOREACH id (prune LIST ls_data dead h) h c = Some (Done c') \<and>
      listq c' h (filter (\<lambda>x. \<not> dead (the (ls_data c x))) xs)"
    and "x \<in> set xs \<Longrightarrow> dead (the (ls_data c x)) \<Longrightarrow> ls_data c TRASH = None \<Longrightarrow>
      LIST_FOREACH id (prune LIST_debug ls_data dead h) h c = Some Fault"
  using listq_debug.prunes [OF assms, of dead] listq_debug.debug.prune_faults [OF assms, of dead]
  by (auto simp: LIST_FOREACH_def first_listq [OF assms] debug_trashing becomes_def)

lemma unsafe_tailq:
  assumes "tailq_in d h xs"
  shows "\<exists>d'. TAILQ_FOREACH id (prune TAILQ tq_data dead h) h (plain d) = Some (Done d') \<and>
      tailq d' h (filter (\<lambda>x. \<not> dead (the (traced_data d x))) xs)"
    and "x \<in> set xs \<Longrightarrow> dead (the (traced_data d x)) \<Longrightarrow> traced_data d TRASH = None \<Longrightarrow>
      TAILQ_FOREACH plain (prune (TAILQ_debug s) traced_data dead h) h d = Some Fault"
proof -
  note d = assms [unfolded tailq_in_def]
  show "\<exists>d'. TAILQ_FOREACH id (prune TAILQ tq_data dead h) h (plain d) = Some (Done d') \<and>
      tailq d' h (filter (\<lambda>x. \<not> dead (the (traced_data d x))) xs)"
    using tailq_trash.prunes [OF d, of dead] by (auto simp: TAILQ_FOREACH_def first_tailq [OF d] becomes_def traced_data_def)
  show "TAILQ_FOREACH plain (prune (TAILQ_debug s) traced_data dead h) h d = Some Fault"
    if "x \<in> set xs" "dead (the (traced_data d x))" "traced_data d TRASH = None"
    using tailq_debug.prune_faults [OF assms, of dead s] that by (auto simp: TAILQ_FOREACH_def first_tailq [OF d])
qed

text \<open>C32: an iteration without \<^verbatim>\<open>SAFE\<close> whose body removes elements, here those whose contents \<open>dead\<close> tells,
  works in the plain build and removes exactly those, because the link of a removed element is still
  there; in the debug build it faults as soon as it has removed one, in every kind of queue.\<close>

theorem unsafe_loops:
  assumes "slistq a h xs" and "stailq b h xs" and "listq c h xs" and "tailq_in d h xs"
    and "x \<in> set xs" and "dead (the (sl_data a x))" and "dead (the (st_data b x))" and "dead (the (ls_data c x))"
    and "dead (the (traced_data d x))"
    and "sl_data a TRASH = None" and "st_data b TRASH = None" and "ls_data c TRASH = None" and "traced_data d TRASH = None"
  shows "(\<exists>a'. SLIST_FOREACH_FROM id (prune SLIST sl_data dead h) 0 h a = Some (Done a') \<and>
      slistq a' h (filter (\<lambda>x. \<not> dead (the (sl_data a x))) xs)) \<and>
    (\<exists>b'. STAILQ_FOREACH id (prune STAILQ st_data dead h) h b = Some (Done b') \<and>
      stailq b' h (filter (\<lambda>x. \<not> dead (the (st_data b x))) xs)) \<and>
    (\<exists>c'. LIST_FOREACH id (prune LIST ls_data dead h) h c = Some (Done c') \<and>
      listq c' h (filter (\<lambda>x. \<not> dead (the (ls_data c x))) xs)) \<and>
    (\<exists>d'. TAILQ_FOREACH id (prune TAILQ tq_data dead h) h (plain d) = Some (Done d') \<and>
      tailq d' h (filter (\<lambda>x. \<not> dead (the (traced_data d x))) xs)) \<and>
    SLIST_FOREACH_FROM id (prune SLIST_debug sl_data dead h) 0 h a = Some Fault \<and>
    STAILQ_FOREACH id (prune STAILQ_debug st_data dead h) h b = Some Fault \<and>
    LIST_FOREACH id (prune LIST_debug ls_data dead h) h c = Some Fault \<and>
    TAILQ_FOREACH plain (prune (TAILQ_debug s) traced_data dead h) h d = Some Fault"
  using assms by (intro conjI unsafe_slist unsafe_stailq unsafe_list unsafe_tailq)


text \<open>The queue of the elements 10 and 11 at the head 1, of each kind.\<close>

definition pair_slist :: "nat slist_mem" where
  "pair_slist = \<lparr>sl_heads = [1 \<mapsto> \<lparr>slh_first = 10\<rparr>],
     sl_heap = [10 \<mapsto> \<lparr>sle_next = 11, qdata = 10\<rparr>, 11 \<mapsto> \<lparr>sle_next = 0, qdata = 11\<rparr>]\<rparr>"

definition pair_stailq :: "nat stailq_mem" where
  "pair_stailq = \<lparr>st_heads = [1 \<mapsto> \<lparr>stqh_first = 10, stqh_last = NextOf 11\<rparr>],
     st_elems = [10 \<mapsto> \<lparr>stqe_next = 11, stqe_data = 10\<rparr>, 11 \<mapsto> \<lparr>stqe_next = 0, stqe_data = 11\<rparr>]\<rparr>"

definition pair_list :: "nat list_mem" where
  "pair_list = \<lparr>ls_heads = [1 \<mapsto> \<lparr>lh_first = 10\<rparr>],
     ls_elems = [10 \<mapsto> \<lparr>le_next = 11, le_prev = FirstOf 1, le_data = 10\<rparr>,
       11 \<mapsto> \<lparr>le_next = 0, le_prev = NextOf 10, le_data = 11\<rparr>]\<rparr>"

definition pair_tailq :: "nat traced" where
  "pair_tailq = two_traced\<lparr>plain := \<lparr>tq_heads = [1 \<mapsto> \<lparr>tqh_first = 10, tqh_last = NextOf 11\<rparr>],
     tq_elems = [10 \<mapsto> \<lparr>tqe_next = 11, tqe_prev = FirstOf 1, tqe_data = 10\<rparr>,
       11 \<mapsto> \<lparr>tqe_next = 0, tqe_prev = NextOf 10, tqe_data = 11\<rparr>]\<rparr>\<rparr>"

lemma pairs:
  "slistq pair_slist 1 [10, 11]" "stailq pair_stailq 1 [10, 11]" "listq pair_list 1 [10, 11]" "tailq_in pair_tailq 1 [10, 11]"
  by (simp_all add: pair_slist_def slistq_def pair_stailq_def stailq_def st_fwd.simps st_tail_def pair_list_def listq_def
      ls_fwd.simps ls_bwd.simps pair_tailq_def tailq_in_def tailq_def tq_fwd.simps tq_bwd.simps)

theorem unsafe_loops_witness:
  "(\<exists>a'. SLIST_FOREACH_FROM id (prune SLIST sl_data (\<lambda>d. d = 10) 1) 0 1 pair_slist = Some (Done a') \<and> slistq a' 1 [11]) \<and>
   (\<exists>d'. TAILQ_FOREACH id (prune TAILQ tq_data (\<lambda>d. d = 10) 1) 1 (plain pair_tailq) = Some (Done d') \<and> tailq d' 1 [11]) \<and>
   SLIST_FOREACH_FROM id (prune SLIST_debug sl_data (\<lambda>d. d = 10) 1) 0 1 pair_slist = Some Fault \<and>
   STAILQ_FOREACH id (prune STAILQ_debug st_data (\<lambda>d. d = 10) 1) 1 pair_stailq = Some Fault \<and>
   LIST_FOREACH id (prune LIST_debug ls_data (\<lambda>d. d = 10) 1) 1 pair_list = Some Fault \<and>
   TAILQ_FOREACH plain (prune (TAILQ_debug (7, ''a.c'')) traced_data (\<lambda>d. d = 10) 1) 1 pair_tailq = Some Fault"
proof -
  have data: "sl_data pair_slist = [10 \<mapsto> 10, 11 \<mapsto> 11]" "st_data pair_stailq = [10 \<mapsto> 10, 11 \<mapsto> 11]"
      "ls_data pair_list = [10 \<mapsto> 10, 11 \<mapsto> 11]" "traced_data pair_tailq = [10 \<mapsto> 10, 11 \<mapsto> 11]"
    by (auto simp: fun_eq_iff sl_data_def qget_def pair_slist_def st_data_def pair_stailq_def ls_data_def pair_list_def
        traced_data_def tq_data_def pair_tailq_def)
  show ?thesis
    using unsafe_loops [OF pairs, of 10 "\<lambda>d. d = 10" "(7, ''a.c'')"] by (simp add: data TRASH_def)
qed

end
