(* ===== verification/Concurrent_Clients.thy ===== *)
theory Concurrent_Clients
  imports Device_Server Reference_Kernel
begin

text \<open>
  Several threads of the server in \<open>receive_data\<close> against one device, interleaved at the granularity of
  system calls. In the build for the device (\<^verbatim>\<open>USE_AESD_CHAR_DEVICE\<close>) the code takes no lock around the
  request, so between any two calls of one thread any calls of others can come. A thread that has
  its line either goes through \<open>write\<close> calls, one for each buffer stdio cuts the line into, and the
  \<open>llseek\<close> of \<open>fseek\<close>, or makes the \<open>ioctl\<close> its line asks for; then come the \<open>read\<close> calls of the \<open>getline\<close>
  loop until one returns 0. A handler call itself is atomic, because it holds the driver's mutex
  (\<open>Handler_Steps\<close>).
\<close>

section \<open>A thread's system calls\<close>

datatype request = Put "string list" | Jump u32 u32

datatype request_phase = Writing "string list" | Seeking u32 u32 | Reading | Closed

record client =
  phase :: request_phase
  cfile :: kfile
  reply :: string

fun start_phase :: "request \<Rightarrow> request_phase" where
  "start_phase (Put chunks) = Writing chunks"
| "start_phase (Jump cmd off) = Seeking cmd off"

definition new_client :: "kstate \<Rightarrow> request \<Rightarrow> client" where
  "new_client st r =
     \<lparr>phase = start_phase r, cfile = snd (aesd_open 0 \<lparr>i_cdev = dev_addr st\<rparr> \<lparr>private_data = 0, f_pos = 0\<rparr>),
      reply = []\<rparr>"

text \<open>The next call of a thread; \<open>reply\<close> collects what it sends back. What \<open>appendToFile\<close> does after a failed or short
  write is left out: the calls are made with \<open>steady\<close> kernels only, whose writes take everything.\<close>

definition client_call :: "kernel \<Rightarrow> kstate \<Rightarrow> client \<Rightarrow> (kstate \<times> client) outcome" where
  "client_call K st c =
     (case phase c of
        Writing (s # ss) \<Rightarrow>
          and_then (aesd_write K st (cfile c) s (of_nat (length s)) (f_pos (cfile c))) (\<lambda>(n, pos, st).
            Done (st, c\<lparr>phase := Writing ss, cfile := (cfile c)\<lparr>f_pos := pos\<rparr>\<rparr>))
      | Writing [] \<Rightarrow>
          and_then (aesd_llseek K st (cfile c) 0 0) (\<lambda>(pos, f, st). Done (st, c\<lparr>phase := Reading, cfile := f\<rparr>))
      | Seeking cmd off \<Rightarrow>
          and_then (aesd_ioctl K st (cfile c) (AESDCHAR_IOCSEEKTO K) \<lparr>write_cmd = cmd, write_cmd_offset = off\<rparr>)
            (\<lambda>(result_ret, f, st). Done (st, c\<lparr>phase := Reading, cfile := f\<rparr>))
      | Reading \<Rightarrow>
          and_then (aesd_read K st (cfile c) 4096 (f_pos (cfile c))) (\<lambda>(n, pos, bs, st).
            Done (st, c\<lparr>phase := (if n = 0 then Closed else Reading), cfile := (cfile c)\<lparr>f_pos := pos\<rparr>,
                        reply := (if n = 0 then reply c else reply c @ bs)\<rparr>))
      | Closed \<Rightarrow> Done (st, c))"

text \<open>Any thread makes the next call. \<open>writes\<close> keeps which thread wrote what, in order.\<close>

inductive interleaved :: "kstate \<Rightarrow> request list \<Rightarrow> (nat \<times> string) list \<Rightarrow> kstate \<Rightarrow> client list \<Rightarrow> bool"
  for st0 reqs where
  start: "interleaved st0 reqs [] st0 (map (new_client st0) reqs)"
| call: "interleaved st0 reqs writes st cs \<Longrightarrow> i < length cs \<Longrightarrow> steady K \<Longrightarrow>
    client_call K st (cs ! i) = Done (st', c') \<Longrightarrow>
    interleaved st0 reqs
      (case phase (cs ! i) of Writing (s # ss) \<Rightarrow> writes @ [(i, s)] | _ \<Rightarrow> writes) st' (cs[i := c'])"

inductive_cases interleavedE: "interleaved st0 reqs writes st cs"

section \<open>Single calls\<close>

definition file_ok :: "kstate \<Rightarrow> client \<Rightarrow> bool" where
  "file_ok st c \<longleftrightarrow> private_data (cfile c) = dev_addr st"

lemma good_client: "steady K \<Longrightarrow> dev_inv st \<Longrightarrow> file_ok st c \<Longrightarrow> dev_good (K, st, cfile c)"
  by (simp add: dev_good_def file_ok_def)

lemma new_client_ok: "file_ok st (new_client st r)"
  by (simp add: file_ok_def new_client_def aesd_open_def)

lemma new_client_pos: "f_pos (cfile (new_client st r)) = 0"
  by (simp add: new_client_def aesd_open_def)

text \<open>A write appends the buffer to the abstract device, or finds no memory.\<close>

lemma client_write:
  assumes good: "steady K" "dev_inv st" "file_ok st c" and p: "phase c = Writing (s # ss)" and len: "length s < 2 ^ 31"
    and call: "client_call K st c = Done (st', c')"
  shows "dev_inv st'" "absdev st' = dev_append (absdev st) s" "dev_addr st' = dev_addr st"
    "c' = c\<lparr>phase := Writing ss\<rparr>"
proof -
  let ?n = "of_nat (length s) :: u64"
  note g = good_ready [OF good_client [OF good]]
  have n: "length s = unat ?n" "unat ?n < 2 ^ 31"
    using len by (simp_all add: unat_of_nat)
  have full: "take (unat (?n - fst (copy_from_user K s ?n))) s = s"
    using good(1) n by (simp add: steady_def)
  have "accepted (?n - fst (copy_from_user K s ?n)) s = s"
    using good(1) n sint_small [OF n(2)] by (simp add: steady_def accepted_def)
  have laws: "lock_law K" "krealloc_law K" "copy_from_user_law K"
    using g(3) by (simp_all add: kernel_ok_def)
  obtain q h1 where grow: "krealloc K (heap st) (pend_ptr st) (esize (dev_entry (aesd_device st)) + ?n) = (q, h1)"
    by fastforce
  have q: "q \<noteq> 0"
    using call p write_no_memory [OF g(1,2) laws n(1), of h1 "f_pos (cfile c)"] grow
    by (auto simp: client_call_def)
  obtain st1 where st1: "aesd_write K st (cfile c) s ?n (f_pos (cfile c)) = Done (?n - fst (copy_from_user K s ?n), f_pos (cfile c), st1)"
    "dev_inv st1" "absdev st1 = dev_append (absdev st) s" "dev_addr st1 = dev_addr st"
    using write_refines [OF g(1,2) laws n grow q, of "f_pos (cfile c)"] full by metis
  have "st' = st1" "c' = c\<lparr>phase := Writing ss\<rparr>"
    using call p st1(1) by (simp_all add: client_call_def)
  with st1 show "dev_inv st'" "absdev st' = dev_append (absdev st) s" "dev_addr st' = dev_addr st"
    "c' = c\<lparr>phase := Writing ss\<rparr>" by simp_all
qed

lemma client_rewind:
  assumes good: "steady K" "dev_inv st" "file_ok st c" and p: "phase c = Writing []"
  shows "client_call K st c = Done (st, c\<lparr>phase := Reading, cfile := (cfile c)\<lparr>f_pos := 0\<rparr>\<rparr>)"
  using driver_rewind [OF good_client [OF good], of 0 "\<lambda>s. []"] p
  by (auto simp: client_call_def driver_ops_def)

lemma client_read:
  assumes good: "steady K" "dev_inv st" "file_ok st c" and p: "phase c = Reading"
  shows "(length (content (absdev st)) \<le> unat (f_pos (cfile c)) \<and>
      client_call K st c = Done (st, c\<lparr>phase := Closed, cfile := (cfile c)\<lparr>f_pos := 0\<rparr>\<rparr>)) \<or>
    (\<exists>pos bs. client_call K st c = Done (st, c\<lparr>cfile := (cfile c)\<lparr>f_pos := pos\<rparr>, reply := reply c @ bs\<rparr>) \<and>
      bs \<noteq> [] \<and> unat pos = unat (f_pos (cfile c)) + length bs \<and> unat pos \<le> length (content (absdev st)) \<and>
      drop (unat (f_pos (cfile c))) (content (absdev st)) = bs @ drop (unat pos) (content (absdev st)))"
proof (cases "unat (f_pos (cfile c)) < length (content (absdev st))")
  case True
  note g = good_ready [OF good_client [OF good]]
  have law: "copy_to_user_law K" using g(3) by (simp add: kernel_ok_def)
  have count: "0 < unat (4096 :: u64)" "unat (4096 :: u64) < 2 ^ 31" by simp_all
  obtain n bs where part: "aesd_read K st (cfile c) 4096 (f_pos (cfile c)) = Done (n, f_pos (cfile c) + n, bs, st)" "n \<noteq> 0" "unat n = length bs"
      "unat (f_pos (cfile c) + n) = unat (f_pos (cfile c)) + length bs"
      "drop (unat (f_pos (cfile c))) (content (absdev st)) = bs @ drop (unat (f_pos (cfile c)) + length bs) (content (absdev st))"
      "unat (f_pos (cfile c)) + length bs \<le> length (content (absdev st))"
    using read_part [OF g(1,2,4) law g(5) count True] by metis
  then have "client_call K st c = Done (st, c\<lparr>cfile := (cfile c)\<lparr>f_pos := f_pos (cfile c) + n\<rparr>, reply := reply c @ bs\<rparr>)"
    using p by (cases c) (simp add: client_call_def)
  moreover have "bs \<noteq> []" using part(2,3) by (auto simp: unat_eq_zero)
  ultimately show ?thesis
    using part(4-6) by (intro disjI2 exI [of _ "f_pos (cfile c) + n"] exI [of _ bs]) simp
next
  case False
  note g = good_ready [OF good_client [OF good]]
  show ?thesis
    using read_eof [OF g(1,2,4), of "f_pos (cfile c)" 4096] False p by (auto simp: client_call_def)
qed

text \<open>A seek goes to a byte of the content or leaves the position alone.\<close>

lemma content_length:
  assumes "dev_wf st"
  shows "length (content (absdev st)) = sum_list (map (\<lambda>e. unat (esize e)) (entry (buffer (aesd_device st))))"
proof -
  let ?b = "buffer (aesd_device st)"
  let ?size = "\<lambda>es. sum_list (map (\<lambda>e. unat (esize e)) es)"
  have "rb_inv ?b" using assms by (simp add: dev_wf_def)
  then have "?size (ring_slots ?b) = ?size (ring_cmds ?b)"
    by (simp add: ring_slots_cmds sum_list_replicate zero_entry_def)
  moreover have "?size (take n (entry ?b)) + ?size (drop n (entry ?b)) = ?size (entry ?b)" for n
    by (metis append_take_drop_id map_append sum_list_append)
  then have "?size (ring_slots ?b) = ?size (entry ?b)"
    by (simp add: ring_slots_def add.commute)
  ultimately show ?thesis
    by (simp add: content_def length_concat cmd_lengths [OF assms])
qed

lemma seek_inside:
  assumes "dev_wf st" and "seekable (buffer (aesd_device st)) cmd off"
  shows "seek_pos (buffer (aesd_device st)) cmd off < length (content (absdev st))"
proof -
  let ?es = "entry (buffer (aesd_device st))"
  let ?size = "\<lambda>es. sum_list (map (\<lambda>e. unat (esize e)) es)"
  have "unat cmd < length ?es"
    using assms by (simp add: seekable_def dev_wf_def rb_inv_def)
  then have "?es = take (unat cmd) ?es @ ?es ! unat cmd # drop (Suc (unat cmd)) ?es"
    by (rule id_take_nth_drop)
  then have "?size ?es = ?size (take (unat cmd) ?es) + (unat (esize (?es ! unat cmd)) + ?size (drop (Suc (unat cmd)) ?es))"
    by (metis (no_types, lifting) list.simps(9) map_append sum_list.Cons sum_list_append)
  then show ?thesis
    using assms(2) by (simp add: content_length [OF assms(1)] seek_pos_def seekable_def)
qed

lemma same_pos: "(f :: kfile)\<lparr>f_pos := f_pos f\<rparr> = f"
  by (cases f) simp

lemma client_seek:
  assumes good: "steady K" "dev_inv st" "file_ok st c" and p: "phase c = Seeking cmd off"
  shows "\<exists>pos. client_call K st c = Done (st, c\<lparr>phase := Reading, cfile := (cfile c)\<lparr>f_pos := pos\<rparr>\<rparr>) \<and>
    (pos = f_pos (cfile c) \<or> unat pos < length (content (absdev st)))"
proof -
  let ?arg = "\<lparr>write_cmd = cmd, write_cmd_offset = off\<rparr>" and ?b = "buffer (aesd_device st)"
  note g = good_ready [OF good_client [OF good]]
  have wf: "dev_wf st" using good(2) by (simp add: dev_inv_def)
  have zero: "fst (copy_seekto_from_user K ?arg) = 0" and law: "copy_seekto_law K"
    using good(1) by (simp_all add: steady_def kernel_ok_def)
  then have arg: "snd (copy_seekto_from_user K ?arg) = ?arg"
    unfolding copy_seekto_law_def by (metis prod.collapse)
  note res = ioctl_result [OF g(1,2,4), of "AESDCHAR_IOCSEEKTO K" ?arg]
  show ?thesis
  proof (cases "seekable ?b cmd off")
    case True
    have "unat (of_nat (seek_pos ?b cmd off) :: s64) = seek_pos ?b cmd off"
      using seek_pos_bound [OF wf True] by (simp add: unat_of_nat_small)
    then show ?thesis
      using seek_inside [OF wf True] p True
      by (intro exI [of _ "of_nat (seek_pos ?b cmd off)"]) (simp add: client_call_def res zero arg Let_def)
  next
    case False
    then show ?thesis
      using p by (intro exI [of _ "f_pos (cfile c)"]) (simp add: client_call_def res zero arg Let_def same_pos)
  qed
qed

text \<open>A read delivers at most the rest of one command.\<close>

lemma client_read_hit:
  assumes good: "steady K" "dev_inv st" "file_ok st c" and p: "phase c = Reading"
    and hit: "seek_entry (map length (a_cmds (absdev st))) (unat (f_pos (cfile c))) = Some (k, r)"
  defines "bs \<equiv> take 4096 (drop r (a_cmds (absdev st) ! k))"
  shows "client_call K st c =
      Done (st, c\<lparr>cfile := (cfile c)\<lparr>f_pos := f_pos (cfile c) + of_nat (length bs)\<rparr>, reply := reply c @ bs\<rparr>)"
    and "bs \<noteq> []"
proof -
  note g = good_ready [OF good_client [OF good]]
  have law: "copy_to_user_law K" using g(3) by (simp add: kernel_ok_def)
  have small: "unat (4096 :: u64) < 2 ^ 31" and count: "unat (4096 :: u64) = 4096" by simp_all
  have "aesd_read K st (cfile c) 4096 (f_pos (cfile c)) = Done (of_nat (length bs), f_pos (cfile c) + of_nat (length bs), bs, st)"
    using read_hit [OF g(1,2,4) law small hit, unfolded count, folded bs_def] g(5) by (simp add: copies_all_def)
  moreover show "bs \<noteq> []"
    using seek_entry_SomeD [OF hit] by (auto simp: bs_def)
  moreover have "unat (of_nat (length bs) :: u64) = length bs"
    by (rule unat_of_nat_small) (simp add: bs_def min_def)
  then have "(of_nat (length bs) :: u64) \<noteq> 0"
    using \<open>bs \<noteq> []\<close> by (metis length_0_conv unat_0)
  ultimately show "client_call K st c =
      Done (st, c\<lparr>cfile := (cfile c)\<lparr>f_pos := f_pos (cfile c) + of_nat (length bs)\<rparr>, reply := reply c @ bs\<rparr>)"
    using p by (cases c) (simp add: client_call_def)
qed

text \<open>The calls of a thread that does not write leave the device alone.\<close>

lemma other_calls:
  assumes good: "steady K" "dev_inv st" "file_ok st c" and nw: "\<forall>s ss. phase c \<noteq> Writing (s # ss)"
    and call: "client_call K st c = Done (st', c')"
  shows "st' = st" "file_ok st c'"
proof -
  have "st' = st \<and> file_ok st c'"
  proof (cases "phase c")
    case (Writing ss)
    then have "ss = []" using nw by (cases ss) auto
    with client_rewind [OF good] Writing call good(3) show ?thesis by (auto simp: file_ok_def)
  next
    case (Seeking cmd off)
    with client_seek [OF good Seeking] call good(3) show ?thesis by (auto simp: file_ok_def)
  next
    case Reading
    with client_read [OF good Reading] call good(3) show ?thesis by (auto simp: file_ok_def)
  next
    case Closed
    with call good(3) show ?thesis by (simp add: client_call_def)
  qed
  then show "st' = st" "file_ok st c'" by simp_all
qed

section \<open>What every interleaving keeps\<close>

text \<open>The device after the first \<open>k\<close> writes, and the buffers one thread has written.\<close>

definition log_at :: "kstate \<Rightarrow> (nat \<times> string) list \<Rightarrow> nat \<Rightarrow> adev" where
  "log_at st0 writes k = foldl dev_append (absdev st0) (map snd (take k writes))"

definition own :: "nat \<Rightarrow> (nat \<times> string) list \<Rightarrow> string list" where
  "own i writes = map snd (filter (\<lambda>w. fst w = i) writes)"

lemma log_at_append: "k \<le> length writes \<Longrightarrow> log_at st0 (writes @ ws) k = log_at st0 writes k"
  by (simp add: log_at_def)

lemma log_at_snoc: "log_at st0 (writes @ [(i, s)]) (Suc (length writes)) = dev_append (log_at st0 writes (length writes)) s"
  by (simp add: log_at_def)

lemma own_snoc: "own i (writes @ [(j, s)]) = own i writes @ (if j = i then [s] else [])"
  by (simp add: own_def)

text \<open>\<open>reads D k0 p bs k\<close>: reading from position \<open>p\<close> on, each read at its own moment from \<open>k0\<close> to \<open>k\<close>, delivers
  \<open>bs\<close>. A piece comes from the content of its moment, at the offset of what came before.\<close>

inductive reads :: "(nat \<Rightarrow> adev) \<Rightarrow> nat \<Rightarrow> nat \<Rightarrow> string \<Rightarrow> nat \<Rightarrow> bool" for D k0 p where
  none: "reads D k0 p [] k0"
| piece: "reads D k0 p bs k \<Longrightarrow> k \<le> k' \<Longrightarrow> drop (p + length bs) (content (D k')) = piece @ rest \<Longrightarrow>
    reads D k0 p (bs @ piece) k'"

lemma reads_later: "reads D k0 p bs k \<Longrightarrow> k0 \<le> k"
  by (induction rule: reads.induct) auto

lemma reads_cong: "reads D k0 p bs k \<Longrightarrow> (\<And>j. j \<le> k \<Longrightarrow> D' j = D j) \<Longrightarrow> reads D' k0 p bs k"
proof (induction rule: reads.induct)
  case none
  show ?case by (rule reads.none)
next
  case (piece bs k k' ps rest)
  then have "drop (p + length bs) (content (D' k')) = ps @ rest" by simp
  with piece show ?case by (intro reads.piece [of D' k0 p bs k]) auto
qed

text \<open>Where and when a thread begins to read: after its own writes at 0, or where its seek took it.\<close>

definition begun :: "kstate \<Rightarrow> request \<Rightarrow> (nat \<times> string) list \<Rightarrow> nat \<Rightarrow> nat \<Rightarrow> nat \<Rightarrow> bool" where
  "begun st0 r writes i k0 p \<longleftrightarrow>
     (case r of
        Put ss \<Rightarrow> own i writes = ss \<and> own i (take k0 writes) = ss \<and> p = 0
      | Jump cmd off \<Rightarrow> own i writes = [] \<and> (p = 0 \<or> p < length (content (log_at st0 writes k0))))"

definition answered :: "kstate \<Rightarrow> request \<Rightarrow> (nat \<times> string) list \<Rightarrow> nat \<Rightarrow> client \<Rightarrow> bool" where
  "answered st0 r writes i c \<longleftrightarrow>
     (case phase c of
        Writing ss \<Rightarrow> reply c = [] \<and> r = Put (own i writes @ ss)
      | Seeking cmd off \<Rightarrow> reply c = [] \<and> f_pos (cfile c) = 0 \<and> r = Jump cmd off \<and> own i writes = []
      | Reading \<Rightarrow> \<exists>k0 p k. begun st0 r writes i k0 p \<and> reads (log_at st0 writes) k0 p (reply c) k \<and>
          k \<le> length writes \<and> unat (f_pos (cfile c)) = p + length (reply c)
      | Closed \<Rightarrow> \<exists>k0 p k k1. begun st0 r writes i k0 p \<and> reads (log_at st0 writes) k0 p (reply c) k \<and>
          k \<le> k1 \<and> k1 \<le> length writes \<and> length (content (log_at st0 writes k1)) \<le> p + length (reply c))"

definition all_answered :: "kstate \<Rightarrow> request list \<Rightarrow> (nat \<times> string) list \<Rightarrow> kstate \<Rightarrow> client list \<Rightarrow> bool" where
  "all_answered st0 reqs writes st cs \<longleftrightarrow>
     dev_inv st \<and> dev_addr st = dev_addr st0 \<and> absdev st = log_at st0 writes (length writes) \<and>
     length cs = length reqs \<and> (\<forall>w \<in> set writes. fst w < length reqs) \<and>
     (\<forall>i < length reqs. file_ok st0 (cs ! i) \<and> answered st0 (reqs ! i) writes i (cs ! i))"

lemma begun_mono:
  assumes "begun st0 r writes i k0 p" and "k0 \<le> length writes" and "j \<noteq> i"
  shows "begun st0 r (writes @ [(j, s)]) i k0 p"
  using assms by (auto simp: begun_def own_snoc log_at_append split: request.splits)

lemma answered_mono:
  assumes "answered st0 r writes i c" and "j \<noteq> i"
  shows "answered st0 r (writes @ [(j, s)]) i c"
proof -
  have mono: "begun st0 r (writes @ [(j, s)]) i k0 p \<and> reads (log_at st0 (writes @ [(j, s)])) k0 p bs k"
    if "begun st0 r writes i k0 p" "reads (log_at st0 writes) k0 p bs k" "k \<le> length writes" for k0 p bs k
  proof
    have "k0 \<le> length writes" using reads_later [OF that(2)] that(3) by simp
    with begun_mono [OF that(1) _ assms(2)] show "begun st0 r (writes @ [(j, s)]) i k0 p" by blast
    show "reads (log_at st0 (writes @ [(j, s)])) k0 p bs k"
      by (rule reads_cong [OF that(2)]) (use that(3) in \<open>simp add: log_at_append\<close>)
  qed
  show ?thesis
  proof (cases "phase c")
    case Reading
    with assms(1) obtain k0 p k where "begun st0 r writes i k0 p" "reads (log_at st0 writes) k0 p (reply c) k"
        "k \<le> length writes" "unat (f_pos (cfile c)) = p + length (reply c)"
      by (auto simp: answered_def)
    moreover from this(3) have "k \<le> length (writes @ [(j, s)])" by simp
    ultimately show ?thesis
      using mono [of k0 p "reply c" k] unfolding answered_def Reading request_phase.case by blast
  next
    case Closed
    with assms(1) obtain k0 p k k1 where c: "begun st0 r writes i k0 p" "reads (log_at st0 writes) k0 p (reply c) k"
        "k \<le> k1" "k1 \<le> length writes" "length (content (log_at st0 writes k1)) \<le> p + length (reply c)"
      by (auto simp: answered_def)
    then have "k \<le> length writes" "k1 \<le> length (writes @ [(j, s)])" by simp_all
    with c mono [OF c(1,2)] Closed show ?thesis
      unfolding answered_def Closed request_phase.case by (metis log_at_append)
  qed (use assms in \<open>auto simp: answered_def own_snoc\<close>)
qed


definition small_request :: "request \<Rightarrow> bool" where
  "small_request r \<longleftrightarrow> (\<forall>ss. r = Put ss \<longrightarrow> (\<forall>s \<in> set ss. length s < 2 ^ 31))"

lemma answered_write:
  assumes inv: "all_answered st0 reqs writes st cs" and i: "i < length cs" "phase (cs ! i) = Writing (s # ss)"
    and K: "steady K" and call: "client_call K st (cs ! i) = Done (st', c')"
    and small: "\<forall>r \<in> set reqs. small_request r"
  shows "all_answered st0 reqs (writes @ [(i, s)]) st' (cs[i := c'])"
proof -
  let ?c = "cs ! i"
  have st: "dev_inv st" "dev_addr st = dev_addr st0" "absdev st = log_at st0 writes (length writes)" "length cs = length reqs"
    and each: "\<forall>j < length reqs. file_ok st0 (cs ! j) \<and> answered st0 (reqs ! j) writes j (cs ! j)"
    and idx: "\<forall>w \<in> set writes. fst w < length reqs"
    using inv by (simp_all add: all_answered_def)
  have ok: "file_ok st ?c" and ans: "reply ?c = []" "reqs ! i = Put (own i writes @ s # ss)"
    using each i st(2,4) by (auto simp: file_ok_def answered_def)
  have "reqs ! i \<in> set reqs" using i(1) st(4) by simp
  then have "small_request (reqs ! i)" using small by blast
  then have len: "length s < 2 ^ 31" using ans(2) by (simp add: small_request_def)
  note w = client_write [OF K st(1) ok i(2) len call]
  have "file_ok st0 (cs[i := c'] ! j) \<and> answered st0 (reqs ! j) (writes @ [(i, s)]) j (cs[i := c'] ! j)"
    if j: "j < length reqs" for j
  proof (cases "j = i")
    case True
    then show ?thesis
      using w(4) ok ans st(2,4) i(1) by (simp add: file_ok_def answered_def own_snoc)
  next
    case False
    then show ?thesis using each j answered_mono [of st0 "reqs ! j" writes j "cs ! j" i s] by simp
  qed
  then show ?thesis
    using w st idx i(1) by (simp add: all_answered_def log_at_snoc)
qed

lemma answered_other:
  assumes inv: "all_answered st0 reqs writes st cs" and i: "i < length cs" "\<forall>s ss. phase (cs ! i) \<noteq> Writing (s # ss)"
    and K: "steady K" and call: "client_call K st (cs ! i) = Done (st', c')"
  shows "all_answered st0 reqs writes st' (cs[i := c'])"
proof -
  let ?c = "cs ! i" and ?D = "log_at st0 writes" and ?n = "length writes" and ?r = "reqs ! i"
  have st: "dev_inv st" "dev_addr st = dev_addr st0" "absdev st = ?D ?n" "length cs = length reqs"
    and each: "\<forall>j < length reqs. file_ok st0 (cs ! j) \<and> answered st0 (reqs ! j) writes j (cs ! j)"
    and idx: "\<forall>w \<in> set writes. fst w < length reqs"
    using inv by (simp_all add: all_answered_def)
  have ok: "file_ok st ?c" and ans: "answered st0 ?r writes i ?c"
    using each i st(2,4) by (auto simp: file_ok_def)
  note same = other_calls [OF K st(1) ok i(2) call]
  have "answered st0 ?r writes i c'"
  proof (cases "phase ?c")
    case (Writing ss)
    then have "ss = []" using i(2) by (cases ss) auto
    then have c': "c' = ?c\<lparr>phase := Reading, cfile := (cfile ?c)\<lparr>f_pos := 0\<rparr>\<rparr>"
      using client_rewind [OF K st(1) ok] Writing call by simp
    have "begun st0 ?r writes i ?n 0" and r: "reply ?c = []"
      using ans Writing \<open>ss = []\<close> by (simp_all add: answered_def begun_def)
    then have "begun st0 ?r writes i ?n 0 \<and> reads ?D ?n 0 (reply c') ?n \<and> ?n \<le> ?n \<and>
        unat (f_pos (cfile c')) = 0 + length (reply c')" and "phase c' = Reading"
      using reads.none [of ?D ?n 0] by (simp_all add: c')
    then show ?thesis unfolding answered_def by (simp only: request_phase.case) blast
  next
    case (Seeking cmd off)
    then obtain pos where c': "c' = ?c\<lparr>phase := Reading, cfile := (cfile ?c)\<lparr>f_pos := pos\<rparr>\<rparr>"
      and pos: "pos = f_pos (cfile ?c) \<or> unat pos < length (content (?D ?n))"
      using client_seek [OF K st(1) ok Seeking] call st(3) by auto
    have "begun st0 ?r writes i ?n (unat pos)" and "reply ?c = []"
      using ans Seeking pos by (auto simp: answered_def begun_def)
    then have "begun st0 ?r writes i ?n (unat pos) \<and> reads ?D ?n (unat pos) (reply c') ?n \<and> ?n \<le> ?n \<and>
        unat (f_pos (cfile c')) = unat pos + length (reply c')" and "phase c' = Reading"
      using reads.none [of ?D ?n "unat pos"] by (simp_all add: c')
    then show ?thesis unfolding answered_def by (simp only: request_phase.case) blast
  next
    case Reading
    then obtain k0 p k where rd: "begun st0 ?r writes i k0 p" "reads ?D k0 p (reply ?c) k" "k \<le> ?n"
        "unat (f_pos (cfile ?c)) = p + length (reply ?c)"
      using ans by (auto simp: answered_def)
    from client_read [OF K st(1) ok Reading] show ?thesis
    proof (elim disjE conjE exE)
      assume "length (content (absdev st)) \<le> unat (f_pos (cfile ?c))"
        and "client_call K st ?c = Done (st, ?c\<lparr>phase := Closed, cfile := (cfile ?c)\<lparr>f_pos := 0\<rparr>\<rparr>)"
      then have "c' = ?c\<lparr>phase := Closed, cfile := (cfile ?c)\<lparr>f_pos := 0\<rparr>\<rparr>"
          "length (content (?D ?n)) \<le> p + length (reply ?c)"
        using call st(3) rd(4) by simp_all
      with rd(1-3) show ?thesis by (auto simp: answered_def)
    next
      fix pos bs
      assume "client_call K st ?c = Done (st, ?c\<lparr>cfile := (cfile ?c)\<lparr>f_pos := pos\<rparr>, reply := reply ?c @ bs\<rparr>)"
        and pos: "unat pos = unat (f_pos (cfile ?c)) + length bs"
        and part: "drop (unat (f_pos (cfile ?c))) (content (absdev st)) = bs @ drop (unat pos) (content (absdev st))"
      then have c': "c' = ?c\<lparr>cfile := (cfile ?c)\<lparr>f_pos := pos\<rparr>, reply := reply ?c @ bs\<rparr>" using call by simp
      have "reads ?D k0 p (reply ?c @ bs) ?n"
        by (rule reads.piece [OF rd(2,3)]) (use part rd(4) st(3) in simp)
      with rd(1,4) pos Reading show ?thesis unfolding answered_def by (auto simp: c')
    qed
  next
    case Closed
    with call ans show ?thesis by (simp add: client_call_def)
  qed
  then show ?thesis
    using st each idx i(1) same by (auto simp: all_answered_def file_ok_def nth_list_update)
qed

lemma interleaved_answered:
  assumes "interleaved st0 reqs writes st cs" and "dev_inv st0" and "\<forall>r \<in> set reqs. small_request r"
  shows "all_answered st0 reqs writes st cs"
  using assms
proof (induction rule: interleaved.induct)
  case start
  have "answered st0 r [] i (new_client st0 r)" for r i
    using new_client_pos [of st0 r] by (cases r) (auto simp: answered_def own_def new_client_def)
  with start show ?case
    by (simp add: all_answered_def log_at_def new_client_ok)
next
  case (call writes st cs i K st' c')
  show ?case
  proof (cases "\<exists>s ss. phase (cs ! i) = Writing (s # ss)")
    case True
    then show ?thesis
      using answered_write [OF _ call(2) _ call(3,4)] call.IH call.prems by fastforce
  next
    case False
    then have "(case phase (cs ! i) of Writing (s # ss) \<Rightarrow> writes @ [(i, s)] | _ \<Rightarrow> writes) = writes"
      by (auto split: request_phase.split list.split)
    with False show ?thesis
      using answered_other [OF _ call(2) _ call(3,4)] call.IH call.prems by simp
  qed
qed

section \<open>Without evictions\<close>

text \<open>As long as nothing is evicted the content only grows, and the pieces fit together.\<close>

lemma reads_growing:
  assumes "reads D k0 p bs k" and "k \<le> n" and "\<And>j j'. j \<le> j' \<Longrightarrow> j' \<le> n \<Longrightarrow> \<exists>more. content (D j') = content (D j) @ more"
  shows "\<exists>rest. drop p (content (D k)) = bs @ rest"
  using assms
proof (induction rule: reads.induct)
  case (piece bs k k' ps rest)
  then obtain r1 where "drop p (content (D k)) = bs @ r1" by auto
  moreover obtain more where "content (D k') = content (D k) @ more" using piece by auto
  ultimately have "bs = take (length bs) (drop p (content (D k')))" by (cases "p \<le> length (content (D k))") auto
  moreover have "drop (length bs) (drop p (content (D k'))) = ps @ rest" using piece.hyps(3) by (simp add: add.commute)
  ultimately have "drop p (content (D k')) = bs @ ps @ rest" by (metis append_take_drop_id)
  then show ?case by auto
qed simp

lemma log_at_roomy:
  assumes "a_pend (absdev st0) = []" and "\<forall>w \<in> set writes. newline \<in> set (snd w)"
    and "length (a_cmds (absdev st0)) + length writes \<le> 10"
  shows "k \<le> length writes \<Longrightarrow>
    log_at st0 writes k = \<lparr>a_cmds = a_cmds (absdev st0) @ map snd (take k writes), a_pend = []\<rparr>"
proof (induction k)
  case 0
  then show ?case using assms(1) by (cases "absdev st0") (simp add: log_at_def)
next
  case (Suc k)
  then have k: "k < length writes" "take (Suc k) writes = take k writes @ [writes ! k]"
    by (simp_all add: take_Suc_conv_app_nth)
  then have "newline \<in> set (snd (writes ! k))" using assms(2) by simp
  moreover have "log_at st0 writes (Suc k) = dev_append (log_at st0 writes k) (snd (writes ! k))"
    by (simp add: log_at_def k(2))
  ultimately show ?case
    using Suc assms(3) k by (simp add: dev_append_def)
qed

text \<open>One line per thread, each in one buffer.\<close>

lemma lines_log:
  assumes inv: "all_answered st0 (map (\<lambda>l. Put [l]) lines) writes st cs"
  shows "distinct (map fst writes)" and "\<forall>(i, s) \<in> set writes. i < length lines \<and> s = lines ! i"
    and "length writes \<le> length lines"
proof -
  have own: "\<exists>rest. own i writes @ rest = [lines ! i]" if "i < length lines" for i
  proof -
    have "answered st0 (Put [lines ! i]) writes i (cs ! i)" using inv that by (simp add: all_answered_def)
    then show ?thesis
      by (cases "phase (cs ! i)") (auto simp: answered_def begun_def)
  qed
  have idx: "i < length lines" if "(i, s) \<in> set writes" for i s
    using inv that by (auto simp: all_answered_def)
  show each: "\<forall>(i, s) \<in> set writes. i < length lines \<and> s = lines ! i"
  proof (intro ballI, clarify, intro conjI)
    fix i s
    assume w: "(i, s) \<in> set writes"
    then show "i < length lines" by (rule idx)
    have "s \<in> set (own i writes)" using w by (force simp: own_def)
    with own [OF idx [OF w]] show "s = lines ! i" by (metis Un_iff empty_iff insert_iff list.set set_append)
  qed
  show dist: "distinct (map fst writes)"
  proof (rule ccontr)
    assume "\<not> distinct (map fst writes)"
    then obtain xs ys zs i where "map fst writes = xs @ [i] @ ys @ [i] @ zs"
      using not_distinct_decomp by blast
    then have two: "2 \<le> length (filter (\<lambda>j. j = i) (map fst writes))" by simp
    then have "i \<in> set (map fst writes)" using \<open>map fst writes = xs @ [i] @ ys @ [i] @ zs\<close> by simp
    then obtain s where "(i, s) \<in> set writes" by auto
    from own [OF idx [OF this]] have "length (own i writes) \<le> 1"
      by (metis length_append length_Cons list.size(3) le_add1 One_nat_def)
    with two show False by (simp add: own_def filter_map comp_def)
  qed
  have "set (map fst writes) \<subseteq> {..<length lines}" using each by auto
  then have "card (set (map fst writes)) \<le> length lines" using card_mono [of "{..<length lines}"] by fastforce
  then show "length writes \<le> length lines" using distinct_card [OF dist] by simp
qed

section \<open>Every request comes to its end\<close>

text \<open>Calls a thread has left at most, as no content is longer than the address space.\<close>

definition calls_left :: "client \<Rightarrow> nat" where
  "calls_left c = (case phase c of
     Writing ss \<Rightarrow> 2 ^ 64 + 2 + length ss | Seeking cmd off \<Rightarrow> 2 ^ 64 + 2
   | Reading \<Rightarrow> 2 ^ 64 + 1 - unat (f_pos (cfile c)) | Closed \<Rightarrow> 0)"

definition no_memory :: "kernel \<Rightarrow> kstate \<Rightarrow> client \<Rightarrow> bool" where
  "no_memory K st c \<longleftrightarrow> (\<exists>s ss. phase c = Writing (s # ss) \<and>
     fst (krealloc K (heap st) (pend_ptr st) (esize (dev_entry (aesd_device st)) + of_nat (length s))) = 0)"

lemma client_write_returns:
  assumes good: "steady K" "dev_inv st" "file_ok st c" and p: "phase c = Writing (s # ss)" and len: "length s < 2 ^ 31"
    and mem: "\<not> no_memory K st c"
  shows "\<exists>st'. client_call K st c = Done (st', c\<lparr>phase := Writing ss\<rparr>)"
proof -
  let ?n = "of_nat (length s) :: u64"
  note g = good_ready [OF good_client [OF good]]
  have n: "length s = unat ?n" "unat ?n < 2 ^ 31"
    using len by (simp_all add: unat_of_nat)
  have "fst (krealloc K (heap st) (pend_ptr st) (esize (dev_entry (aesd_device st)) + ?n)) \<noteq> 0"
    using mem p by (simp add: no_memory_def)
  with write_cases [OF g(1,3,6) n, of "f_pos (cfile c)"] show ?thesis
    using p by (auto simp: client_call_def)
qed

lemma call_progress:
  assumes good: "steady K" "dev_inv st" "file_ok st c" and open_c: "phase c \<noteq> Closed"
    and len: "\<forall>s ss. phase c = Writing (s # ss) \<longrightarrow> length s < 2 ^ 31" and mem: "\<not> no_memory K st c"
  shows "\<exists>st' c'. client_call K st c = Done (st', c') \<and> calls_left c' < calls_left c"
proof (cases "phase c")
  case (Writing ss)
  show ?thesis
  proof (cases ss)
    case Nil
    with Writing client_rewind [OF good] show ?thesis by (simp add: calls_left_def)
  next
    case (Cons s ss')
    with Writing len client_write_returns [OF good, of s ss'] mem show ?thesis
      by (fastforce simp: calls_left_def)
  qed
next
  case (Seeking cmd off)
  with client_seek [OF good Seeking] show ?thesis by (auto simp: calls_left_def)
next
  case Reading
  have word: "unat (w :: s64) < 2 ^ 64" for w
    using unsigned_less [of w] by simp
  from client_read [OF good Reading] show ?thesis
  proof (elim disjE conjE exE)
    fix pos bs
    assume "client_call K st c = Done (st, c\<lparr>cfile := (cfile c)\<lparr>f_pos := pos\<rparr>, reply := reply c @ bs\<rparr>)" "bs \<noteq> []"
      and "unat pos = unat (f_pos (cfile c)) + length bs"
    moreover from this(2,3) word [of pos] have "2 ^ 64 + 1 - unat pos < 2 ^ 64 + 1 - unat (f_pos (cfile c))"
      by (cases bs) simp_all
    ultimately show ?thesis using Reading by (simp add: calls_left_def)
  qed (use Reading word [of "f_pos (cfile c)"] in \<open>simp add: calls_left_def\<close>)
qed (use open_c in simp)

section \<open>A thread that is not interrupted\<close>

text \<open>The calls of one thread in a row, and the request the server makes of a line.\<close>

fun run_client :: "nat \<Rightarrow> kernel \<Rightarrow> kstate \<Rightarrow> client \<Rightarrow> (kstate \<times> client) outcome" where
  "run_client 0 K st c = Done (st, c)"
| "run_client (Suc n) K st c = and_then (client_call K st c) (\<lambda>(st, c). run_client n K st c)"

definition line_request :: "(string \<Rightarrow> string list) \<Rightarrow> string \<Rightarrow> request outcome" where
  "line_request split s =
     (if c_strstr s ''AESDCHAR_IOCSEEKTO'' then and_then (parse_seekto s) (\<lambda>(cmd, off). Done (Jump cmd off))
      else Done (Put (split s)))"

lemma run_client_add:
  "run_client m K st c = Done (st', c') \<Longrightarrow> run_client (m + n) K st c = run_client n K st' c'"
  by (induction m arbitrary: st c) auto

lemma run_then_Done: "run_then x f = Done (Ret b) \<longleftrightarrow> (\<exists>a. x = Done (Ret a) \<and> f a = Done (Ret b))"
  by (cases "(x, f)" rule: run_then.cases) auto

lemma read_file: "private_data f = private_data f' \<Longrightarrow> aesd_read K st f count pos = aesd_read K st f' count pos"
  by (simp add: aesd_read_def)

lemma reading_alone:
  "read_until_eof fuel K st f 4096 (f_pos f) = Done (got, pos, st') \<Longrightarrow>
    \<exists>n. run_client n K st \<lparr>phase = Reading, cfile = f, reply = r\<rparr> =
      Done (st', \<lparr>phase = Closed, cfile = f\<lparr>f_pos := pos\<rparr>, reply = r @ got\<rparr>)"
proof (induction fuel arbitrary: st f got r)
  case (Suc fuel)
  then obtain n p bs st1 where rd: "aesd_read K st f 4096 (f_pos f) = Done (n, p, bs, st1)" by fastforce
  show ?case
  proof (cases "n = 0")
    case True
    with rd Suc.prems have "run_client 1 K st \<lparr>phase = Reading, cfile = f, reply = r\<rparr> =
      Done (st', \<lparr>phase = Closed, cfile = f\<lparr>f_pos := pos\<rparr>, reply = r @ got\<rparr>)"
      by (simp add: client_call_def)
    then show ?thesis by blast
  next
    case False
    let ?f = "f\<lparr>f_pos := p\<rparr>"
    obtain more where "read_until_eof fuel K st1 f 4096 p = Done (more, pos, st')" and got: "got = bs @ more"
      using Suc.prems rd False by auto
    moreover have "read_until_eof fuel K st1 f 4096 p = read_until_eof fuel K st1 ?f 4096 p"
    proof -
      have "read_until_eof k K s f 4096 q = read_until_eof k K s ?f 4096 q" for k s q
      proof (induction k arbitrary: s q)
        case (Suc k)
        show ?case by (simp add: read_file [of f ?f] Suc.IH cong: if_cong)
      qed simp
      then show ?thesis .
    qed
    ultimately have "read_until_eof fuel K st1 ?f 4096 (f_pos ?f) = Done (more, pos, st')" by simp
    from Suc.IH [OF this, of "r @ bs"] obtain m where
      "run_client m K st1 \<lparr>phase = Reading, cfile = ?f, reply = r @ bs\<rparr> =
        Done (st', \<lparr>phase = Closed, cfile = ?f\<lparr>f_pos := pos\<rparr>, reply = (r @ bs) @ more\<rparr>)" by blast
    with rd False got have "run_client (Suc m) K st \<lparr>phase = Reading, cfile = f, reply = r\<rparr> =
      Done (st', \<lparr>phase = Closed, cfile = f\<lparr>f_pos := pos\<rparr>, reply = r @ got\<rparr>)"
      by (simp add: client_call_def)
    then show ?thesis by blast
  qed
qed simp

lemma writing_alone:
  "write_chunks (driver_ops o1 split) ss (K, st, f) = Done (True, (K', st', f')) \<Longrightarrow>
    K' = K \<and> run_client (length ss) K st \<lparr>phase = Writing ss, cfile = f, reply = r\<rparr> =
      Done (st', \<lparr>phase = Writing [], cfile = f', reply = r\<rparr>)"
proof (induction ss arbitrary: st f)
  case (Cons s ss)
  obtain n pos st1 where w: "aesd_write K st f s (of_nat (length s)) (f_pos f) = Done (n, pos, st1)"
      "write_chunks (driver_ops o1 split) ss (K, st1, f\<lparr>f_pos := pos\<rparr>) = Done (True, (K', st', f'))"
    using Cons.prems by (auto simp: driver_ops_def split: if_splits)
  with Cons.IH [OF w(2)] show ?case by (simp add: client_call_def)
qed simp

lemma serve_line_alone:
  assumes "serve_line (driver_ops o1 split) (K, st, f) s = Done (Ret (lines, (K', st', f')))"
  shows "\<exists>r n c'. line_request split s = Done r \<and> run_client n K st (new_client st r) = Done (st', c') \<and>
    phase c' = Closed \<and> reply c' = concat lines \<and> cfile c' = f' \<and> K' = K"
proof -
  let ?ops = "driver_ops o1 split"
  define f0 where "f0 = snd (aesd_open 0 \<lparr>i_cdev = dev_addr st\<rparr> \<lparr>private_data = 0, f_pos = 0\<rparr>)"
  have op: "d_open ?ops (K, st, f) = Some (K, st, f0)"
    by (simp add: driver_ops_def aesd_open_def f0_def)
  have nc: "new_client st r = \<lparr>phase = start_phase r, cfile = f0, reply = []\<rparr>" for r
    by (simp add: new_client_def f0_def)
  obtain K1 st1 f1 got where app: "appendToFile ?ops (Some (K, st, f0)) s = Done (Ret (K1, st1, f1))"
    and rd: "d_read ?ops (K1, st1, f1) = Done (got, (K', st', f'))" and lines: "lines = send_lines got"
    using assms op unfolding serve_line_def by (auto simp: run_then_Done)
  have "\<exists>r n. line_request split s = Done r \<and> K1 = K \<and>
      run_client n K st (new_client st r) = Done (st1, \<lparr>phase = Reading, cfile = f1, reply = []\<rparr>)"
  proof (cases "c_strstr s ''AESDCHAR_IOCSEEKTO''")
    case True
    with app obtain cmd off ret where p: "parse_seekto s = Done (cmd, off)" "d_ioctl ?ops (K, st, f0) cmd off = Done (ret, (K1, st1, f1))"
      by (auto simp: appendToFile_def)
    then have "K1 = K" "run_client 1 K st (new_client st (Jump cmd off)) = Done (st1, \<lparr>phase = Reading, cfile = f1, reply = []\<rparr>)"
      by (auto simp: driver_ops_def nc client_call_def)
    then show ?thesis
      using True p(1) by (intro exI [of _ "Jump cmd off"] exI [of _ "1 :: nat"]) (simp add: line_request_def del: run_client.simps)
  next
    case False
    with app obtain st2 f2 K2 where w: "write_chunks ?ops (split s) (K, st, f0) = Done (True, (K2, st2, f2))"
        and sk: "d_rewind ?ops (K2, st2, f2) = Done (K1, st1, f1)"
      by (auto simp: appendToFile_def c_fputs_def driver_ops_def split: if_splits)
    from writing_alone [OF w, of "[]"] have K2: "K2 = K"
      and run: "run_client (length (split s)) K st (new_client st (Put (split s))) = Done (st2, \<lparr>phase = Writing [], cfile = f2, reply = []\<rparr>)"
      by (simp_all add: nc)
    have "K1 = K" "run_client 1 K st2 \<lparr>phase = Writing [], cfile = f2, reply = []\<rparr> = Done (st1, \<lparr>phase = Reading, cfile = f1, reply = []\<rparr>)"
      using sk K2 by (auto simp: driver_ops_def client_call_def)
    then have "K1 = K \<and> run_client (length (split s) + 1) K st (new_client st (Put (split s))) = Done (st1, \<lparr>phase = Reading, cfile = f1, reply = []\<rparr>)"
      using run_client_add [OF run, of 1] by simp
    then show ?thesis
      using False by (intro exI [of _ "Put (split s)"] exI [of _ "length (split s) + 1"]) (simp add: line_request_def del: run_client.simps)
  qed
  then obtain r n where r: "line_request split s = Done r" "K1 = K"
      "run_client n K st (new_client st r) = Done (st1, \<lparr>phase = Reading, cfile = f1, reply = []\<rparr>)" by blast
  obtain pos where e: "read_until_eof (Suc (length (content (absdev st1)))) K st1 f1 4096 (f_pos f1) = Done (got, pos, st')"
      "K' = K" "f' = f1\<lparr>f_pos := pos\<rparr>"
    using rd r(2) by (auto simp: driver_ops_def simp del: read_until_eof.simps)
  from reading_alone [OF e(1), of "[]"] obtain m where
    "run_client m K st1 \<lparr>phase = Reading, cfile = f1, reply = []\<rparr> = Done (st', \<lparr>phase = Closed, cfile = f', reply = got\<rparr>)"
    using e(3) by auto
  then have "run_client (n + m) K st (new_client st r) = Done (st', \<lparr>phase = Closed, cfile = f', reply = got\<rparr>)"
    using run_client_add [OF r(3), of m] by simp
  then show ?thesis
    using r(1) e(2) lines send_lines_concat by (intro exI [of _ r] exI [of _ "n + m"]) simp
qed

text \<open>The reference kernel has memory for the first four writes.\<close>

definition blocks_used :: "kstate \<Rightarrow> nat" where
  "blocks_used st = card (dom (heap st) \<inter> {4096, 8192, 12288, 16384})"

lemma fresh_ptr_few:
  assumes "blocks_used st < 4"
  shows "fresh_ptr (heap st) \<noteq> 0"
proof
  assume "fresh_ptr (heap st) = 0"
  then have "dom (heap st) \<inter> {4096, 8192, 12288, 16384} = {4096, 8192, 12288, 16384}"
    by (auto simp: fresh_ptr_def split: if_splits)
  with assms show False by (simp add: blocks_used_def)
qed

lemma ref_steady: "steady ref_kernel"
  by (simp add: steady_def ref_kernel_ok ref_copies_all ref_select)

lemma ref_write_call:
  assumes st: "dev_inv st" "file_ok st c" "phase c = Writing (s # ss)" "length (a_pend (absdev st)) + length s < 2 ^ 31"
    and few: "blocks_used st < 4"
  shows "\<exists>st'. client_call ref_kernel st c = Done (st', c\<lparr>phase := Writing ss\<rparr>) \<and> dev_inv st' \<and>
    absdev st' = dev_append (absdev st) s \<and> dev_addr st' = dev_addr st \<and>
    blocks_used st' \<le> Suc (blocks_used st)"
proof -
  let ?n = "of_nat (length s) :: u64" and ?e = "dev_entry (aesd_device st)"
  note good = good_client [OF ref_steady st(1,2)]
  note g = good_ready [OF good]
  have wf: "dev_wf st" using st(1) by (simp add: dev_inv_def)
  have n: "length s = unat ?n" "unat ?n < 2 ^ 31"
    using st(4) by (simp_all add: unat_of_nat)
  have "length (a_pend (absdev st)) = unat (esize ?e)"
    using wf by (simp add: absdev_def dev_wf_def length_entry_bytes)
  then have size: "unat (esize ?e + ?n) < 2 ^ 31"
    using st(4) n by (simp add: unat_add_small)
  obtain q h1 where grow: "krealloc ref_kernel (heap st) (pend_ptr st) (esize ?e + ?n) = (q, h1)"
    by fastforce
  have q: "q \<noteq> 0"
    using grow size fresh_ptr_few [OF few]
    by (auto simp: ref_select ref_krealloc_def Let_def ZERO_SIZE_PTR_def split: if_splits)
  obtain st' where st': "aesd_write ref_kernel st (cfile c) s ?n (f_pos (cfile c)) = Done (?n, f_pos (cfile c), st')"
    "dev_inv st'" "absdev st' = dev_append (absdev st) s" "dev_addr st' = dev_addr st"
    "dom (heap st') = (dom (heap st) - {pend_ptr st}) \<union> (if q = ZERO_SIZE_PTR then {} else {q})"
    using write_refines [OF g(1,2) ref_laws(1,6,3) n grow q, of "f_pos (cfile c)"] n(1)
    by (metis ref_select(3) fst_conv diff_zero order_refl take_all)
  let ?F = "{4096, 8192, 12288, 16384 :: ptr}"
  have "blocks_used st' \<le> card (insert q (dom (heap st) \<inter> ?F))"
    unfolding blocks_used_def st'(5) by (intro card_mono) auto
  also have "\<dots> \<le> Suc (blocks_used st)"
    by (simp add: blocks_used_def card_insert_if)
  finally have "blocks_used st' \<le> Suc (blocks_used st)" .
  then show ?thesis
    using st' st(3) by (simp add: client_call_def)
qed


end
