(* ===== verification/Concurrent_Properties.thy ===== *)
theory Concurrent_Properties
  imports Concurrent_Clients
begin

text \<open>
  The properties of several clients of the server against one device: what a reply is made of, while
  nothing is evicted and when the reads race with evictions; every request ends; and lines longer than
  the stream's buffer can be torn apart.
\<close>

section \<open>One thread alone\<close>

text \<open>the calls of a thread are what the server's code makes of its line: if serving the line on the
  device returns, the calls of \<open>client_call\<close> in a row leave the same device and file and send the same
  bytes.\<close>

theorem client_is_serve_line:
  assumes "serve_line (driver_ops off split) (K, st, f) s = Done (Ret (lines, (K', st', f')))"
  shows "\<exists>r n c'. line_request split s = Done r \<and> run_client n K st (new_client st r) = Done (st', c') \<and>
    phase c' = Closed \<and> reply c' = concat lines \<and> cfile c' = f'"
  using serve_line_alone [OF assms] by blast

theorem client_is_serve_line_witness:
  "\<exists>n st' c'. run_client n ref_kernel loaded (new_client loaded (Put [''hey'' @ [newline]])) = Done (st', c') \<and>
     phase c' = Closed \<and> reply c' = ''hey'' @ [newline]"
proof -
  let ?w = "''hey'' @ [newline]" and ?split = "\<lambda>s :: string. [s]"
  have good: "dev_good (ref_kernel, loaded, ref_file)"
    by (simp add: dev_good_def ref_steady loaded_inv ref_file_def loaded_simps(2))
  have plain: "\<not> c_strstr ?w ''AESDCHAR_IOCSEEKTO''" and nl: "newline \<notin> set (butlast ?w)"
    by (simp_all add: newline_def)
  have sp: "d_split (driver_ops 0 ?split) = ?split" by (simp add: driver_ops_def)
  have room: "rooms (driver_ops 0 ?split) dev_room d [?w]"
    if "d_open (driver_ops 0 ?split) (ref_kernel, loaded, ref_file) = Some d" for d
    using that by (auto simp: driver_ops_def dev_room_def ref_select loaded_simps pend_ptr_def zero_dev_def
        zero_entry_def ref_krealloc_def fresh_ptr_def Let_def)
  have whole: "content (dev_append (absdev loaded) ?w) = ?w"
    by (simp add: loaded_inv(2) dev_append_def content_def)
  obtain d where s: "serve_line (driver_ops 0 ?split) (ref_kernel, loaded, ref_file) ?w = Done (Ret (send_lines ?w, d))"
    using driver.serve_line_appends [OF good plain, of 0 ?split, unfolded sp] nl room whole
    by (auto simp: dev_view_def)
  obtain K' st' f' where d: "d = (K', st', f')" by (cases d)
  from client_is_serve_line [OF s [unfolded d]] plain send_lines_concat [of ?w] show ?thesis
    by (auto simp: line_request_def)
qed

section \<open>Replies\<close>

text \<open>C20: threads in \<open>receive_data\<close> with their system calls interleaved in any way, with any lines and seek
  commands. Every reply is made of pieces that were read one after the other, each from the content
  of its own moment and at the offset of what came before, after the thread's own writes or from where
  its seek command took it; it ends where the content of a last moment ended.\<close>

theorem replies_with_evictions:
  assumes "interleaved st0 reqs writes st cs" and "dev_inv st0" and "\<forall>r \<in> set reqs. small_request r"
    and "i < length reqs" and "phase (cs ! i) = Closed"
  shows "dev_inv st \<and> absdev st = log_at st0 writes (length writes) \<and>
    (\<exists>k0 p k k1. begun st0 (reqs ! i) writes i k0 p \<and> reads (log_at st0 writes) k0 p (reply (cs ! i)) k \<and>
      k \<le> k1 \<and> k1 \<le> length writes \<and> length (content (log_at st0 writes k1)) \<le> p + length (reply (cs ! i)))"
proof -
  have inv: "all_answered st0 reqs writes st cs"
    using assms(1-3) by (rule interleaved_answered)
  then have "answered st0 (reqs ! i) writes i (cs ! i)"
    using assms(4) by (simp add: all_answered_def)
  with inv assms(5) show ?thesis
    by (simp add: all_answered_def answered_def)
qed

text \<open>While nothing is evicted the content only grows, and the pieces of a reply are those of one moment.\<close>

lemma roomy_replies:
  assumes "interleaved st0 (map (\<lambda>l. Put [l]) lines) writes st cs" and "dev_inv st0" and "a_pend (absdev st0) = []"
    and "\<forall>l \<in> set lines. newline \<in> set l \<and> length l < 2 ^ 31"
    and "length (a_cmds (absdev st0)) + length lines \<le> 10"
  shows "\<exists>order. distinct order \<and> set order \<subseteq> {..<length lines} \<and> order = map fst writes \<and>
    absdev st = \<lparr>a_cmds = a_cmds (absdev st0) @ map ((!) lines) order, a_pend = []\<rparr> \<and>
    (\<forall>i < length lines. phase (cs ! i) = Closed \<longrightarrow>
       (\<exists>k. i \<in> set (take k order) \<and> reply (cs ! i) = concat (a_cmds (absdev st0) @ map ((!) lines) (take k order))))"
proof -
  let ?reqs = "map (\<lambda>l. Put [l]) lines"
  have small: "\<forall>r \<in> set ?reqs. small_request r" using assms(4) by (auto simp: small_request_def)
  have inv: "all_answered st0 ?reqs writes st cs"
    by (rule interleaved_answered [OF assms(1,2) small])
  note log = lines_log [OF inv]
  have snds: "map snd (take k writes) = map ((!) lines) (take k (map fst writes))" for k
  proof -
    have "\<forall>w \<in> set (take k writes). snd w = lines ! fst w" using log(2) by (fastforce dest: in_set_takeD)
    then show ?thesis by (simp add: take_map)
  qed
  have nl: "\<forall>w \<in> set writes. newline \<in> set (snd w)" using log(2) assms(4) by (auto simp: case_prod_beta)
  have at: "k \<le> length writes \<Longrightarrow> log_at st0 writes k =
      \<lparr>a_cmds = a_cmds (absdev st0) @ map ((!) lines) (take k (map fst writes)), a_pend = []\<rparr>" for k
    using log_at_roomy [OF assms(3) nl] log(3) assms(5) snds by simp
  have grow: "\<exists>more. content (log_at st0 writes j') = content (log_at st0 writes j) @ more"
    if "j \<le> j'" "j' \<le> length writes" for j j'
  proof -
    have "take j' (map fst writes) = take j (map fst writes) @ take (j' - j) (drop j (map fst writes))"
      using that(1) by (metis le_add_diff_inverse take_add)
    then show ?thesis using at [of j] at [of j'] that by (simp add: content_def)
  qed
  have "absdev st = \<lparr>a_cmds = a_cmds (absdev st0) @ map ((!) lines) (map fst writes), a_pend = []\<rparr>"
    using inv at [of "length writes"] by (simp add: all_answered_def)
  moreover have "\<exists>k. i \<in> set (take k (map fst writes)) \<and>
      reply (cs ! i) = concat (a_cmds (absdev st0) @ map ((!) lines) (take k (map fst writes)))"
    if i: "i < length lines" "phase (cs ! i) = Closed" for i
  proof -
    have "answered st0 (Put [lines ! i]) writes i (cs ! i)" using inv i(1) by (simp add: all_answered_def)
    then obtain k0 k k1 where b: "own i (take k0 writes) = [lines ! i]" and rd: "reads (log_at st0 writes) k0 0 (reply (cs ! i)) k"
      and k: "k \<le> k1" "k1 \<le> length writes" and e: "length (content (log_at st0 writes k1)) \<le> length (reply (cs ! i))"
      using i(2) by (auto simp: answered_def begun_def)
    obtain r1 where "content (log_at st0 writes k) = reply (cs ! i) @ r1"
      using reads_growing [OF rd, of "length writes"] grow k by auto
    moreover obtain r2 where "content (log_at st0 writes k1) = content (log_at st0 writes k) @ r2"
      using grow [OF k] by blast
    ultimately have "reply (cs ! i) = content (log_at st0 writes k1)" using e by simp
    then have "reply (cs ! i) = concat (a_cmds (absdev st0) @ map ((!) lines) (take k1 (map fst writes)))"
      using at [OF k(2)] by (simp add: content_def)
    moreover have "i \<in> set (take k1 (map fst writes))"
    proof -
      have "i \<in> fst ` set (take k0 writes)" using b by (force simp: own_def filter_eq_Cons_iff)
      moreover have "k0 \<le> k1" using reads_later [OF rd] k(1) by simp
      ultimately show ?thesis using set_take_subset_set_take [of k0 k1 writes] by (auto simp: take_map)
    qed
    ultimately show ?thesis by blast
  qed
  ultimately show ?thesis using log(1,2) by (intro exI [of _ "map fst writes"]) auto
qed

text \<open>C18: threads whose lines each fit the stream's buffer, on a device that has room for all of them, with
  their system calls interleaved in any way: the device holds the lines in the order of the writes,
  and a thread that is done has sent back exactly what the device held after some number of the
  writes that includes its own.\<close>

theorem concurrent_replies:
  assumes "interleaved st0 (map (\<lambda>l. Put [l]) lines) writes st cs" and "dev_inv st0" and "a_pend (absdev st0) = []"
    and "\<forall>l \<in> set lines. newline \<in> set l \<and> length l < 2 ^ 31"
    and "length (a_cmds (absdev st0)) + length lines \<le> 10"
  shows "\<exists>order. distinct order \<and> set order \<subseteq> {..<length lines} \<and> order = map fst writes \<and>
    absdev st = \<lparr>a_cmds = a_cmds (absdev st0) @ map ((!) lines) order, a_pend = []\<rparr> \<and>
    (\<forall>i < length lines. phase (cs ! i) = Closed \<longrightarrow>
       (\<exists>k. i \<in> set (take k order) \<and> reply (cs ! i) = concat (a_cmds (absdev st0) @ map ((!) lines) (take k order))))"
  using assms by (rule roomy_replies)

text \<open>Steps that exist on the reference kernel.\<close>

definition few_blocks :: "nat \<Rightarrow> kstate \<Rightarrow> bool" where
  "few_blocks n st \<longleftrightarrow> dev_inv st \<and> dev_addr st = dev_addr loaded \<and> blocks_used st \<le> n"

lemma few_blocks_loaded: "few_blocks 0 loaded"
  by (simp add: few_blocks_def loaded_inv loaded_simps blocks_used_def)

lemma ref_write_step:
  assumes r: "interleaved st0 reqs writes st cs" and i: "i < length cs" "phase (cs ! i) = Writing (s # ss)"
    and f: "file_ok loaded (cs ! i)" and st: "few_blocks n st" "n < 4" "length (a_pend (absdev st)) + length s < 2 ^ 31"
  shows "\<exists>st'. interleaved st0 reqs (writes @ [(i, s)]) st' (cs[i := (cs ! i)\<lparr>phase := Writing ss\<rparr>]) \<and>
    few_blocks (Suc n) st' \<and> absdev st' = dev_append (absdev st) s"
proof -
  have "file_ok st (cs ! i)" "dev_inv st" "blocks_used st < 4"
    using f st by (auto simp: file_ok_def few_blocks_def)
  then obtain st' where st': "client_call ref_kernel st (cs ! i) = Done (st', (cs ! i)\<lparr>phase := Writing ss\<rparr>)" "dev_inv st'"
    "absdev st' = dev_append (absdev st) s" "dev_addr st' = dev_addr st" "blocks_used st' \<le> Suc (blocks_used st)"
    using ref_write_call [OF _ _ i(2) st(3)] by blast
  with interleaved.call [OF r i(1) ref_steady st'(1)] i(2) st(1) show ?thesis
    by (auto simp: few_blocks_def)
qed

lemma reading_to_end:
  assumes "interleaved st0 reqs writes st cs" and "i < length cs" and "phase (cs ! i) = Reading" and "steady K"
    and "dev_inv st" and "file_ok st (cs ! i)"
  shows "\<exists>c'. interleaved st0 reqs writes st (cs[i := c']) \<and> phase c' = Closed \<and>
    reply c' = reply (cs ! i) @ drop (unat (f_pos (cfile (cs ! i)))) (content (absdev st))"
  using assms
proof (induction "calls_left (cs ! i)" arbitrary: cs rule: less_induct)
  case less
  let ?c = "cs ! i"
  note step = interleaved.call [OF less.prems(1,2,4)]
  from client_read [OF less.prems(4-6,3)] show ?case
  proof (elim disjE conjE exE)
    assume "client_call K st ?c = Done (st, ?c\<lparr>phase := Closed, cfile := (cfile ?c)\<lparr>f_pos := 0\<rparr>\<rparr>)"
      and "length (content (absdev st)) \<le> unat (f_pos (cfile ?c))"
    with step [OF this(1)] less.prems(3) show ?thesis by auto
  next
    fix pos bs
    let ?c' = "?c\<lparr>cfile := (cfile ?c)\<lparr>f_pos := pos\<rparr>, reply := reply ?c @ bs\<rparr>"
    assume call: "client_call K st ?c = Done (st, ?c')" and bs: "bs \<noteq> []"
      and part: "drop (unat (f_pos (cfile ?c))) (content (absdev st)) = bs @ drop (unat pos) (content (absdev st))"
    have next_state: "interleaved st0 reqs writes st (cs[i := ?c'])"
      using step [OF call] less.prems(3) by simp
    have "calls_left ?c' < calls_left ?c"
      using call_progress [OF less.prems(4-6)] less.prems(3) call by (auto simp: no_memory_def)
    then have "\<exists>c'. interleaved st0 reqs writes st (cs[i := ?c', i := c']) \<and> phase c' = Closed \<and>
        reply c' = (reply ?c @ bs) @ drop (unat pos) (content (absdev st))"
      using less.hyps [of "cs[i := ?c']"] next_state less.prems by (simp add: file_ok_def)
    with part show ?thesis by simp
  qed
qed

lemma rewind_step:
  assumes "interleaved st0 reqs writes st cs" and "i < length cs" and "phase (cs ! i) = Writing []" and "steady K"
    and "dev_inv st" and "file_ok st (cs ! i)"
  shows "interleaved st0 reqs writes st (cs[i := (cs ! i)\<lparr>phase := Reading, cfile := (cfile (cs ! i))\<lparr>f_pos := 0\<rparr>\<rparr>])"
  using interleaved.call [OF assms(1,2,4) client_rewind [OF assms(4-6,3)]] assms(3) by simp

lemma two_lines_run:
  "\<exists>st c w. interleaved loaded [Put [[CHR ''a'', newline]], Put [[CHR ''b'', newline]]]
      [(1, [CHR ''b'', newline]), (0, [CHR ''a'', newline])] st [c, w] \<and> phase c = Closed"
proof -
  let ?a = "[CHR ''a'', newline]" and ?b = "[CHR ''b'', newline]"
  let ?reqs = "map (\<lambda>l. Put [l]) [?a, ?b]" and ?c = "\<lambda>l. new_client loaded (Put [l])"
  let ?w = "\<lambda>l. (?c l)\<lparr>phase := Writing []\<rparr>"
  have p: "phase (?c l) = Writing [l]" "reply (?c l) = []" "file_ok loaded (?c l)" for l
    using new_client_ok [of loaded "Put [l]"] by simp_all (simp_all add: new_client_def)
  have r0: "interleaved loaded ?reqs [] loaded [?c ?a, ?c ?b]"
    using interleaved.start [of loaded ?reqs] by simp
  obtain s1 where s1: "interleaved loaded ?reqs [(1, ?b)] s1 [?c ?a, ?w ?b]" "few_blocks 1 s1"
      "absdev s1 = dev_append (absdev loaded) ?b"
    using ref_write_step [OF r0, of 1 ?b "[]" 0] p few_blocks_loaded by (auto simp: loaded_inv)
  obtain s2 where s2: "interleaved loaded ?reqs [(1, ?b), (0, ?a)] s2 [?w ?a, ?w ?b]" "few_blocks (Suc 1) s2"
    using ref_write_step [OF s1(1), of 0 ?a "[]" 1] p s1(2,3) by (auto simp: loaded_inv dev_append_def)
  then have st: "dev_inv s2" "file_ok s2 (?w ?a)"
    using p(3) by (auto simp: few_blocks_def file_ok_def)
  have s3: "interleaved loaded ?reqs [(1, ?b), (0, ?a)] s2
      [(?w ?a)\<lparr>phase := Reading, cfile := (cfile (?w ?a))\<lparr>f_pos := 0\<rparr>\<rparr>, ?w ?b]"
    using rewind_step [OF s2(1), of 0] ref_steady st by simp
  obtain c' where c': "interleaved loaded ?reqs [(1, ?b), (0, ?a)] s2 [c', ?w ?b]" "phase c' = Closed"
    using reading_to_end [OF s3, of 0] st ref_steady by (auto simp: file_ok_def)
  then show ?thesis by auto
qed

theorem concurrent_replies_witness:
  "\<exists>st cs. interleaved loaded [Put [[CHR ''a'', newline]], Put [[CHR ''b'', newline]]]
      [(1, [CHR ''b'', newline]), (0, [CHR ''a'', newline])] st cs \<and>
    phase (cs ! 0) = Closed \<and> reply (cs ! 0) = [CHR ''b'', newline, CHR ''a'', newline]"
proof -
  let ?a = "[CHR ''a'', newline]" and ?b = "[CHR ''b'', newline]"
  obtain st c w where c: "interleaved loaded (map (\<lambda>l. Put [l]) [?a, ?b]) [(1, ?b), (0, ?a)] st [c, w]" "phase c = Closed"
    using two_lines_run by auto
  then have "\<exists>k. 0 \<in> set (take k [Suc 0, 0]) \<and> reply c = concat (map ((!) [?a, ?b]) (take k [Suc 0, 0]))"
    using concurrent_replies [OF c(1) loaded_inv(1)] by (auto simp: loaded_inv dest!: spec [of _ "0 :: nat"])
  then have "reply c = [CHR ''b'', newline, CHR ''a'', newline]"
    by (auto simp: take_Cons' split: if_splits)
  with c show ?thesis by (intro exI [of _ st] exI [of _ "[c, w]"]) simp
qed

text \<open>C19: in every interleaving, the next call of a thread that is not done returns, unless a write finds no
  memory, and leaves it fewer calls to make, whatever is evicted: every request comes to its end.\<close>

theorem concurrent_progress:
  assumes "interleaved st0 reqs writes st cs" and "dev_inv st0" and "\<forall>r \<in> set reqs. small_request r"
    and "i < length reqs" and "phase (cs ! i) \<noteq> Closed" and "steady K" and "\<not> no_memory K st (cs ! i)"
  shows "\<exists>st' c'. client_call K st (cs ! i) = Done (st', c') \<and> calls_left c' < calls_left (cs ! i)"
proof -
  have inv: "all_answered st0 reqs writes st cs"
    using assms(1-3) by (rule interleaved_answered)
  then have st: "dev_inv st" "file_ok st (cs ! i)" and ans: "answered st0 (reqs ! i) writes i (cs ! i)"
    using assms(4) by (simp_all add: all_answered_def file_ok_def)
  have "small_request (reqs ! i)" using assms(3,4) by simp
  then have "\<forall>s ss. phase (cs ! i) = Writing (s # ss) \<longrightarrow> length s < 2 ^ 31"
    using ans by (auto simp: answered_def small_request_def)
  then show ?thesis
    using call_progress [OF assms(6) st assms(5) _ assms(7)] by blast
qed

theorem concurrent_progress_witness:
  "\<exists>st' c'. client_call ref_kernel loaded (new_client loaded (Put [[newline]])) = Done (st', c') \<and>
     calls_left c' < calls_left (new_client loaded (Put [[newline]]))"
  using concurrent_progress [OF interleaved.start [of loaded "[Put [[newline]]]"] loaded_inv(1), of 0 ref_kernel]
  by (simp add: small_request_def ref_steady new_client_def no_memory_def loaded_simps ref_select ref_krealloc_def
      zero_dev_def zero_entry_def pend_ptr_def fresh_ptr_def)

section \<open>Evictions\<close>

lemma evicting_append:
  "a_cmds a = c0 # cs \<Longrightarrow> length cs = 9 \<Longrightarrow> a_pend a = [] \<Longrightarrow> newline \<in> set l \<Longrightarrow>
    dev_append a l = \<lparr>a_cmds = cs @ [l], a_pend = []\<rparr>"
  by (simp add: dev_append_def lastn_def)

text \<open>A full device on which one client has just read the oldest command.\<close>

lemma eviction_run:
  defines "st0 \<equiv> ten_dev (map (\<lambda>x. [x, newline]) ''abcdefghij'')" and "reqs \<equiv> [Put [''k'' @ [newline]], Put [''l'' @ [newline]]]"
  shows "\<exists>st c. interleaved st0 reqs [(0, ''k'' @ [newline])] st [c, new_client st0 (Put [''l'' @ [newline]])] \<and>
    phase c = Reading \<and> unat (f_pos (cfile c)) = 2 \<and> reply c = ''b'' @ [newline] \<and> file_ok loaded c \<and> few_blocks 1 st \<and>
    absdev st = \<lparr>a_cmds = map (\<lambda>x. [x, newline]) ''bcdefghijk'', a_pend = []\<rparr>"
proof -
  let ?k = "''k'' @ [newline]" and ?d = "new_client st0 (Put [''l'' @ [newline]])"
  have ten: "ten_lines (map (\<lambda>x. [x, newline]) ''abcdefghij'')" by (simp add: ten_lines_def)
  have few: "few_blocks 0 st0"
    using ten_dev_inv [OF ten] by (simp add: st0_def few_blocks_def ten_dev_simps loaded_simps blocks_used_def ten_ptrs_eq dom_map_of_zip)
  have abs0: "absdev st0 = \<lparr>a_cmds = map (\<lambda>x. [x, newline]) ''abcdefghij'', a_pend = []\<rparr>"
    unfolding st0_def by (rule ten_dev_cmds [OF ten])
  have p: "phase (new_client st0 (Put [l])) = Writing [l]" "file_ok loaded ((new_client st0 r)\<lparr>phase := q\<rparr>)" for l r q
    using new_client_ok [of st0 r] few by (auto simp: few_blocks_def file_ok_def new_client_def)
  have p2: "file_ok loaded (new_client st0 r)" for r
    using new_client_ok [of st0 r] few by (auto simp: few_blocks_def file_ok_def)
  have r0: "interleaved st0 reqs [] st0 [new_client st0 (Put [?k]), ?d]"
    using interleaved.start [of st0 reqs] by (simp add: reqs_def)
  let ?w = "(new_client st0 (Put [?k]))\<lparr>phase := Writing []\<rparr>"
  obtain s1 where s1: "interleaved st0 reqs [(0, ?k)] s1 [?w, ?d]" "few_blocks (Suc 0) s1" "absdev s1 = dev_append (absdev st0) ?k"
    using ref_write_step [OF r0, of 0 ?k "[]" 0] p p2 few abs0 by auto
  have dev: "absdev s1 = \<lparr>a_cmds = map (\<lambda>x. [x, newline]) ''bcdefghijk'', a_pend = []\<rparr>"
    by (simp add: s1(3) abs0 dev_append_def lastn_def)
  have st: "dev_inv s1" "file_ok s1 ?w"
    using s1(2) p(2) by (auto simp: few_blocks_def file_ok_def)
  let ?r = "?w\<lparr>phase := Reading, cfile := (cfile ?w)\<lparr>f_pos := 0\<rparr>\<rparr>"
  have s2: "interleaved st0 reqs [(0, ?k)] s1 [?r, ?d]"
    using rewind_step [OF s1(1), of 0] ref_steady st by simp
  have "seek_entry (map length (a_cmds (absdev s1))) (unat (f_pos (cfile ?r))) = Some (0, 0)"
    by (simp add: dev)
  from client_read_hit [OF ref_steady st(1) _ _ this] st(2)
  have "client_call ref_kernel s1 ?r = Done (s1, ?r\<lparr>cfile := (cfile ?r)\<lparr>f_pos := 2\<rparr>, reply := reply ?r @ ''b'' @ [newline]\<rparr>)"
    by (simp add: file_ok_def dev)
  from interleaved.call [OF s2 _ ref_steady, of 0] this
  have "interleaved st0 reqs [(0, ?k)] s1 [?r\<lparr>cfile := (cfile ?r)\<lparr>f_pos := 2\<rparr>, reply := reply ?r @ ''b'' @ [newline]\<rparr>, ?d]"
    by auto
  then show ?thesis
    using s1(2) dev p2
    by (intro exI [of _ s1] exI [of _ "?r\<lparr>cfile := (cfile ?r)\<lparr>f_pos := 2\<rparr>, reply := reply ?r @ ''b'' @ [newline]\<rparr>"])
      (simp add: file_ok_def new_client_def)
qed

theorem replies_with_evictions_witness:
  "\<exists>st cs k0 p k. interleaved (ten_dev (map (\<lambda>x. [x, newline]) ''abcdefghij''))
      [Put [''k'' @ [newline]], Put [''l'' @ [newline]]] [(0, ''k'' @ [newline]), (1, ''l'' @ [newline])] st cs \<and>
    phase (cs ! 0) = Closed \<and>
    reads (log_at (ten_dev (map (\<lambda>x. [x, newline]) ''abcdefghij'')) [(0, ''k'' @ [newline]), (1, ''l'' @ [newline])])
      k0 p (reply (cs ! 0)) k"
proof -
  let ?st0 = "ten_dev (map (\<lambda>x. [x, newline]) ''abcdefghij'')" and ?l = "''l'' @ [newline]"
  let ?reqs = "[Put [''k'' @ [newline]], Put [?l]]" and ?d = "new_client ?st0 (Put [?l])"
  let ?ws = "[(0, ''k'' @ [newline]), (1, ?l)]"
  obtain s1 c where s1: "interleaved ?st0 ?reqs [(0, ''k'' @ [newline])] s1 [c, ?d]" "phase c = Reading" "few_blocks 1 s1"
      "file_ok loaded c" "a_pend (absdev s1) = []"
    using eviction_run by auto
  have inv: "dev_inv ?st0" by (rule ten_dev_inv) (simp add: ten_lines_def)
  have "file_ok loaded ?d" "phase ?d = Writing [?l]"
    by (simp_all add: file_ok_def new_client_def aesd_open_def ten_dev_simps loaded_simps)
  then obtain s2 d where s2: "interleaved ?st0 ?reqs ?ws s2 [c, d]" "few_blocks (Suc 1) s2"
    using ref_write_step [OF s1(1), of 1 ?l "[]" 1] s1(3,5) by auto
  then obtain c' where c': "interleaved ?st0 ?reqs ?ws s2 [c', d]" "phase c' = Closed"
    using reading_to_end [OF s2(1), of 0 ref_kernel] s1(2,4) ref_steady by (auto simp: few_blocks_def file_ok_def)
  moreover obtain k0 p k where "reads (log_at ?st0 ?ws) k0 p (reply c') k"
    using replies_with_evictions [OF c'(1) inv, of 0] c'(2) by (auto simp: small_request_def)
  ultimately show ?thesis
    by (intro exI [of _ s2] exI [of _ "[c', d]"]) auto
qed

text \<open>C21: a client whose replies race with an eviction misses a command: it has read the oldest command of a
  full device when another client's line evicts it; it goes on at the same offset, and skips the next
  command, which the device still holds.\<close>

theorem eviction_skips_command:
  assumes "interleaved st0 reqs writes st cs" and "dev_inv st0" and "\<forall>r \<in> set reqs. small_request r"
    and "i < length cs" "phase (cs ! i) = Reading" "unat (f_pos (cfile (cs ! i))) = length c0"
    and "a_cmds (absdev st) = c0 # c1 # rest" "length rest = 8" "a_pend (absdev st) = []" "length c1 = length c0"
    and "j < length cs" "phase (cs ! j) = Writing [l]" "newline \<in> set l" "steady K" "\<not> no_memory K st (cs ! j)"
  shows "\<exists>st' cs'. interleaved st0 reqs (writes @ [(j, l)]) st' cs' \<and> a_cmds (absdev st') = c1 # rest @ [l] \<and>
    phase (cs' ! i) = Closed \<and> reply (cs' ! i) = reply (cs ! i) @ concat (rest @ [l])"
proof -
  have inv: "all_answered st0 reqs writes st cs"
    using assms(1-3) by (rule interleaved_answered)
  have ne: "i \<noteq> j" using assms(5,12) by auto
  have st: "dev_inv st" "file_ok st (cs ! j)" "file_ok st (cs ! i)" and ans: "answered st0 (reqs ! j) writes j (cs ! j)"
    and "reqs ! j \<in> set reqs"
    using inv assms(4,11) by (simp_all add: all_answered_def file_ok_def)
  then have len: "length l < 2 ^ 31"
    using assms(3,12) by (fastforce simp: answered_def small_request_def)
  obtain st1 where call: "client_call K st (cs ! j) = Done (st1, (cs ! j)\<lparr>phase := Writing []\<rparr>)"
    using client_write_returns [OF assms(14) st(1,2) assms(12) len assms(15)] by blast
  note w = client_write [OF assms(14) st(1,2) assms(12) len call]
  let ?cs = "cs[j := (cs ! j)\<lparr>phase := Writing []\<rparr>]"
  have step: "interleaved st0 reqs (writes @ [(j, l)]) st1 ?cs"
    using interleaved.call [OF assms(1,11,14) call] assms(12) by simp
  have dev: "absdev st1 = \<lparr>a_cmds = c1 # rest @ [l], a_pend = []\<rparr>"
    using evicting_append [OF assms(7) _ assms(9,13)] assms(8) w(2) by simp
  have "file_ok st1 (?cs ! i)" and same: "?cs ! i = cs ! i"
    using st(3) w(3) ne by (simp_all add: file_ok_def)
  then obtain c' where c': "interleaved st0 reqs (writes @ [(j, l)]) st1 (?cs[i := c'])" "phase c' = Closed"
      "reply c' = reply (cs ! i) @ drop (length c0) (content (absdev st1))"
    using reading_to_end [OF step, of i K] assms(4-6,14) w(1) by auto
  moreover have "drop (length c0) (content (absdev st1)) = concat (rest @ [l])"
    using assms(10) by (simp add: dev content_def)
  ultimately show ?thesis
    using assms(4) dev by (intro exI [of _ st1] exI [of _ "?cs[i := c']"]) simp
qed

theorem eviction_skips_command_witness:
  "\<exists>st cs. interleaved (ten_dev (map (\<lambda>x. [x, newline]) ''abcdefghij''))
      [Put [''k'' @ [newline]], Put [''l'' @ [newline]]] [(0, ''k'' @ [newline]), (1, ''l'' @ [newline])] st cs \<and>
    a_cmds (absdev st) = map (\<lambda>x. [x, newline]) ''cdefghijkl'' \<and> phase (cs ! 0) = Closed \<and>
    reply (cs ! 0) = concat (map (\<lambda>x. [x, newline]) ''bdefghijkl'')"
proof -
  let ?st0 = "ten_dev (map (\<lambda>x. [x, newline]) ''abcdefghij'')" and ?l = "''l'' @ [newline]"
  let ?reqs = "[Put [''k'' @ [newline]], Put [?l]]" and ?d = "new_client ?st0 (Put [?l])"
  obtain st c where r: "interleaved ?st0 ?reqs [(0, ''k'' @ [newline])] st [c, ?d]" "phase c = Reading"
      "unat (f_pos (cfile c)) = 2" "reply c = ''b'' @ [newline]" "few_blocks 1 st" "file_ok loaded c"
      "absdev st = \<lparr>a_cmds = map (\<lambda>x. [x, newline]) ''bcdefghijk'', a_pend = []\<rparr>"
    using eviction_run by blast
  have inv: "dev_inv ?st0" by (rule ten_dev_inv) (simp add: ten_lines_def)
  have d: "phase ?d = Writing [?l]" by (simp add: new_client_def)
  have "fresh_ptr (heap st) \<noteq> 0" by (rule fresh_ptr_few) (use r(5) in \<open>simp add: few_blocks_def\<close>)
  moreover have "esize (dev_entry (aesd_device st)) = 0"
  proof -
    have "dev_wf st" using r(5) by (simp add: few_blocks_def dev_inv_def)
    then have "unat (esize (dev_entry (aesd_device st))) = length (a_pend (absdev st))"
      by (simp add: absdev_def dev_wf_def length_entry_bytes)
    then show ?thesis by (simp add: r(7) unat_eq_zero)
  qed
  ultimately have "\<not> no_memory ref_kernel st ?d"
    using d by (auto simp: no_memory_def ref_select ref_krealloc_def Let_def ZERO_SIZE_PTR_def)
  then have "\<exists>st' cs'. interleaved ?st0 ?reqs ([(0, ''k'' @ [newline])] @ [(1, ?l)]) st' cs' \<and>
      a_cmds (absdev st') = [CHR ''c'', newline] # map (\<lambda>x. [x, newline]) ''defghijk'' @ [?l] \<and> phase (cs' ! 0) = Closed \<and>
      reply (cs' ! 0) = reply c @ concat (map (\<lambda>x. [x, newline]) ''defghijk'' @ [?l])"
    using eviction_skips_command [OF r(1) inv, of 0 "[CHR ''b'', newline]" "[CHR ''c'', newline]"
        "map (\<lambda>x. [x, newline]) ''defghijk''" 1 ?l ref_kernel] r(2,3,7) d
    by (simp add: small_request_def ref_steady)
  then show ?thesis using r(4) by auto
qed

section \<open>Torn lines\<close>

text \<open>lines that stdio hands over in two buffers are not kept together: two clients whose buffers come in
  turns leave a command made of both lines, and the rest of the second line as a command of its own.\<close>

theorem long_lines_mix:
  assumes "newline \<notin> set a" "newline \<in> set b" "newline \<notin> set c" "newline \<in> set d"
    and "length a + length b + length c + length d < 2 ^ 31"
  shows "\<exists>st cs. interleaved loaded [Put [a, b], Put [c, d]] [(0, a), (1, c), (0, b), (1, d)] st cs \<and>
    a_cmds (absdev st) = [a @ c @ b, d]"
proof -
  let ?ch = "[Put [a, b], Put [c, d]]" and ?c = "new_client loaded"
  have p: "phase (?c (Put ss)) = Writing ss" "file_ok loaded (?c r)" "file_ok loaded ((?c r)\<lparr>phase := q\<rparr>)" for ss r q
    using new_client_ok [of loaded r] by (simp_all add: file_ok_def) (simp_all add: new_client_def)
  have r0: "interleaved loaded ?ch [] loaded [?c (Put [a, b]), ?c (Put [c, d])]"
    using interleaved.start [of loaded ?ch] by simp
  obtain s1 where s1: "interleaved loaded ?ch [(0, a)] s1 [(?c (Put [a, b]))\<lparr>phase := Writing [b]\<rparr>, ?c (Put [c, d])]"
      "few_blocks 1 s1" "absdev s1 = \<lparr>a_cmds = [], a_pend = a\<rparr>"
    using ref_write_step [OF r0, of 0 a "[b]" 0] p few_blocks_loaded assms by (auto simp: loaded_inv dev_append_def)
  obtain s2 where s2: "interleaved loaded ?ch [(0, a), (1, c)] s2
      [(?c (Put [a, b]))\<lparr>phase := Writing [b]\<rparr>, (?c (Put [c, d]))\<lparr>phase := Writing [d]\<rparr>]"
      "few_blocks (Suc 1) s2" "absdev s2 = \<lparr>a_cmds = [], a_pend = a @ c\<rparr>"
    using ref_write_step [OF s1(1), of 1 c "[d]" 1] p s1(2,3) assms by (auto simp: dev_append_def)
  obtain s3 where s3: "interleaved loaded ?ch [(0, a), (1, c), (0, b)] s3
      [(?c (Put [a, b]))\<lparr>phase := Writing []\<rparr>, (?c (Put [c, d]))\<lparr>phase := Writing [d]\<rparr>]"
      "few_blocks (Suc (Suc 1)) s3" "absdev s3 = \<lparr>a_cmds = [a @ c @ b], a_pend = []\<rparr>"
    using ref_write_step [OF s2(1), of 0 b "[]" "Suc 1"] p s2(2,3) assms by (auto simp: dev_append_def)
  obtain s4 cs where "interleaved loaded ?ch [(0, a), (1, c), (0, b), (1, d)] s4 cs"
      "absdev s4 = \<lparr>a_cmds = [a @ c @ b, d], a_pend = []\<rparr>"
    using ref_write_step [OF s3(1), of 1 d "[]" "Suc (Suc 1)"] p s3(2,3) assms by (auto simp: dev_append_def)
  then show ?thesis by (intro exI [of _ s4] exI [of _ cs]) simp
qed

theorem long_lines_mix_witness:
  "\<exists>st cs. interleaved loaded [Put [''ab'', [CHR ''c'', newline]], Put [''de'', [CHR ''f'', newline]]]
      [(0, ''ab''), (1, ''de''), (0, [CHR ''c'', newline]), (1, [CHR ''f'', newline])] st cs \<and>
    a_cmds (absdev st) = [''abde'' @ [CHR ''c'', newline], [CHR ''f'', newline]]"
  using long_lines_mix [of "''ab''" "[CHR ''c'', newline]" "''de''" "[CHR ''f'', newline]"]
  by (simp add: newline_def)

end
