(* ===== verification/Client_Statements.thy ===== *)
theory Client_Statements
  imports Concurrent_Clients Handler_Steps
begin

text \<open>
  The server's threads on top of the driver's statements: each thread of \<open>Concurrent_Clients\<close> makes its system
  calls, and each call runs through the statements of \<open>Handler_Steps\<close>, with those of the other threads in
  between. The theory shows that nothing is lost by taking a call for one step, as \<open>interleaved\<close> does: the
  threads are simulated by it, a call happening there when its handler gives the mutex back.
\<close>

section \<open>Threads in system calls\<close>

text \<open>The call a thread makes next, and what its result does to it.\<close>

fun client_syscall :: "kernel \<Rightarrow> request_phase \<Rightarrow> call option" where
  "client_syscall K (Writing (s # ss)) = Some (Write s)"
| "client_syscall K (Writing []) = Some (Seek 0 0)"
| "client_syscall K (Seeking cmd off) = Some (Ioctl (AESDCHAR_IOCSEEKTO K) \<lparr>write_cmd = cmd, write_cmd_offset = off\<rparr>)"
| "client_syscall K Reading = Some (Read 4096)"
| "client_syscall K Closed = None"

fun client_result :: "answer \<Rightarrow> client \<Rightarrow> client" where
  "client_result (n, bs, f) c =
     (case phase c of
        Writing (s # ss) \<Rightarrow> c\<lparr>phase := Writing ss, cfile := f\<rparr>
      | Writing [] \<Rightarrow> c\<lparr>phase := Reading, cfile := f\<rparr>
      | Seeking cmd off \<Rightarrow> c\<lparr>phase := Reading, cfile := f\<rparr>
      | Reading \<Rightarrow> c\<lparr>phase := (if n = 0 then Closed else Reading), cfile := f,
                     reply := (if n = 0 then reply c else reply c @ bs)\<rparr>
      | Closed \<Rightarrow> c)"

text \<open>A thread of the server with the thread of the kernel that runs its calls.\<close>

record user =
  task :: client
  kthr :: kthread

inductive statement_system :: "kstate \<Rightarrow> request list \<Rightarrow> kstate \<Rightarrow> user list \<Rightarrow> bool" for st0 reqs where
  start: "length us = length reqs \<Longrightarrow>
    \<forall>i < length us. task (us ! i) = new_client st0 (reqs ! i) \<and> point (kthr (us ! i)) = Idle \<Longrightarrow>
    statement_system st0 reqs st0 us"
| enter: "statement_system st0 reqs st us \<Longrightarrow> i < length us \<Longrightarrow> point (kthr (us ! i)) = Idle \<Longrightarrow> steady K \<Longrightarrow>
    client_syscall K (phase (task (us ! i))) = Some c \<Longrightarrow>
    statement_system st0 reqs st
      (us[i := (us ! i)\<lparr>kthr := \<lparr>kern = K, tfile = cfile (task (us ! i)), point = At_lock c\<rparr>\<rparr>])"
| stmt: "statement_system st0 reqs st us \<Longrightarrow> i < length us \<Longrightarrow> \<not> waits (kthr (us ! i)) st \<Longrightarrow>
    point (kthr (us ! i)) \<noteq> Idle \<Longrightarrow>
    handler_stmt (kern (kthr (us ! i))) (tfile (kthr (us ! i))) (point (kthr (us ! i))) st = Done (f', pt', st') \<Longrightarrow>
    statement_system st0 reqs st' (us[i := (us ! i)\<lparr>kthr := (kthr (us ! i))\<lparr>tfile := f', point := pt'\<rparr>\<rparr>])"
| leave: "statement_system st0 reqs st us \<Longrightarrow> i < length us \<Longrightarrow> point (kthr (us ! i)) = Returned n bs \<Longrightarrow>
    statement_system st0 reqs st
      (us[i := (us ! i)\<lparr>task := client_result (n, bs, tfile (kthr (us ! i))) (task (us ! i)),
                        kthr := (kthr (us ! i))\<lparr>point := Idle\<rparr>\<rparr>])"

lemma client_call_handler:
  assumes "client_syscall K (phase c) = Some sc"
  shows "client_call K st c = and_then (handler K (cfile c) sc st) (\<lambda>(a, st). Done (st, client_result a c))"
proof (cases "phase c")
  case (Writing ss)
  with assms show ?thesis
    by (cases ss) (auto simp: client_call_def handler_def and_then_assoc case_prod_unfold)
qed (use assms in \<open>auto simp: client_call_def handler_def and_then_assoc case_prod_unfold\<close>)

declare client_result.simps [simp del]

section \<open>The simulation\<close>

text \<open>A call counts from its unlock on, also before the thread has seen the result.\<close>

definition seen_as :: "user \<Rightarrow> client" where
  "seen_as u = (case point (kthr u) of
     Returned n bs \<Rightarrow> client_result (n, bs, tfile (kthr u)) (task u) | _ \<Rightarrow> task u)"

text \<open>A thread in a call has got to its point from \<open>sta\<close>, where the calls before it left the device.\<close>

definition under_way :: "kstate \<Rightarrow> kstate \<Rightarrow> user \<Rightarrow> bool" where
  "under_way sta st u \<longleftrightarrow>
     (let t = kthr u
      in (\<forall>c. point t = At_lock c \<longrightarrow> steady (kern t) \<and> client_syscall (kern t) (phase (task u)) = Some c \<and>
           tfile t = cfile (task u)) \<and>
         (inside (point t) \<longrightarrow> steady (kern t) \<and> (\<exists>c. client_syscall (kern t) (phase (task u)) = Some c \<and>
           alone (kern t) (cfile (task u), At_lock c, sta) (tfile t, point t, st))))"

definition simulates :: "kstate \<Rightarrow> request list \<Rightarrow> kstate \<Rightarrow> user list \<Rightarrow> (nat \<times> string) list \<Rightarrow> kstate \<Rightarrow> bool" where
  "simulates st0 reqs st us writes sta \<longleftrightarrow> interleaved st0 reqs writes sta (map seen_as us) \<and> \<not> lock (aesd_device sta) \<and>
     (\<forall>u \<in> set us. under_way sta st u) \<and>
     (if lock (aesd_device st) then \<exists>i < length us. \<forall>j < length us. inside (point (kthr (us ! j))) \<longleftrightarrow> j = i
      else sta = st \<and> (\<forall>j < length us. \<not> inside (point (kthr (us ! j)))))"

lemma seen_outside: "\<forall>n bs. point (kthr u) \<noteq> Returned n bs \<Longrightarrow> seen_as u = task u"
  by (cases "point (kthr u)") (simp_all add: seen_as_def)

lemma under_way_idle: "\<not> inside (point (kthr u)) \<Longrightarrow> \<forall>c. point (kthr u) \<noteq> At_lock c \<Longrightarrow> under_way sta st u"
  by (simp add: under_way_def Let_def)

lemma under_way_outside: "under_way sta st u \<Longrightarrow> \<not> inside (point (kthr u)) \<Longrightarrow> under_way sta' st' u"
  by (simp add: under_way_def Let_def)

text \<open>A step that changes neither the device nor what the others see.\<close>

lemma simulates_same:
  assumes s: "simulates st0 reqs st us writes sta" and i: "i < length us"
    and v: "seen_as v = seen_as (us ! i)" "inside (point (kthr v)) = inside (point (kthr (us ! i)))" "under_way sta st v"
  shows "simulates st0 reqs st (us[i := v]) writes sta"
proof -
  have "map seen_as (us[i := v]) = map seen_as us"
    using i v(1) by (simp add: map_update list_update_same_conv)
  moreover have "inside (point (kthr (us[i := v] ! j))) = inside (point (kthr (us ! j)))" for j
    using i v(2) by (cases "j = i") simp_all
  moreover have "\<forall>u \<in> set (us[i := v]). under_way sta st u"
    using s v(3) by (auto simp: simulates_def dest: set_update_subset_insert [THEN subsetD])
  ultimately show ?thesis using s by (simp add: simulates_def)
qed

lemma simulates_lock:
  assumes s: "simulates st0 reqs st us writes sta" and i: "i < length us" "point (kthr (us ! i)) = At_lock c"
    and free: "\<not> waits (kthr (us ! i)) st"
    and stmt: "handler_stmt (kern (kthr (us ! i))) (tfile (kthr (us ! i))) (At_lock c) st = Done (f', pt', st')"
  shows "simulates st0 reqs st' (us[i := (us ! i)\<lparr>kthr := (kthr (us ! i))\<lparr>tfile := f', point := pt'\<rparr>\<rparr>]) writes sta"
proof -
  let ?u = "us ! i" let ?t = "kthr ?u" let ?v = "?u\<lparr>kthr := ?t\<lparr>tfile := f', point := pt'\<rparr>\<rparr>"
  have "under_way sta st ?u" using s i(1) by (simp add: simulates_def)
  then have K: "steady (kern ?t)" and c: "client_syscall (kern ?t) (phase (task ?u)) = Some c" "tfile ?t = cfile (task ?u)"
    using i(2) by (simp_all add: under_way_def Let_def)
  have rc: "fst (mutex_lock_interruptible (kern ?t) (lock (aesd_device st))) = 0" and law: "lock_law (kern ?t)"
    using K by (simp_all add: steady_def kernel_ok_def)
  then obtain held where lk: "mutex_lock_interruptible (kern ?t) (lock (aesd_device st)) = (0, held)"
    by (metis prod.collapse)
  have nl: "\<not> lock (aesd_device st)" using free rc i(2) by (auto simp: waits_def)
  then have st: "sta = st" and none: "\<forall>j < length us. \<not> inside (point (kthr (us ! j)))"
    using s by (simp_all add: simulates_def)
  have held using lk law nl by (simp add: lock_law_def) (metis (full_types))
  moreover have res: "f' = tfile ?t" "pt' = first_point c" "st' = set_lock held st"
    using stmt lk by (auto split: if_splits)
  ultimately have l: "lock (aesd_device st')" by (simp add: set_lock_def)
  have "seen_as ?v = task ?u" "seen_as ?u = task ?u"
    using res(2) i(2) by (cases c; simp add: seen_as_def)+
  then have "map seen_as (us[i := ?v]) = map seen_as us"
    using i(1) by (simp add: map_update list_update_same_conv)
  moreover have "under_way sta st' ?v"
  proof -
    have "pt' \<noteq> At_lock c'" for c' using res(2) by (cases c) simp_all
    moreover have "alone (kern ?t) (cfile (task ?u), At_lock c, sta) (f', pt', st')"
      unfolding alone_def using stmt c(2) st by (intro r_into_rtranclp) (simp add: stmt_of_def)
    ultimately show ?thesis using K c(1) by (simp add: under_way_def Let_def)
  qed
  moreover have "under_way sta st' u" if u: "u \<in> set us" for u
  proof -
    have "\<not> inside (point (kthr u))" using none u by (auto simp: in_set_conv_nth)
    with under_way_outside s u show ?thesis by (auto simp: simulates_def)
  qed
  ultimately show ?thesis
    using s l none i(1) res(2)
    by (auto simp: simulates_def nth_list_update dest: set_update_subset_insert [THEN subsetD] intro!: exI [of _ i])
qed

lemma simulates_inside:
  assumes s: "simulates st0 reqs st us writes sta" and i: "i < length us" "inside (point (kthr (us ! i)))"
    and stmt: "handler_stmt (kern (kthr (us ! i))) (tfile (kthr (us ! i))) (point (kthr (us ! i))) st = Done (f', pt', st')"
  shows "\<exists>writes sta. simulates st0 reqs st' (us[i := (us ! i)\<lparr>kthr := (kthr (us ! i))\<lparr>tfile := f', point := pt'\<rparr>\<rparr>]) writes sta"
proof -
  let ?u = "us ! i" let ?t = "kthr ?u" let ?v = "?u\<lparr>kthr := ?t\<lparr>tfile := f', point := pt'\<rparr>\<rparr>"
  have "under_way sta st ?u" using s i(1) by (simp add: simulates_def)
  then obtain c where K: "steady (kern ?t)" and c: "client_syscall (kern ?t) (phase (task ?u)) = Some c"
      "alone (kern ?t) (cfile (task ?u), At_lock c, sta) (tfile ?t, point ?t, st)"
    using i(2) by (auto simp: under_way_def Let_def)
  have l: "lock (aesd_device st)" and only: "\<And>j. j < length us \<Longrightarrow> inside (point (kthr (us ! j))) \<Longrightarrow> j = i"
    using s i by (auto simp: simulates_def split: if_splits)
  have seen: "seen_as ?u = task ?u" using i(2) by (intro seen_outside) auto
  have others: "under_way sta' st' (us ! j)" if "j < length us" "j \<noteq> i" for j sta'
  proof -
    have "\<not> inside (point (kthr (us ! j)))" using only that by blast
    moreover have "under_way sta st (us ! j)" using s that(1) by (simp add: simulates_def)
    ultimately show ?thesis by (rule under_way_outside [rotated])
  qed
  have go: "alone (kern ?t) (cfile (task ?u), At_lock c, sta) (f', pt', st')"
    by (rule alone_step [OF c(2) _ stmt]) (use i(2) in auto)
  then have rest: "rest (kern ?t) f' pt' st' = handler (kern ?t) (cfile (task ?u)) c sta"
    using alone_rest [OF go] by simp
  from inside_stmt [OF stmt i(2)] show ?thesis
  proof (elim disjE conjE exE)
    fix n bs
    assume pt: "point ?t = At_unlock n bs" "pt' = Returned n bs" "f' = tfile ?t"
      and "lock (aesd_device st') = mutex_unlock (kern ?t) (lock (aesd_device st))"
    then have free: "\<not> lock (aesd_device st')" using K by (simp add: steady_def kernel_ok_def lock_law_def)
    let ?c' = "client_result (n, bs, f') (task ?u)"
    have "client_call (kern ?t) sta (task ?u) = Done (st', ?c')"
      using client_call_handler [OF c(1), of sta] rest [symmetric] pt(2) by simp
    moreover have "interleaved st0 reqs writes sta (map seen_as us)" using s by (simp add: simulates_def)
    ultimately obtain writes' where "interleaved st0 reqs writes' st' ((map seen_as us)[i := ?c'])"
      using interleaved.call [of st0 reqs writes sta "map seen_as us" i "kern ?t" st' ?c'] K i(1) seen by auto
    moreover have "seen_as ?v = ?c'" using pt(2) by (simp add: seen_as_def)
    ultimately have "interleaved st0 reqs writes' st' (map seen_as (us[i := ?v]))"
      by (simp add: map_update)
    moreover have "under_way st' st' ((us[i := ?v]) ! j)" if "j < length us" for j
      using others that pt(2) under_way_idle [of ?v] by (cases "j = i") simp_all
    then have "\<forall>u \<in> set (us[i := ?v]). under_way st' st' u" by (metis in_set_conv_nth length_list_update)
    moreover have "\<not> inside (point (kthr ((us[i := ?v]) ! j)))" if "j < length us" for j
      using only that pt(2) by (cases "j = i") auto
    ultimately show ?thesis using free by (auto simp: simulates_def)
  next
    assume nu: "\<forall>n bs. point ?t \<noteq> At_unlock n bs" and in': "inside pt'" and "lock (aesd_device st') = lock (aesd_device st)"
    then have l': "lock (aesd_device st')" using l by simp
    have "seen_as ?v = task ?u" using in' by (subst seen_outside) auto
    then have "map seen_as (us[i := ?v]) = map seen_as us"
      using i(1) seen by (simp add: map_update list_update_same_conv)
    moreover have "under_way sta st' ?v"
      using K c(1) go in' by (auto simp: under_way_def Let_def)
    then have "under_way sta st' ((us[i := ?v]) ! j)" if "j < length us" for j
      using others that by (cases "j = i") simp_all
    then have "\<forall>u \<in> set (us[i := ?v]). under_way sta st' u" by (metis in_set_conv_nth length_list_update)
    moreover have "inside (point (kthr ((us[i := ?v]) ! j))) \<longleftrightarrow> j = i" if "j < length us" for j
      using only that in' by (cases "j = i") auto
    ultimately have "simulates st0 reqs st' (us[i := ?v]) writes sta"
      using s l' i(1) by (auto simp: simulates_def)
    then show ?thesis by blast
  qed
qed

lemma statements_simulated:
  assumes "statement_system st0 reqs st us" and "\<not> lock (aesd_device st0)"
  shows "\<exists>writes sta. simulates st0 reqs st us writes sta"
  using assms
proof (induction rule: statement_system.induct)
  case (start us)
  have "map seen_as us = map (new_client st0) reqs"
    using start by (auto simp: seen_as_def intro!: nth_equalityI)
  then have "interleaved st0 reqs [] st0 (map seen_as us)"
    using interleaved.start [of st0 reqs] by simp
  moreover have "\<forall>u \<in> set us. under_way st0 st0 u"
    using start by (auto simp: under_way_def in_set_conv_nth)
  ultimately show ?case using start by (auto simp: simulates_def)
next
  case (enter st us i K c)
  then obtain writes sta where s: "simulates st0 reqs st us writes sta" by blast
  have "simulates st0 reqs st (us[i := (us ! i)\<lparr>kthr := \<lparr>kern = K, tfile = cfile (task (us ! i)), point = At_lock c\<rparr>\<rparr>]) writes sta"
    by (rule simulates_same [OF s enter.hyps(2)]) (use enter.hyps in \<open>simp_all add: seen_as_def under_way_def\<close>)
  then show ?case by blast
next
  case (stmt st us i f' pt' st')
  then obtain writes sta where s: "simulates st0 reqs st us writes sta" by blast
  let ?t = "kthr (us ! i)"
  consider c where "point ?t = At_lock c" | n bs where "point ?t = Returned n bs" | "inside (point ?t)"
    using stmt.hyps(4) by (cases "point ?t") auto
  then show ?case
  proof cases
    case 1
    with simulates_lock [OF s stmt.hyps(2) 1 stmt.hyps(3)] stmt.hyps(5) show ?thesis by auto
  next
    case 2
    with stmt.hyps(5) have "f' = tfile ?t" "pt' = point ?t" "st' = st" by simp_all
    with s show ?thesis by auto
  next
    case 3
    from simulates_inside [OF s stmt.hyps(2) 3 stmt.hyps(5)] show ?thesis by simp
  qed
next
  case (leave st us i n bs)
  then obtain writes sta where s: "simulates st0 reqs st us writes sta" by blast
  have "simulates st0 reqs st
      (us[i := (us ! i)\<lparr>task := client_result (n, bs, tfile (kthr (us ! i))) (task (us ! i)),
                        kthr := (kthr (us ! i))\<lparr>point := Idle\<rparr>\<rparr>]) writes sta"
    by (rule simulates_same [OF s leave.hyps(2)]) (use leave.hyps(3) in \<open>simp_all add: seen_as_def under_way_def\<close>)
  then show ?case by blast
qed

section \<open>Every interleaving of calls is one of statements\<close>

lemma alone_users:
  assumes "alone K (f, At_lock c, st) y" and "statement_system st0 reqs st us" and "i < length us"
    and "kthr (us ! i) = \<lparr>kern = K, tfile = f, point = At_lock c\<rparr>" and "\<not> lock (aesd_device st)"
  shows "(\<lambda>(f', pt', st'). statement_system st0 reqs st' (us[i := (us ! i)\<lparr>kthr := \<lparr>kern = K, tfile = f', point = pt'\<rparr>\<rparr>]) \<and>
    (\<forall>c'. pt' = At_lock c' \<longrightarrow> \<not> lock (aesd_device st'))) y"
  using assms(1) unfolding alone_def
proof (induction rule: rtranclp_induct)
  case base
  have "us[i := (us ! i)\<lparr>kthr := \<lparr>kern = K, tfile = f, point = At_lock c\<rparr>\<rparr>] = us"
    using assms(4) by (simp add: list_update_same_conv flip: assms(4))
  with assms(2,5) show ?case by simp
next
  case (step y z)
  obtain f1 pt1 st1 where y: "y = (f1, pt1, st1)" by (cases y)
  obtain f2 pt2 st2 where z: "z = (f2, pt2, st2)" by (cases z)
  let ?us = "us[i := (us ! i)\<lparr>kthr := \<lparr>kern = K, tfile = f1, point = pt1\<rparr>\<rparr>]"
  have s: "statement_system st0 reqs st1 ?us" and free: "\<And>c'. pt1 = At_lock c' \<Longrightarrow> \<not> lock (aesd_device st1)"
    using step.IH y by auto
  have go: "pt1 \<noteq> Idle" "handler_stmt K f1 pt1 st1 = Done (f2, pt2, st2)"
    using step.hyps(2) y z by (auto simp: stmt_of_def)
  have "\<not> waits (kthr (?us ! i)) st1"
    using assms(3) free by (auto simp: waits_def)
  with statement_system.stmt [OF s, of i f2 pt2 st2] go assms(3)
  have "statement_system st0 reqs st2 (us[i := (us ! i)\<lparr>kthr := \<lparr>kern = K, tfile = f2, point = pt2\<rparr>\<rparr>])" by simp
  then show ?case using z not_lock_again [OF go(2)] by auto
qed

lemma call_in_system:
  assumes s: "statement_system st0 reqs st us" and i: "i < length us" "point (kthr (us ! i)) = Idle"
    and K: "steady K" "\<not> lock (aesd_device st)" and c: "phase (task (us ! i)) \<noteq> Closed"
    and call: "client_call K st (task (us ! i)) = Done (st', c')"
  shows "\<exists>t. point t = Idle \<and> statement_system st0 reqs st' (us[i := (us ! i)\<lparr>task := c', kthr := t\<rparr>])"
proof -
  let ?u = "us ! i"
  obtain sc where sc: "client_syscall K (phase (task ?u)) = Some sc"
    using c by (cases "(K, phase (task ?u))" rule: client_syscall.cases) auto
  then obtain n bs f' where h: "handler K (cfile (task ?u)) sc st = Done ((n, bs, f'), st')" "c' = client_result (n, bs, f') (task ?u)"
    using call client_call_handler [OF sc, of st] by auto
  let ?us = "us[i := ?u\<lparr>kthr := \<lparr>kern = K, tfile = cfile (task ?u), point = At_lock sc\<rparr>\<rparr>]"
  have "statement_system st0 reqs st ?us" by (rule statement_system.enter [OF s i K(1) sc])
  from alone_users [OF handler_alone [OF h(1)] this, of i] i(1) K(2)
  have "statement_system st0 reqs st' (us[i := ?u\<lparr>kthr := \<lparr>kern = K, tfile = f', point = Returned n bs\<rparr>\<rparr>])" by simp
  from statement_system.leave [OF this, of i n bs] i(1) h(2)
  have "statement_system st0 reqs st' (us[i := ?u\<lparr>task := c', kthr := \<lparr>kern = K, tfile = f', point = Idle\<rparr>\<rparr>])" by simp
  then show ?thesis by (intro exI [of _ "\<lparr>kern = K, tfile = f', point = Idle\<rparr>"]) simp
qed

lemma calls_in_system:
  assumes "interleaved st0 reqs writes st cs" and "dev_inv st0" and "\<forall>r \<in> set reqs. small_request r"
  shows "\<exists>us. statement_system st0 reqs st us \<and> map task us = cs \<and> (\<forall>u \<in> set us. point (kthr u) = Idle)"
  using assms
proof (induction rule: interleaved.induct)
  case start
  let ?us = "map (\<lambda>r. \<lparr>task = new_client st0 r, kthr = \<lparr>kern = undefined, tfile = cfile (new_client st0 r), point = Idle\<rparr>\<rparr>) reqs"
  have "statement_system st0 reqs st0 ?us" by (rule statement_system.start) simp_all
  then show ?case by (intro exI [of _ ?us]) simp
next
  case (call writes st cs i K st' c')
  then obtain us where us: "statement_system st0 reqs st us" "map task us = cs" "\<forall>u \<in> set us. point (kthr u) = Idle" by blast
  have free: "\<not> lock (aesd_device st)"
    using interleaved_answered [OF call.hyps(1) call.prems] by (simp add: all_answered_def dev_inv_def)
  have i: "i < length us" "task (us ! i) = cs ! i" "point (kthr (us ! i)) = Idle"
    using us(2,3) call.hyps(2) by auto
  show ?case
  proof (cases "phase (cs ! i) = Closed")
    case True
    then have "st' = st" "cs[i := c'] = cs" using call.hyps(4) by (auto simp: client_call_def)
    with us show ?thesis by auto
  next
    case False
    then obtain t where t: "point t = Idle" "statement_system st0 reqs st' (us[i := (us ! i)\<lparr>task := c', kthr := t\<rparr>])"
      using call_in_system [OF us(1) i(1,3) call.hyps(3) free] call.hyps(4) i(2) by auto
    moreover have "map task (us[i := (us ! i)\<lparr>task := c', kthr := t\<rparr>]) = cs[i := c']"
      using us(2) by (simp add: map_update)
    moreover have "\<forall>u \<in> set (us[i := (us ! i)\<lparr>task := c', kthr := t\<rparr>]). point (kthr u) = Idle"
      using us(3) t(1) by (auto dest: set_update_subset_insert [THEN subsetD])
    ultimately show ?thesis by blast
  qed
qed

lemma idle_simulated:
  assumes "simulates st0 reqs st us writes sta" and "\<forall>u \<in> set us. point (kthr u) = Idle"
  shows "sta = st" and "map seen_as us = map task us"
proof -
  have "\<not> lock (aesd_device st)"
  proof
    assume "lock (aesd_device st)"
    then obtain j where "j < length us" "inside (point (kthr (us ! j)))" using assms(1) by (auto simp: simulates_def)
    moreover from this(1) have "point (kthr (us ! j)) = Idle" using assms(2) by simp
    ultimately show False by simp
  qed
  then show "sta = st" using assms(1) by (simp add: simulates_def)
  show "map seen_as us = map task us" using assms(2) by (simp add: seen_as_def)
qed

lemma interleaved_length: "interleaved st0 reqs writes st cs \<Longrightarrow> length cs = length reqs"
  by (induction rule: interleaved.induct) simp_all

section \<open>Somebody can go on\<close>

definition over :: "user \<Rightarrow> bool" where
  "over u \<longleftrightarrow> point (kthr u) = Idle \<and> phase (task u) = Closed"

text \<open>A thread can enter its next call, take back the result of one, or execute the next statement.\<close>

definition can_step :: "kstate \<Rightarrow> user \<Rightarrow> bool" where
  "can_step st u \<longleftrightarrow> point (kthr u) = Idle \<and> phase (task u) \<noteq> Closed \<or>
     (\<exists>n bs. point (kthr u) = Returned n bs) \<or>
     point (kthr u) \<noteq> Idle \<and> \<not> waits (kthr u) st \<and>
       (\<exists>y. handler_stmt (kern (kthr u)) (tfile (kthr u)) (point (kthr u)) st = Done y)"

lemma small_task:
  assumes "all_answered st0 reqs writes st cs" and "\<forall>r \<in> set reqs. small_request r" and "i < length reqs"
  shows "\<forall>s ss. phase (cs ! i) = Writing (s # ss) \<longrightarrow> length s < 2 ^ 31"
proof -
  have "answered st0 (reqs ! i) writes i (cs ! i)" "small_request (reqs ! i)"
    using assms by (simp_all add: all_answered_def)
  then show ?thesis by (auto simp: answered_def small_request_def)
qed

lemma holder_steps:
  assumes s: "simulates st0 reqs st us writes sta" and dev: "dev_inv st0" "\<forall>r \<in> set reqs. small_request r"
    and i: "i < length us" "inside (point (kthr (us ! i)))"
    and mem: "\<not> no_memory (kern (kthr (us ! i))) sta (task (us ! i))"
  shows "can_step st (us ! i)"
proof -
  let ?u = "us ! i" let ?t = "kthr ?u"
  have run: "interleaved st0 reqs writes sta (map seen_as us)" using s by (simp add: simulates_def)
  have inv: "all_answered st0 reqs writes sta (map seen_as us)" by (rule interleaved_answered [OF run dev])
  have len: "length us = length reqs" using interleaved_length [OF run] by simp
  have seen: "map seen_as us ! i = task ?u" using i by (simp, intro seen_outside) auto
  have "under_way sta st ?u" using s i(1) by (simp add: simulates_def)
  then obtain c where K: "steady (kern ?t)" and c: "client_syscall (kern ?t) (phase (task ?u)) = Some c"
      "alone (kern ?t) (cfile (task ?u), At_lock c, sta) (tfile ?t, point ?t, st)"
    using i(2) by (auto simp: under_way_def Let_def)
  have "phase (task ?u) \<noteq> Closed" using c(1) by auto
  moreover have "dev_inv sta" "file_ok sta (task ?u)"
    using inv i(1) len seen by (auto simp: all_answered_def file_ok_def)
  moreover have "\<forall>s ss. phase (task ?u) = Writing (s # ss) \<longrightarrow> length s < 2 ^ 31"
    using small_task [OF inv dev(2), of i] i(1) len seen by simp
  ultimately obtain st' c' where "client_call (kern ?t) sta (task ?u) = Done (st', c')"
    using call_progress [OF K _ _ _ _ mem] by blast
  then obtain r where "handler (kern ?t) (cfile (task ?u)) c sta = Done r"
    using client_call_handler [OF c(1), of sta] by auto
  with alone_rest [OF c(2)] have "rest (kern ?t) (tfile ?t) (point ?t) st = Done r" by simp
  moreover have "point ?t \<noteq> Idle" "\<not> waits ?t st" using i(2) by (auto simp: waits_def)
  ultimately show ?thesis
    using rest_returns by (auto simp: can_step_def)
qed

lemma waiting_steps:
  assumes s: "simulates st0 reqs st us writes sta" and dev: "dev_inv st0" "\<forall>r \<in> set reqs. small_request r"
    and i: "i < length us" "point (kthr (us ! i)) = At_lock c" and free: "\<not> lock (aesd_device st)"
  shows "can_step st (us ! i)"
proof -
  let ?u = "us ! i" let ?t = "kthr ?u"
  have run: "interleaved st0 reqs writes sta (map seen_as us)" and st: "sta = st"
    using s free by (auto simp: simulates_def)
  have inv: "all_answered st0 reqs writes sta (map seen_as us)" by (rule interleaved_answered [OF run dev])
  have len: "length us = length reqs" using interleaved_length [OF run] by simp
  have "seen_as ?u = task ?u" using i(2) by (intro seen_outside) auto
  then have "file_ok st (task ?u)"
    using inv i(1) len st by (auto simp: all_answered_def file_ok_def dest: spec [of _ i])
  moreover have "tfile ?t = cfile (task ?u)"
    using s i by (auto simp: simulates_def under_way_def Let_def)
  ultimately have "private_data (tfile ?t) = dev_addr st" by (simp add: file_ok_def)
  then have "\<exists>y. handler_stmt (kern ?t) (tfile ?t) (At_lock c) st = Done y" by (simp add: split_beta)
  moreover have "\<not> waits ?t st" using free by (simp add: waits_def)
  ultimately show ?thesis using i(2) by (simp add: can_step_def)
qed

text \<open>What becomes of a write whose \<open>krealloc\<close> returns NULL: it goes on with the null pointer until a statement
  accesses the memory there.\<close>

definition out_of_memory :: "kstate \<Rightarrow> user \<Rightarrow> bool" where
  "out_of_memory st u \<longleftrightarrow> (\<exists>buf n i. point (kthr u) = Write_copy buf \<or> point (kthr u) = Write_test n i) \<and> pend_ptr st = 0 \<and>
     handler_stmt (kern (kthr u)) (tfile (kthr u)) (point (kthr u)) st = Fault"

fun null_point :: "hpoint \<Rightarrow> bool" where
  "null_point (Write_copy b) \<longleftrightarrow> True"
| "null_point (Write_size n) \<longleftrightarrow> True"
| "null_point (Write_test n i) \<longleftrightarrow> True"
| "null_point (At_unlock n bs) \<longleftrightarrow> True"
| "null_point (Returned n bs) \<longleftrightarrow> True"
| "null_point pt \<longleftrightarrow> False"

lemma null_access:
  assumes "heap st 0 = None" and "pend_ptr st = 0"
  shows "store_bytes (heap st) (buffptr (dev_entry (aesd_device st))) i bs = (if bs = [] then Done (heap st) else Fault)"
    and "load_byte (heap st) (buffptr (dev_entry (aesd_device st))) i = Fault"
  using assms by (simp_all add: store_bytes_def load_byte_def blk_def pend_ptr_def)

lemma write_without_memory:
  assumes "alone K (f, At_lock (Write buf), sta) y" and inv: "dev_inv sta" and law: "krealloc_law K"
    and none: "fst (krealloc K (heap sta) (pend_ptr sta) (esize (dev_entry (aesd_device sta)) + of_nat (length buf))) = 0"
  shows "(\<lambda>(f', pt, st). pt = At_lock (Write buf) \<and> st = sta \<or>
      pt = Write_grow buf \<and> heap st = heap sta \<and> dev_entry (aesd_device st) = dev_entry (aesd_device sta) \<or>
      null_point pt \<and> (pend_ptr st = 0 \<and> heap st 0 = None \<or> \<not> inside pt)) y"
  using assms(1) unfolding alone_def
proof (induction rule: rtranclp_induct)
  case (step y z)
  obtain f1 pt1 st1 where y: "y = (f1, pt1, st1)" by (cases y)
  obtain f2 pt2 st2 where z: "z = (f2, pt2, st2)" by (cases z)
  have go: "handler_stmt K f1 pt1 st1 = Done (f2, pt2, st2)" using step.hyps(2) y z by (simp add: stmt_of_def)
  have ok: "heap_ok (heap sta)" "pend_ptr sta = 0 \<or> pend_ptr sta = ZERO_SIZE_PTR \<or> pend_ptr sta \<in> dom (heap sta)"
    using inv by (auto simp: dev_inv_def dev_wf_def)
  obtain h where kr: "krealloc K (heap sta) (pend_ptr sta) (esize (dev_entry (aesd_device sta)) + of_nat (length buf)) = (0, h)"
    using none by (metis prod.collapse)
  have "(0 :: ptr) \<noteq> ZERO_SIZE_PTR" by (simp add: ZERO_SIZE_PTR_def)
  then have h: "h = heap sta" using law ok kr unfolding krealloc_law_def by metis
  have zero: "heap sta 0 = None" using ok(1) by (simp add: heap_ok_def)
  consider "pt1 = At_lock (Write buf)" "st1 = sta"
    | "pt1 = Write_grow buf" "heap st1 = heap sta" "dev_entry (aesd_device st1) = dev_entry (aesd_device sta)"
    | "null_point pt1" "pend_ptr st1 = 0" "heap st1 0 = None" | "null_point pt1" "\<not> inside pt1"
    using step.IH y by auto
  then show ?case
  proof cases
    case 1
    with go z show ?thesis by (auto simp: split_beta set_lock_def split: if_splits)
  next
    case 2
    then show ?thesis using go z kr h zero
      by (auto simp: Let_def set_pending_def pend_ptr_def)
  next
    case 3
    then show ?thesis using go z null_access [OF 3(3,2)]
      by (cases pt1) (auto simp: Let_def split_beta set_pending_def set_lock_def pend_ptr_def split: if_splits)
  next
    case 4
    then show ?thesis using go z by (cases pt1) auto
  qed
qed simp

lemma starved_holder:
  assumes s: "simulates st0 reqs st us writes sta" and dev: "dev_inv st0" "\<forall>r \<in> set reqs. small_request r"
    and i: "i < length us" "inside (point (kthr (us ! i)))"
    and mem: "no_memory (kern (kthr (us ! i))) sta (task (us ! i))"
  shows "can_step st (us ! i) \<or> out_of_memory st (us ! i)"
proof -
  let ?u = "us ! i" let ?t = "kthr ?u"
  have run: "interleaved st0 reqs writes sta (map seen_as us)" using s by (simp add: simulates_def)
  have inv: "dev_inv sta" using interleaved_answered [OF run dev] by (simp add: all_answered_def)
  obtain buf ss where w: "phase (task ?u) = Writing (buf # ss)"
      "fst (krealloc (kern ?t) (heap sta) (pend_ptr sta) (esize (dev_entry (aesd_device sta)) + of_nat (length buf))) = 0"
    using mem by (auto simp: no_memory_def)
  have "under_way sta st ?u" using s i(1) by (simp add: simulates_def)
  then have K: "steady (kern ?t)" and go: "alone (kern ?t) (cfile (task ?u), At_lock (Write buf), sta) (tfile ?t, point ?t, st)"
    using i(2) w(1) by (auto simp: under_way_def Let_def)
  have "krealloc_law (kern ?t)" using K by (simp add: steady_def kernel_ok_def)
  from write_without_memory [OF go inv this w(2)] i(2)
  consider "point ?t = Write_grow buf" | "null_point (point ?t)" "pend_ptr st = 0" "heap st 0 = None" by auto
  then show ?thesis
  proof cases
    case 1
    then show ?thesis by (auto simp: can_step_def waits_def Let_def split_beta)
  next
    case 2
    then show ?thesis
      using i(2) null_access [OF 2(3,2)]
      by (cases "point ?t") (auto simp: can_step_def out_of_memory_def waits_def Let_def split_beta)
  qed
qed

lemma somebody_steps:
  assumes s: "simulates st0 reqs st us writes sta" and dev: "dev_inv st0" "\<forall>r \<in> set reqs. small_request r"
    and open_u: "u \<in> set us" "\<not> over u"
  shows "(\<exists>v \<in> set us. can_step st v) \<or> (\<exists>v \<in> set us. out_of_memory st v)"
proof (cases "\<exists>i < length us. inside (point (kthr (us ! i)))")
  case True
  then obtain i where "i < length us" "inside (point (kthr (us ! i)))" by blast
  with holder_steps [OF s dev this] starved_holder [OF s dev this] show ?thesis by (meson nth_mem)
next
  case False
  obtain i where i: "i < length us" "us ! i = u" using open_u(1) by (auto simp: in_set_conv_nth)
  have "\<not> inside (point (kthr u))" using False i by auto
  then consider "point (kthr u) = Idle" | n bs where "point (kthr u) = Returned n bs" | c where "point (kthr u) = At_lock c"
    by (cases "point (kthr u)") auto
  then have "can_step st u"
  proof cases
    case 1
    with open_u(2) show ?thesis by (simp add: can_step_def over_def)
  next
    case 2
    then show ?thesis by (simp add: can_step_def)
  next
    case 3
    have "\<not> lock (aesd_device st)" using s False by (auto simp: simulates_def split: if_splits)
    with waiting_steps [OF s dev i(1)] 3 i(2) show ?thesis by simp
  qed
  with open_u(1) show ?thesis by blast
qed

text \<open>At most one thread is between a lock and an unlock.\<close>

lemma only_inside:
  assumes "simulates st0 reqs st us writes sta" and "v \<in> set us" "inside (point (kthr v))"
    and "w \<in> set us" "inside (point (kthr w))"
  shows "w = v"
  using assms by (auto simp: simulates_def in_set_conv_nth split: if_splits)

end
