(* ===== verification/System_Properties.thy ===== *)
theory System_Properties
  imports Client_Statements Concurrent_Properties
begin

text \<open>
  Properties of the whole system: the server's threads on one side, the statements of the driver's handlers
  on the other, everything interleaved.
\<close>

text \<open>C15: where no system call is under way, the threads that run through the driver's statements in any
  interleaving are in exactly the states that threads reach whose calls are atomic.\<close>

theorem statements_are_calls:
  assumes "dev_inv st0" and "\<forall>r \<in> set reqs. small_request r"
  shows "(\<exists>us. statement_system st0 reqs st us \<and> (\<forall>u \<in> set us. point (kthr u) = Idle) \<and> map task us = cs) \<longleftrightarrow>
    (\<exists>writes. interleaved st0 reqs writes st cs)"
proof
  assume "\<exists>us. statement_system st0 reqs st us \<and> (\<forall>u \<in> set us. point (kthr u) = Idle) \<and> map task us = cs"
  then obtain us where us: "statement_system st0 reqs st us" "\<forall>u \<in> set us. point (kthr u) = Idle" "map task us = cs" by blast
  have "\<not> lock (aesd_device st0)" using assms(1) by (simp add: dev_inv_def)
  then obtain writes sta where "simulates st0 reqs st us writes sta"
    using statements_simulated [OF us(1)] by blast
  with idle_simulated [OF this us(2)] us(3) show "\<exists>writes. interleaved st0 reqs writes st cs"
    by (auto simp: simulates_def)
next
  assume "\<exists>writes. interleaved st0 reqs writes st cs"
  then show "\<exists>us. statement_system st0 reqs st us \<and> (\<forall>u \<in> set us. point (kthr u) = Idle) \<and> map task us = cs"
    using calls_in_system assms by blast
qed

theorem statements_are_calls_witness:
  "\<exists>st us. statement_system loaded [Put [[CHR ''a'', newline]], Put [[CHR ''b'', newline]]] st us \<and>
     (\<forall>u \<in> set us. point (kthr u) = Idle) \<and> phase (task (us ! 0)) = Closed"
proof -
  obtain st c w where c: "interleaved loaded [Put [[CHR ''a'', newline]], Put [[CHR ''b'', newline]]]
      [(1, [CHR ''b'', newline]), (0, [CHR ''a'', newline])] st [c, w]" "phase c = Closed"
    using two_lines_run by blast
  then obtain us where us: "statement_system loaded [Put [[CHR ''a'', newline]], Put [[CHR ''b'', newline]]] st us"
      "\<forall>u \<in> set us. point (kthr u) = Idle" "map task us = [c, w]"
    using statements_are_calls [OF loaded_inv(1), of "[Put [[CHR ''a'', newline]], Put [[CHR ''b'', newline]]]" st "[c, w]"]
    by (auto simp: small_request_def)
  then have "task (us ! 0) = c" by (auto simp: map_eq_Cons_conv)
  with us(1,2) c(2) show ?thesis by blast
qed

text \<open>C16: clients whose lines each fit the stream's buffer, on a device with room for them, with the statements of
  their system calls interleaved in any way: whatever the other threads are in the middle of, a client
  that is done has sent back the content of the device after some number of writes that includes its
  own; and while the mutex is free the device holds the lines in the order of the writes.\<close>

theorem replies_of_statements:
  assumes "statement_system st0 (map (\<lambda>l. Put [l]) lines) st us" and "dev_inv st0" and "a_pend (absdev st0) = []"
    and "\<forall>l \<in> set lines. newline \<in> set l \<and> length l < 2 ^ 31"
    and "length (a_cmds (absdev st0)) + length lines \<le> 10"
  shows "\<exists>order. distinct order \<and> set order \<subseteq> {..<length lines} \<and>
    (\<not> lock (aesd_device st) \<longrightarrow> absdev st = \<lparr>a_cmds = a_cmds (absdev st0) @ map ((!) lines) order, a_pend = []\<rparr>) \<and>
    (\<forall>i < length lines. point (kthr (us ! i)) = Idle \<and> phase (task (us ! i)) = Closed \<longrightarrow>
       (\<exists>k. i \<in> set (take k order) \<and>
          reply (task (us ! i)) = concat (a_cmds (absdev st0) @ map ((!) lines) (take k order))))"
proof -
  have "\<not> lock (aesd_device st0)" using assms(2) by (simp add: dev_inv_def)
  then obtain writes sta where sim: "simulates st0 (map (\<lambda>l. Put [l]) lines) st us writes sta"
    using statements_simulated [OF assms(1)] by blast
  then have run: "interleaved st0 (map (\<lambda>l. Put [l]) lines) writes sta (map seen_as us)"
    and same: "\<not> lock (aesd_device st) \<Longrightarrow> sta = st"
    by (simp_all add: simulates_def)
  have len: "length us = length lines"
    using interleaved_length [OF run] by simp
  obtain order where o: "distinct order" "set order \<subseteq> {..<length lines}"
      "absdev sta = \<lparr>a_cmds = a_cmds (absdev st0) @ map ((!) lines) order, a_pend = []\<rparr>"
      "\<forall>i < length lines. phase (map seen_as us ! i) = Closed \<longrightarrow>
         (\<exists>k. i \<in> set (take k order) \<and> reply (map seen_as us ! i) = concat (a_cmds (absdev st0) @ map ((!) lines) (take k order)))"
    using roomy_replies [OF run assms(2-5)] by blast
  have "map seen_as us ! i = task (us ! i)" if "i < length lines" "point (kthr (us ! i)) = Idle" for i
    using that len by (simp add: seen_as_def)
  then have "\<forall>i < length lines. point (kthr (us ! i)) = Idle \<and> phase (task (us ! i)) = Closed \<longrightarrow>
      (\<exists>k. i \<in> set (take k order) \<and> reply (task (us ! i)) = concat (a_cmds (absdev st0) @ map ((!) lines) (take k order)))"
    using o(4) by (metis (no_types, lifting))
  with o(1-3) same show ?thesis by blast
qed

theorem replies_of_statements_witness:
  "\<exists>st us order k. statement_system loaded [Put [[CHR ''a'', newline]], Put [[CHR ''b'', newline]]] st us \<and>
     phase (task (us ! 0)) = Closed \<and> distinct order \<and> set order \<subseteq> {0, 1} \<and> 0 \<in> set (take k order) \<and>
     reply (task (us ! 0)) = concat (map ((!) [[CHR ''a'', newline], [CHR ''b'', newline]]) (take k order))"
proof -
  let ?lines = "[[CHR ''a'', newline], [CHR ''b'', newline]]" and ?reqs = "[Put [[CHR ''a'', newline]], Put [[CHR ''b'', newline]]]"
  obtain st c w where c: "interleaved loaded ?reqs [(1, [CHR ''b'', newline]), (0, [CHR ''a'', newline])] st [c, w]"
      "phase c = Closed"
    using two_lines_run by blast
  then obtain us where us: "statement_system loaded ?reqs st us" "map task us = [c, w]" "\<forall>u \<in> set us. point (kthr u) = Idle"
    using calls_in_system [OF c(1) loaded_inv(1)] by (auto simp: small_request_def)
  then have c': "task (us ! 0) = c" "point (kthr (us ! 0)) = Idle" by (auto simp: map_eq_Cons_conv)
  have sys: "statement_system loaded (map (\<lambda>l. Put [l]) ?lines) st us" using us(1) by simp
  obtain order where o: "distinct order" "set order \<subseteq> {..<length ?lines}"
      "\<forall>i < length ?lines. point (kthr (us ! i)) = Idle \<and> phase (task (us ! i)) = Closed \<longrightarrow>
        (\<exists>k. i \<in> set (take k order) \<and> reply (task (us ! i)) = concat (a_cmds (absdev loaded) @ map ((!) ?lines) (take k order)))"
    using replies_of_statements [OF sys loaded_inv(1)] by (fastforce simp: loaded_inv)
  from o(3) [rule_format, of 0] c' c(2) obtain k where
    "0 \<in> set (take k order)" "reply (task (us ! 0)) = concat (map ((!) ?lines) (take k order))"
    by (auto simp: loaded_inv)
  moreover have "set order \<subseteq> {0, 1}" using o(2) by (auto simp: lessThan_def less_2_cases_iff numeral_2_eq_2 less_Suc_eq)
  ultimately show ?thesis using us(1) c' c(2) o(1) by blast
qed

text \<open>C17: no deadlock between the server's threads and the driver's mutex: as long as a client is not done, some
  thread can enter its next call, execute its next statement or take a result, unless a write has got NULL
  from \<open>krealloc\<close> and its next statement, with the mutex held, accesses memory through that pointer.\<close>

theorem system_goes_on:
  assumes "statement_system st0 reqs st us" and "dev_inv st0" and "\<forall>r \<in> set reqs. small_request r"
    and "u \<in> set us" and "\<not> over u"
  shows "(\<exists>v \<in> set us. can_step st v) \<or>
    (\<exists>v \<in> set us. out_of_memory st v \<and> inside (point (kthr v)) \<and> (\<forall>w \<in> set us. inside (point (kthr w)) \<longrightarrow> w = v))"
proof -
  have "\<not> lock (aesd_device st0)" using assms(2) by (simp add: dev_inv_def)
  then obtain writes sta where sim: "simulates st0 reqs st us writes sta"
    using statements_simulated [OF assms(1)] by blast
  moreover have "inside (point (kthr v))" if "out_of_memory st v" for v
    using that by (auto simp: out_of_memory_def)
  ultimately show ?thesis
    using somebody_steps [OF sim assms(2-5)] only_inside [OF sim] by blast
qed

text \<open>Two clients on the empty device: one reads with the mutex, the other waits for it.\<close>

lemma two_users:
  "\<exists>st u v cmd arg. statement_system loaded [Jump 0 0, Jump 0 0] st [u, v] \<and> point (kthr u) = Ioctl_copy cmd arg \<and>
     waits (kthr v) st \<and> \<not> over v"
proof -
  let ?c = "new_client loaded (Jump 0 0)"
  let ?sc = "Ioctl (AESDCHAR_IOCSEEKTO ref_kernel) \<lparr>write_cmd = 0, write_cmd_offset = 0\<rparr>"
  let ?u = "\<lambda>pt. \<lparr>task = ?c, kthr = \<lparr>kern = ref_kernel, tfile = cfile ?c, point = pt\<rparr>\<rparr>"
  have p: "phase ?c = Seeking 0 0" "private_data (cfile ?c) = dev_addr loaded"
    using new_client_ok [of loaded "Jump 0 0"] by (simp_all add: file_ok_def) (simp add: new_client_def)
  have s0: "statement_system loaded [Jump 0 0, Jump 0 0] loaded [?u Idle, ?u Idle]"
    by (rule statement_system.start) (auto simp: less_Suc_eq)
  have s1: "statement_system loaded [Jump 0 0, Jump 0 0] loaded [?u (At_lock ?sc), ?u Idle]"
    using statement_system.enter [OF s0, of 0 ref_kernel ?sc] p by (simp add: ref_steady)
  have s2: "statement_system loaded [Jump 0 0, Jump 0 0] loaded [?u (At_lock ?sc), ?u (At_lock ?sc)]"
    using statement_system.enter [OF s1, of 1 ref_kernel ?sc] p by (simp add: ref_steady)
  have "handler_stmt ref_kernel (cfile ?c) (At_lock ?sc) loaded = Done (cfile ?c, first_point ?sc, set_lock True loaded)"
    using p(2) by (simp add: ref_select)
  moreover have "\<not> waits \<lparr>kern = ref_kernel, tfile = cfile ?c, point = At_lock ?sc\<rparr> loaded"
    by (simp add: waits_def loaded_simps zero_dev_def)
  ultimately have "statement_system loaded [Jump 0 0, Jump 0 0] (set_lock True loaded) [?u (first_point ?sc), ?u (At_lock ?sc)]"
    using statement_system.stmt [OF s2, of 0] by simp
  moreover have "waits (kthr (?u (At_lock ?sc))) (set_lock True loaded)"
    by (simp add: waits_def set_lock_def ref_select)
  ultimately show ?thesis
    using p(1) by (intro exI [of _ "set_lock True loaded"] exI [of _ "?u (first_point ?sc)"] exI [of _ "?u (At_lock ?sc)"])
      (simp add: over_def)
qed

theorem system_goes_on_witness:
  "\<exists>st u v. statement_system loaded [Jump 0 0, Jump 0 0] st [u, v] \<and> \<not> can_step st v \<and> can_step st u"
proof -
  obtain st u v where s: "statement_system loaded [Jump 0 0, Jump 0 0] st [u, v]" "\<exists>cmd arg. point (kthr u) = Ioctl_copy cmd arg"
      "waits (kthr v) st" "\<not> over v"
    using two_users by blast
  have v: "\<not> can_step st v" "\<not> inside (point (kthr v))"
    using s(3) by (auto simp: can_step_def waits_def)
  have "\<not> out_of_memory st u" "\<not> out_of_memory st v" using s(2) v(2) by (auto simp: out_of_memory_def)
  then have "can_step st u"
    using system_goes_on [OF s(1) loaded_inv(1), of v] s(4) v by (auto simp: small_request_def)
  with s(1) v(1) show ?thesis by blast
qed

end
