(* ===== verification/Concurrent_Files.thy ===== *)
theory Concurrent_Files
  imports Device_Server "HOL-Library.Sublist"
begin

text \<open>
  The other build of \<^verbatim>\<open>server/aesdsocket.c\<close>, for the data file (\<open>USE_AESD_CHAR_DEVICE\<close> 0), with several
  connections and the timer thread at once. A thread takes the global mutex, opens the file for
  appending, writes its line through stdio, one \<open>write\<close> for each buffer, seeks back and gives the mutex
  back; a connection then reads the file to its end without the mutex and sends what it reads. The
  timer thread appends its time stamps, one turn for each. Between any two of these steps any other
  thread can take one. Opening the file or a write can fail, a write after any number of bytes: the
  thread finds the stream's error and ends the whole process, still with the mutex.
\<close>

section \<open>Threads and their steps\<close>

text \<open>\<open>stamps\<close> is \<open>None\<close> for a connection, and the stamps of the rounds to come for the timer thread. A turn of
  a thread writes a list of buffers; a line with a seek command writes none, as the \<open>ioctl\<close> fails on a
  plain file.\<close>

datatype file_point = F_lock "string list" | F_write "string list" | F_failed "string list" | F_unlock | F_read | F_over

record file_thread =
  at_point :: file_point
  offset :: nat
  sent :: string
  stamps :: "string list option"

record file_state =
  contents :: string
  owner :: "nat option"
  exited :: bool

definition file_turn :: "(string \<Rightarrow> string list) \<Rightarrow> string \<Rightarrow> string list" where
  "file_turn split s = (if c_strstr s ''AESDCHAR_IOCSEEKTO'' then [] else split s)"

definition connection :: "string list \<Rightarrow> file_thread" where
  "connection cs = \<lparr>at_point = F_lock cs, offset = 0, sent = [], stamps = None\<rparr>"

definition next_round :: "string list \<Rightarrow> file_thread \<Rightarrow> file_thread" where
  "next_round ts th = (case ts of [] \<Rightarrow> th\<lparr>at_point := F_over, stamps := Some []\<rparr>
     | t # ts \<Rightarrow> th\<lparr>at_point := F_lock [t], stamps := Some ts\<rparr>)"

definition timer :: "string list \<Rightarrow> file_thread" where
  "timer ts = next_round ts \<lparr>at_point = F_over, offset = 0, sent = [], stamps = None\<rparr>"

text \<open>\<open>None\<close>: the thread waits for the mutex, or is over. The second argument is the answer to a call of \<^verbatim>\<open>fopen\<close> or
  \<^verbatim>\<open>write\<close>: \<open>None\<close> when it succeeds, and the number of bytes that were written when it fails. \<open>F_failed\<close> is the test of
  \<^verbatim>\<open>fp\<close> or \<^verbatim>\<open>ferror\<close> that leads to \<^verbatim>\<open>exit(1)\<close>; it keeps what was not written.\<close>

fun file_step :: "nat \<Rightarrow> nat option \<Rightarrow> file_point \<Rightarrow> file_state \<Rightarrow> file_thread \<Rightarrow> (file_state \<times> file_thread) option" where
  "file_step i ans (F_lock cs) s th =
     (if owner s = None
      then Some (s\<lparr>owner := Some i\<rparr>, th\<lparr>at_point := (if ans = None then F_write cs else F_failed cs), offset := 0\<rparr>) else None)"
| "file_step i ans (F_write (c # cs)) s th =
     (case ans of
        None \<Rightarrow> Some (s\<lparr>contents := contents s @ c\<rparr>, th\<lparr>at_point := F_write cs\<rparr>)
      | Some n \<Rightarrow> Some (s\<lparr>contents := contents s @ take n c\<rparr>, th\<lparr>at_point := F_failed (drop n c # cs)\<rparr>))"
| "file_step i ans (F_write []) s th = Some (s, th\<lparr>at_point := F_unlock, offset := 0\<rparr>)"
| "file_step i ans (F_failed cs) s th = Some (s\<lparr>exited := True\<rparr>, th)"
| "file_step i ans F_unlock s th =
     Some (s\<lparr>owner := None\<rparr>, case stamps th of None \<Rightarrow> th\<lparr>at_point := F_read\<rparr> | Some ts \<Rightarrow> next_round ts th)"
| "file_step i ans F_read s th =
     (let bs = take 4096 (drop (offset th) (contents s))
      in Some (s, if bs = [] then th\<lparr>at_point := F_over\<rparr>
                  else th\<lparr>offset := offset th + length bs, sent := sent th @ bs\<rparr>))"
| "file_step i ans F_over s th = None"

text \<open>\<open>turns\<close> keeps which thread got the mutex to write what, in order. Once the process has exited no thread
  takes a step.\<close>

definition turn :: "nat \<Rightarrow> file_point \<Rightarrow> (nat \<times> string list) list" where
  "turn i p = (case p of F_lock cs \<Rightarrow> [(i, cs)] | _ \<Rightarrow> [])"

inductive file_system :: "string \<Rightarrow> file_thread list \<Rightarrow> (nat \<times> string list) list \<Rightarrow> file_state \<Rightarrow> file_thread list \<Rightarrow> bool"
  for t0 ths0 where
  start: "(\<forall>th \<in> set ths0. (\<exists>cs. th = connection cs) \<or> (\<exists>ts. th = timer ts)) \<Longrightarrow>
    file_system t0 ths0 [] \<lparr>contents = t0, owner = None, exited = False\<rparr> ths0"
| step: "file_system t0 ths0 turns s ths \<Longrightarrow> \<not> exited s \<Longrightarrow> i < length ths \<Longrightarrow>
    file_step i ans (at_point (ths ! i)) s (ths ! i) = Some (s', th') \<Longrightarrow>
    file_system t0 ths0 (turns @ turn i (at_point (ths ! i))) s' (ths[i := th'])"

section \<open>What every interleaving keeps\<close>

definition written_by :: "string \<Rightarrow> (nat \<times> string list) list \<Rightarrow> string" where
  "written_by t0 turns = t0 @ concat (map (concat \<circ> snd) turns)"

fun in_turn :: "file_point \<Rightarrow> bool" where
  "in_turn (F_write cs) \<longleftrightarrow> True"
| "in_turn (F_failed cs) \<longleftrightarrow> True"
| "in_turn F_unlock \<longleftrightarrow> True"
| "in_turn p \<longleftrightarrow> False"

fun still_to_write :: "file_point \<Rightarrow> string list" where
  "still_to_write (F_write cs) = cs"
| "still_to_write (F_failed cs) = cs"
| "still_to_write p = []"

text \<open>The mutex and the file: without an owner no thread is in its turn, and the file holds the turns whole;
  with one, only the owner is, and of its turn the file holds what it has written so far. The process exits
  in a turn only.\<close>

definition part_of_turn :: "string \<Rightarrow> nat \<Rightarrow> file_point \<Rightarrow> (nat \<times> string list) list \<Rightarrow> string \<Rightarrow> bool" where
  "part_of_turn t0 i p turns text \<longleftrightarrow> (\<exists>before ws part. text = written_by t0 before @ part \<and>
     turns = before @ [(i, ws)] \<and> concat ws = part @ concat (still_to_write p))"

definition turns_whole :: "string \<Rightarrow> (nat \<times> string list) list \<Rightarrow> file_state \<Rightarrow> file_thread list \<Rightarrow> bool" where
  "turns_whole t0 turns s ths \<longleftrightarrow>
     (\<forall>i < length ths. in_turn (at_point (ths ! i)) \<longleftrightarrow> owner s = Some i) \<and> (exited s \<longrightarrow> owner s \<noteq> None) \<and>
     (case owner s of
        None \<Rightarrow> contents s = written_by t0 turns
      | Some i \<Rightarrow> i < length ths \<and> part_of_turn t0 i (at_point (ths ! i)) turns (contents s))"

text \<open>The connection with the buffers \<open>cs0\<close>: it has no turn before it gets the mutex; when it reads, the file holds
  everything up to its turn, and it has sent the file up to its offset.\<close>

definition before_own :: "string \<Rightarrow> nat \<Rightarrow> (nat \<times> string list) list \<Rightarrow> string \<Rightarrow> bool" where
  "before_own t0 i turns text \<longleftrightarrow> (\<exists>as cs bs. turns = as @ (i, cs) # bs \<and> prefix (written_by t0 (as @ [(i, cs)])) text)"

fun reader_inv :: "string \<Rightarrow> nat \<Rightarrow> string list \<Rightarrow> (nat \<times> string list) list \<Rightarrow> string \<Rightarrow> file_point \<Rightarrow> nat \<Rightarrow> string \<Rightarrow> bool" where
  "reader_inv t0 i cs0 turns text (F_lock cs) p got \<longleftrightarrow> cs = cs0 \<and> i \<notin> fst ` set turns \<and> got = []"
| "reader_inv t0 i cs0 turns text (F_write cs) p got \<longleftrightarrow> got = []"
| "reader_inv t0 i cs0 turns text (F_failed cs) p got \<longleftrightarrow> got = []"
| "reader_inv t0 i cs0 turns text F_unlock p got \<longleftrightarrow> p = 0 \<and> got = []"
| "reader_inv t0 i cs0 turns text F_read p got \<longleftrightarrow> before_own t0 i turns text \<and> prefix got text \<and> p = length got"
| "reader_inv t0 i cs0 turns text F_over p got \<longleftrightarrow> before_own t0 i turns got \<and> prefix got text"

definition conn_ok :: "string \<Rightarrow> nat \<Rightarrow> string list \<Rightarrow> (nat \<times> string list) list \<Rightarrow> string \<Rightarrow> file_thread \<Rightarrow> bool" where
  "conn_ok t0 i cs0 turns text th \<longleftrightarrow> stamps th = None \<and> filter (\<lambda>x. fst x = i) turns \<in> {[], [(i, cs0)]} \<and>
     reader_inv t0 i cs0 turns text (at_point th) (offset th) (sent th)"

lemma before_own_more: "before_own t0 i turns text \<Longrightarrow> before_own t0 i (turns @ ts) text"
  unfolding before_own_def by (metis append.assoc append_Cons)

lemma before_own_grow: "before_own t0 i turns text \<Longrightarrow> prefix text text' \<Longrightarrow> before_own t0 i turns text'"
  unfolding before_own_def by (blast intro: prefix_order.trans)

text \<open>One step of a thread, seen by itself and by the others.\<close>

lemma file_step_grows: "file_step i ans p s th = Some (s', th') \<Longrightarrow> prefix (contents s) (contents s')"
  by (cases "(i, ans, p, s, th)" rule: file_step.cases) (auto simp: Let_def split: if_splits option.splits)

lemma next_round_point: "at_point (next_round ts th) = F_over \<or> (\<exists>t. at_point (next_round ts th) = F_lock [t])"
  by (simp add: next_round_def split: list.splits)

lemma next_round_outside: "\<not> in_turn (at_point (next_round ts th))"
  using next_round_point [of ts th] by auto

lemma start_points:
  assumes "(\<exists>cs. th = connection cs) \<or> (\<exists>ts. th = timer ts)"
  shows "\<not> in_turn (at_point th)"
  using assms next_round_outside by (auto simp: connection_def timer_def)

lemma turns_wholeD:
  assumes "turns_whole t0 turns s ths" and "i < length ths" "in_turn (at_point (ths ! i))"
  shows "owner s = Some i" and "part_of_turn t0 i (at_point (ths ! i)) turns (contents s)"
  using assms by (auto simp: turns_whole_def split: option.splits)

lemma turns_wholeI:
  assumes "turns_whole t0 turns s ths" and "i < length ths" and "owner s = None \<or> owner s = Some i"
    and "in_turn (at_point th')" and "part_of_turn t0 i (at_point th') turns' (contents s')" "owner s' = Some i"
  shows "turns_whole t0 turns' s' (ths[i := th'])"
  using assms by (auto simp: turns_whole_def nth_list_update)

lemma part_more: "part_of_turn t0 i p turns text \<Longrightarrow> concat (still_to_write p) = c @ concat (still_to_write p') \<Longrightarrow>
    part_of_turn t0 i p' turns (text @ c)"
  unfolding part_of_turn_def by (metis append.assoc)

lemma step_turns_whole:
  assumes inv: "turns_whole t0 turns s ths" and live: "\<not> exited s" and i: "i < length ths"
    and st: "file_step i ans (at_point (ths ! i)) s (ths ! i) = Some (s', th')"
  shows "turns_whole t0 (turns @ turn i (at_point (ths ! i))) s' (ths[i := th'])"
proof (cases "at_point (ths ! i)")
  case (F_lock cs)
  then have o: "owner s = None" "s' = s\<lparr>owner := Some i\<rparr>" "at_point th' = (if ans = None then F_write cs else F_failed cs)"
    using st by (auto split: if_splits)
  then have "contents s = written_by t0 turns" using inv by (simp add: turns_whole_def)
  with o show ?thesis
    using F_lock by (intro turns_wholeI [OF inv i]) (auto simp: turn_def part_of_turn_def)
next
  case (F_write cs)
  then have "in_turn (at_point (ths ! i))" by simp
  note own = turns_wholeD [OF inv i this]
  have none: "turn i (at_point (ths ! i)) = []" using F_write by (simp add: turn_def)
  have "\<exists>c. contents s' = contents s @ c \<and> concat cs = c @ concat (still_to_write (at_point th')) \<and> in_turn (at_point th') \<and>
      owner s' = owner s"
    using st F_write by (cases cs) (auto split: option.splits simp flip: append_assoc)
  then obtain c where c: "contents s' = contents s @ c" "concat cs = c @ concat (still_to_write (at_point th'))"
      "in_turn (at_point th')" "owner s' = owner s" by blast
  have "part_of_turn t0 i (at_point th') turns (contents s @ c)"
    by (rule part_more [OF own(2)]) (use F_write c(2) in simp)
  with c own(1) none show ?thesis by (intro turns_wholeI [OF inv i]) simp_all
next
  case (F_failed cs)
  then have "in_turn (at_point (ths ! i))" by simp
  note own = turns_wholeD [OF inv i this]
  have "s' = s\<lparr>exited := True\<rparr>" "th' = ths ! i" using st F_failed by auto
  with own F_failed show ?thesis by (intro turns_wholeI [OF inv i]) (simp_all add: turn_def)
next
  case F_unlock
  then have "in_turn (at_point (ths ! i))" by simp
  note own = turns_wholeD [OF inv i this]
  have "s' = s\<lparr>owner := None\<rparr>" "\<not> in_turn (at_point th')"
    using st F_unlock by (auto simp: next_round_outside split: option.splits)
  with inv live i F_unlock own show ?thesis
    by (auto simp: turns_whole_def turn_def nth_list_update written_by_def part_of_turn_def)
next
  case F_read
  then have "s' = s" "\<not> in_turn (at_point th')" using st by (auto simp: Let_def split: if_splits)
  with inv i F_read show ?thesis
    by (auto simp: turns_whole_def turn_def nth_list_update split: option.splits)
qed (use st in simp)

lemma conn_ok_others:
  assumes "conn_ok t0 i cs0 turns text th" and "prefix text text'" and "j \<noteq> i"
  shows "conn_ok t0 i cs0 (turns @ turn j p) text' th"
proof -
  have "filter (\<lambda>x. fst x = i) (turn j p) = []" "i \<notin> fst ` set (turn j p)"
    using assms(3) by (auto simp: turn_def split: file_point.splits)
  then show ?thesis
    using assms(1,2) unfolding conn_ok_def
    by (cases "at_point th") (auto intro: before_own_more before_own_grow prefix_order.trans)
qed

lemma conn_ok_own:
  assumes ok: "conn_ok t0 i cs0 turns (contents s) th" and whole: "turns_whole t0 turns s ths"
    and i: "i < length ths" "th = ths ! i"
    and st: "file_step i ans (at_point th) s th = Some (s', th')"
  shows "conn_ok t0 i cs0 (turns @ turn i (at_point th)) (contents s') th'"
proof (cases "at_point th")
  case (F_lock cs)
  then have "i \<notin> fst ` set turns" "cs = cs0" using ok by (auto simp: conn_ok_def)
  moreover from this(1) have "filter (\<lambda>x. fst x = i) turns = []" by (force simp: filter_empty_conv)
  ultimately show ?thesis
    using ok st F_lock by (auto simp: conn_ok_def turn_def split: if_splits)
next
  case (F_write cs)
  then show ?thesis
    using ok st by (cases cs) (auto simp: conn_ok_def turn_def split: option.splits)
next
  case (F_failed cs)
  then show ?thesis using ok st by (auto simp: conn_ok_def turn_def)
next
  case F_unlock
  then have "part_of_turn t0 i F_unlock turns (contents s)"
    using turns_wholeD(2) [OF whole i(1)] i(2) by auto
  then obtain before ws where "turns = before @ [(i, ws)]" "written_by t0 turns = contents s"
    by (auto simp: part_of_turn_def written_by_def)
  then have "before_own t0 i turns (contents s)"
    unfolding before_own_def by (metis prefix_order.refl)
  then show ?thesis
    using ok st F_unlock by (auto simp: conn_ok_def turn_def)
next
  case F_read
  let ?bs = "take 4096 (drop (offset th) (contents s))"
  have p: "prefix (sent th) (contents s)" "offset th = length (sent th)" "before_own t0 i turns (contents s)"
    using ok F_read by (auto simp: conn_ok_def)
  show ?thesis
  proof (cases "?bs = []")
    case True
    then have "length (contents s) \<le> length (sent th)" using p(2) by simp
    then have "sent th = contents s" using p(1) by (metis prefix_length_le prefix_length_prefix prefix_order.antisym prefix_order.refl)
    then show ?thesis
      using ok st F_read True p by (auto simp: conn_ok_def turn_def Let_def)
  next
    case False
    obtain more where more: "contents s = sent th @ more" using p(1) by (auto simp: prefix_def)
    then have "prefix (sent th @ ?bs) (contents s)"
      using p(2) by (simp add: take_is_prefix)
    then show ?thesis
      using ok st F_read False p by (auto simp: conn_ok_def turn_def Let_def)
  qed
qed (use st in simp)

lemma file_system_inv:
  assumes "file_system t0 ths0 turns s ths"
  shows "turns_whole t0 turns s ths \<and> length ths = length ths0 \<and>
    (\<forall>i < length ths. \<forall>cs0. ths0 ! i = connection cs0 \<longrightarrow> conn_ok t0 i cs0 turns (contents s) (ths ! i))"
  using assms
proof induction
  case start
  then have "\<forall>i < length ths0. \<not> in_turn (at_point (ths0 ! i))" using start_points by (metis nth_mem)
  then show ?case by (auto simp: turns_whole_def written_by_def conn_ok_def connection_def)
next
  case (step turns s ths i ans s' th')
  then have whole: "turns_whole t0 turns s ths" and len: "length ths = length ths0" by auto
  have "conn_ok t0 j cs0 (turns @ turn i (at_point (ths ! i))) (contents s') (ths[i := th'] ! j)"
    if j: "j < length ths" "ths0 ! j = connection cs0" for j cs0
  proof (cases "j = i")
    case True
    with conn_ok_own [OF _ whole step.hyps(3) refl step.hyps(4)] step.IH j show ?thesis by simp
  next
    case False
    with conn_ok_others [OF _ file_step_grows [OF step.hyps(4)]] step.IH j show ?thesis by simp
  qed
  with step_turns_whole [OF whole step.hyps(2-4)] len show ?case by simp
qed

section \<open>Every run ends\<close>

text \<open>What the threads have still to write is written for the readers to read, unless a write fails, so a bound of
  the end of the file is known from the start.\<close>

definition unwritten :: "file_thread \<Rightarrow> nat" where
  "unwritten th = (case at_point th of F_lock cs \<Rightarrow> length (concat cs) | F_write cs \<Rightarrow> length (concat cs) | _ \<Rightarrow> 0) +
     (case stamps th of None \<Rightarrow> 0 | Some ts \<Rightarrow> length (concat ts))"

definition final_length :: "file_state \<Rightarrow> file_thread list \<Rightarrow> nat" where
  "final_length s ths = length (contents s) + sum_list (map unwritten ths)"

definition thread_left :: "nat \<Rightarrow> file_thread \<Rightarrow> nat" where
  "thread_left n th =
     (let later = (case stamps th of None \<Rightarrow> n + 1 | Some ts \<Rightarrow> 5 * length ts)
      in case at_point th of F_lock cs \<Rightarrow> length cs + 3 + later | F_write cs \<Rightarrow> length cs + 2 + later
         | F_failed cs \<Rightarrow> 0 | F_unlock \<Rightarrow> 1 + later | F_read \<Rightarrow> Suc (n - offset th) | F_over \<Rightarrow> 0)"

definition steps_to_end :: "file_state \<Rightarrow> file_thread list \<Rightarrow> nat" where
  "steps_to_end s ths = (if exited s then 0 else Suc (sum_list (map (thread_left (final_length s ths)) ths)))"

lemma sum_list_step:
  fixes f :: "'a \<Rightarrow> nat"
  assumes "i < length xs"
  shows "sum_list (map f (xs[i := x])) + f (xs ! i) = sum_list (map f xs) + f x"
proof -
  have "f (xs ! i) \<le> sum_list (map f xs)" using assms by (intro member_le_sum_list) auto
  then show ?thesis
    using assms sum_list_update [of i "map f xs" "f x"] by (simp add: map_update)
qed

lemma step_final_length:
  assumes "i < length ths" and "file_step i ans (at_point (ths ! i)) s (ths ! i) = Some (s', th')"
  shows "final_length s' (ths[i := th']) \<le> final_length s ths"
proof -
  have "length (contents s') + unwritten th' \<le> length (contents s) + unwritten (ths ! i)"
    using assms(2)
    by (cases "(i, ans, at_point (ths ! i), s, ths ! i)" rule: file_step.cases)
      (auto simp: unwritten_def next_round_def Let_def split: if_splits option.splits list.splits)
  with sum_list_step [OF assms(1), of unwritten th'] show ?thesis
    by (simp add: final_length_def)
qed

lemma step_thread_left:
  assumes "file_step i ans (at_point th) s th = Some (s', th')" and "length (contents s) \<le> n" and "\<forall>cs. at_point th \<noteq> F_failed cs"
  shows "thread_left n th' < thread_left n th"
proof (cases "at_point th")
  case F_read
  then show ?thesis using assms by (auto simp: thread_left_def Let_def split: if_splits)
next
  case (F_write cs)
  then show ?thesis using assms by (cases cs) (auto simp: thread_left_def Let_def split: option.splits)
qed (use assms in \<open>auto simp: thread_left_def next_round_def Let_def neq_Nil_conv split: if_splits option.splits list.splits\<close>)

lemma thread_left_mono: "m \<le> n \<Longrightarrow> thread_left m th \<le> thread_left n th"
  by (auto simp: thread_left_def Let_def split: file_point.splits option.splits)

lemma step_decreases:
  assumes "\<not> exited s" and "i < length ths" and st: "file_step i ans (at_point (ths ! i)) s (ths ! i) = Some (s', th')"
  shows "steps_to_end s' (ths[i := th']) < steps_to_end s ths"
proof (cases "\<exists>cs. at_point (ths ! i) = F_failed cs")
  case True
  with st assms(1) show ?thesis by (auto simp: steps_to_end_def)
next
  case False
  let ?n = "final_length s ths" and ?m = "final_length s' (ths[i := th'])"
  have "sum_list (map (thread_left ?m) (ths[i := th'])) \<le> sum_list (map (thread_left ?n) (ths[i := th']))"
    by (intro sum_list_mono thread_left_mono step_final_length [OF assms(2) st])
  also have "\<dots> < sum_list (map (thread_left ?n) ths)"
    using step_thread_left [OF st, of ?n] sum_list_step [OF assms(2), of "thread_left ?n" th'] False
    by (simp add: final_length_def)
  finally show ?thesis using assms(1) by (simp add: steps_to_end_def)
qed

lemma someone_steps:
  assumes "turns_whole t0 turns s ths" and "th \<in> set ths" "at_point th \<noteq> F_over"
  shows "\<exists>i < length ths. file_step i ans (at_point (ths ! i)) s (ths ! i) \<noteq> None"
proof -
  have inside: "file_step i ans p s th \<noteq> None" if "in_turn p" for i p th
    using that by (cases "(i, ans, p, s, th)" rule: file_step.cases) (auto split: option.splits)
  show ?thesis
  proof (cases "owner s")
    case (Some i)
    with assms(1) inside show ?thesis by (auto simp: turns_whole_def)
  next
    case None
    obtain i where i: "i < length ths" "ths ! i = th" using assms(2) by (auto simp: in_set_conv_nth)
    have "file_step i ans (at_point th) s th \<noteq> None"
      using None assms(3) inside by (cases "at_point th") (auto simp: Let_def)
    with i show ?thesis by blast
  qed
qed

section \<open>One turn\<close>

text \<open>What a turn writes is what \<open>appendToFile\<close> writes to the data file.\<close>

lemma turn_appends:
  assumes "appendToFile (file_ops split) (Some (text, 0)) s = Done (Ret (text', p))"
  shows "text' = text @ concat (file_turn split s) \<and> p = 0"
proof -
  have "d_split (file_ops split) = split" "d_rewind (file_ops split) (u, q) = Done (u, 0)"
    "d_ioctl (file_ops split) (u, q) c off = Done (- 1, (u, q))" for u q c off
    by (simp_all add: file_ops_def)
  with assms show ?thesis
    by (auto simp: appendToFile_def c_fputs_def file_turn_def file_write_chunks split: if_splits)
qed

text \<open>The steps of the threads in a given order, with the answers they get, each of which has to be possible.\<close>

fun file_schedule :: "(nat \<times> nat option) list \<Rightarrow> (nat \<times> string list) list \<times> file_state \<times> file_thread list \<Rightarrow>
    ((nat \<times> string list) list \<times> file_state \<times> file_thread list) option" where
  "file_schedule [] c = Some c"
| "file_schedule ((i, ans) # is) (turns, s, ths) =
     (if \<not> exited s \<and> i < length ths then
        (case file_step i ans (at_point (ths ! i)) s (ths ! i) of
           None \<Rightarrow> None
         | Some (s', th') \<Rightarrow> file_schedule is (turns @ turn i (at_point (ths ! i)), s', ths[i := th']))
      else None)"

lemma schedule_system:
  "file_schedule is (turns, s, ths) = Some (turns', s', ths') \<Longrightarrow> file_system t0 ths0 turns s ths \<Longrightarrow>
    file_system t0 ths0 turns' s' ths'"
proof (induction "is" arbitrary: turns s ths)
  case (Cons step "is")
  obtain i ans where step: "step = (i, ans)" by fastforce
  with Cons.prems obtain s1 th1 where "\<not> exited s" "i < length ths" "file_step i ans (at_point (ths ! i)) s (ths ! i) = Some (s1, th1)"
      "file_schedule is (turns @ turn i (at_point (ths ! i)), s1, ths[i := th1]) = Some (turns', s', ths')"
    by (auto split: if_splits option.splits)
  with Cons.IH file_system.step [OF Cons.prems(2)] show ?case by blast
qed simp

lemma schedule_append:
  "file_schedule (is @ js) c = Option.bind (file_schedule is c) (file_schedule js)"
  by (induction "is" c rule: file_schedule.induct) (auto split: option.splits)

text \<open>The moment a connection found the end of the file: it had sent the file as it was then.\<close>

definition end_seen :: "string \<Rightarrow> file_thread list \<Rightarrow> nat \<Rightarrow> string list \<Rightarrow> string \<Rightarrow>
    (nat \<times> string list) list \<times> file_state \<times> file_thread list \<Rightarrow> bool" where
  "end_seen t0 ths0 i cs got now \<longleftrightarrow> (\<exists>turns s ths later before after. file_system t0 ths0 turns s ths \<and>
     file_schedule later (turns, s, ths) = Some now \<and> turns = before @ (i, cs) # after \<and> contents s = got \<and>
     prefix (written_by t0 (before @ [(i, cs)])) got)"

lemma end_seenI:
  "file_system t0 ths0 turns s ths \<Longrightarrow> file_schedule later (turns, s, ths) = Some now \<Longrightarrow>
    turns = before @ (i, cs) # after \<Longrightarrow> contents s = got \<Longrightarrow> prefix (written_by t0 (before @ [(i, cs)])) got \<Longrightarrow>
    end_seen t0 ths0 i cs got now"
  unfolding end_seen_def by (intro exI conjI)

lemma end_seenE:
  assumes "end_seen t0 ths0 i cs got now"
  obtains turns s ths later before after where "file_system t0 ths0 turns s ths"
    "file_schedule later (turns, s, ths) = Some now" "turns = before @ (i, cs) # after" "contents s = got"
    "prefix (written_by t0 (before @ [(i, cs)])) got"
  using assms unfolding end_seen_def by (elim exE conjE)

lemma end_seen_later:
  assumes "end_seen t0 ths0 i cs got (turns, s, ths)" and "\<not> exited s" "j < length ths"
    and "file_step j ans (at_point (ths ! j)) s (ths ! j) = Some (s', th')"
  shows "end_seen t0 ths0 i cs got (turns @ turn j (at_point (ths ! j)), s', ths[j := th'])"
proof -
  from assms(1) obtain turns1 s1 ths1 later before after where e: "file_system t0 ths0 turns1 s1 ths1"
    "file_schedule later (turns1, s1, ths1) = Some (turns, s, ths)" "turns1 = before @ (i, cs) # after" "contents s1 = got"
    "prefix (written_by t0 (before @ [(i, cs)])) got" by (rule end_seenE)
  have "file_schedule (later @ [(j, ans)]) (turns1, s1, ths1) = Some (turns @ turn j (at_point (ths ! j)), s', ths[j := th'])"
    using e(2) assms(2-4) by (simp add: schedule_append)
  from end_seenI [OF e(1) this e(3-5)] show ?thesis .
qed

lemma end_seen_now:
  assumes sys: "file_system t0 ths0 turns s ths" and i: "i < length ths" "ths0 ! i = connection cs"
    and r: "at_point (ths ! i) = F_read" "drop (offset (ths ! i)) (contents s) = []"
  shows "end_seen t0 ths0 i cs (sent (ths ! i)) (turns, s, ths)"
proof -
  have ok: "conn_ok t0 i cs turns (contents s) (ths ! i)" using file_system_inv [OF sys] i by blast
  then have p: "prefix (sent (ths ! i)) (contents s)" "offset (ths ! i) = length (sent (ths ! i))" "before_own t0 i turns (contents s)"
    using r(1) by (auto simp: conn_ok_def)
  obtain rest where "contents s = sent (ths ! i) @ rest" using p(1) by (auto simp: prefix_def)
  with p(2) r(2) have "contents s = sent (ths ! i)" by simp
  moreover obtain before cs' after where b: "turns = before @ (i, cs') # after" "prefix (written_by t0 (before @ [(i, cs')])) (contents s)"
    using p(3) by (auto simp: before_own_def)
  moreover have "cs' = cs" using ok b(1) by (auto simp: conn_ok_def append_eq_Cons_conv)
  ultimately show ?thesis by (intro end_seenI [OF sys, of "[]"]) simp_all
qed

lemma over_saw_end:
  assumes "file_system t0 ths0 turns s ths" and "i < length ths" "ths0 ! i = connection cs" "at_point (ths ! i) = F_over"
  shows "end_seen t0 ths0 i cs (sent (ths ! i)) (turns, s, ths)"
  using assms
proof (induction rule: file_system.induct)
  case start
  then show ?case by (simp add: connection_def)
next
  case (step turns s ths j ans s' th')
  have ok: "conn_ok t0 i cs turns (contents s) (ths ! i)" using file_system_inv [OF step.hyps(1)] step.prems(1,2) by auto
  have "end_seen t0 ths0 i cs (sent (ths[j := th'] ! i)) (turns, s, ths)"
  proof (cases "j = i")
    case False
    with step.IH step.prems show ?thesis by simp
  next
    case True
    have "stamps (ths ! i) = None" using ok by (simp add: conn_ok_def)
    with step.hyps(4) step.prems(1,3) True
    have r: "at_point (ths ! i) = F_read" "drop (offset (ths ! i)) (contents s) = []" "sent th' = sent (ths ! i)"
      by (cases "(i, ans, at_point (ths ! i), s, ths ! i)" rule: file_step.cases;
          auto simp: Let_def split: if_splits option.splits)+
    with end_seen_now [OF step.hyps(1) _ step.prems(2) r(1,2)] step.prems(1) True show ?thesis by simp
  qed
  from end_seen_later [OF this step.hyps(2-4)] show ?case .
qed

section \<open>The properties\<close>

text \<open>C22: connections and the timer thread of the build for the data file, with their steps interleaved in any
  way and any call of \<^verbatim>\<open>fopen\<close> or \<^verbatim>\<open>write\<close> failing: at most the owner of the mutex is in its turn; without an owner the
  file is the lines and stamps of all turns, whole and in the order of the turns; with one, it also
  holds a part of the last turn, and so it does when the process has exited over a failed call.\<close>

theorem file_keeps_lines:
  assumes "file_system t0 ths0 turns s ths"
  shows "(\<forall>i < length ths. in_turn (at_point (ths ! i)) \<longleftrightarrow> owner s = Some i) \<and> (exited s \<longrightarrow> owner s \<noteq> None) \<and>
    (case owner s of
       None \<Rightarrow> contents s = written_by t0 turns
     | Some i \<Rightarrow> prefix (written_by t0 (butlast turns)) (contents s) \<and> prefix (contents s) (written_by t0 turns))"
proof -
  have w: "turns_whole t0 turns s ths" using file_system_inv [OF assms] by blast
  show ?thesis
  proof (cases "owner s")
    case None
    with w show ?thesis by (simp add: turns_whole_def)
  next
    case (Some i)
    with w have "part_of_turn t0 i (at_point (ths ! i)) turns (contents s)" by (simp add: turns_whole_def)
    then have "prefix (written_by t0 (butlast turns)) (contents s) \<and> prefix (contents s) (written_by t0 turns)"
      by (auto simp: part_of_turn_def written_by_def)
    with w Some show ?thesis by (simp add: turns_whole_def)
  qed
qed

text \<open>C23: a connection that is done has had one turn, and at a moment of the run after that turn it had sent back
  the file exactly as it was then: everything up to its own line and what followed by that moment, whose
  end can be a part of another thread's line.\<close>

theorem file_replies:
  assumes "file_system t0 ths0 turns s ths" and "i < length ths" "ths0 ! i = connection cs" "at_point (ths ! i) = F_over"
  shows "filter (\<lambda>x. fst x = i) turns = [(i, cs)] \<and>
    (\<exists>turns1 s1 ths1 later before after. file_system t0 ths0 turns1 s1 ths1 \<and>
       file_schedule later (turns1, s1, ths1) = Some (turns, s, ths) \<and>
       turns1 = before @ (i, cs) # after \<and> contents s1 = sent (ths ! i) \<and>
       prefix (written_by t0 (before @ [(i, cs)])) (contents s1))"
proof -
  have "conn_ok t0 i cs turns (contents s) (ths ! i)"
    using file_system_inv [OF assms(1)] assms(2,3) by blast
  then have "before_own t0 i turns (sent (ths ! i))" "filter (\<lambda>x. fst x = i) turns \<in> {[], [(i, cs)]}"
    using assms(4) by (auto simp: conn_ok_def)
  then have "filter (\<lambda>x. fst x = i) turns = [(i, cs)]"
    by (auto simp: before_own_def)
  moreover from over_saw_end [OF assms] obtain turns1 s1 ths1 later before after where "file_system t0 ths0 turns1 s1 ths1"
    "file_schedule later (turns1, s1, ths1) = Some (turns, s, ths)" "turns1 = before @ (i, cs) # after"
    "contents s1 = sent (ths ! i)" "prefix (written_by t0 (before @ [(i, cs)])) (sent (ths ! i))" by (rule end_seenE)
  ultimately show ?thesis
    by (intro conjI exI [of _ turns1] exI [of _ s1] exI [of _ ths1] exI [of _ later] exI [of _ before] exI [of _ after]) simp_all
qed

text \<open>Whatever the order of the steps, as long as a thread is not over and the process has not exited some thread
  can take a step, and every step leaves fewer steps to take: there is no deadlock and every run ends.\<close>

theorem file_runs_end:
  assumes "file_system t0 ths0 turns s ths" and "\<not> exited s" and "th \<in> set ths" "at_point th \<noteq> F_over"
  shows "(\<exists>i < length ths. file_step i ans (at_point (ths ! i)) s (ths ! i) \<noteq> None) \<and>
    (\<forall>i ans s' th'. i < length ths \<and> file_step i ans (at_point (ths ! i)) s (ths ! i) = Some (s', th') \<longrightarrow>
       steps_to_end s' (ths[i := th']) < steps_to_end s ths)"
  using file_system_inv [OF assms(1)] someone_steps [OF _ assms(3,4)] step_decreases [OF assms(2)] by blast

section \<open>A connection, a long line and the timer\<close>

text \<open>The first connection writes and reads to the end while the second one has written the first of its two
  buffers; the timer thread comes last. Then the second write of the second one fails after a byte, and
  the process exits.\<close>

definition three_threads :: "file_thread list" where
  "three_threads = [connection [''a'' @ [newline]], connection [''lo'', ''ng'' @ [newline]], timer [''t'' @ [newline]]]"

definition three_turns :: "(nat \<times> string list) list" where
  "three_turns = [(0, [''a'' @ [newline]]), (1, [''lo'', ''ng'' @ [newline]])]"

lemma three_start: "file_system ''x'' three_threads [] \<lparr>contents = ''x'', owner = None, exited = False\<rparr> three_threads"
  by (rule file_system.start) (auto simp: three_threads_def)

lemma three_run:
  "\<exists>ths. file_system ''x'' three_threads three_turns
      \<lparr>contents = ''xa'' @ [newline] @ ''lo'', owner = Some 1, exited = False\<rparr> ths \<and> length ths = 3 \<and>
    at_point (ths ! 0) = F_over \<and> sent (ths ! 0) = ''xa'' @ [newline] @ ''lo'' \<and> ths ! 2 = timer [''t'' @ [newline]]"
proof -
  obtain ths where r: "file_schedule (map (\<lambda>i. (i, None)) [0, 0, 0, 0, 1, 1, 0, 0])
      ([], \<lparr>contents = ''x'', owner = None, exited = False\<rparr>, three_threads) =
      Some (three_turns, \<lparr>contents = ''xa'' @ [newline] @ ''lo'', owner = Some 1, exited = False\<rparr>, ths)"
    "length ths = 3" "at_point (ths ! 0) = F_over" "sent (ths ! 0) = ''xa'' @ [newline] @ ''lo''" "ths ! 2 = timer [''t'' @ [newline]]"
    by (simp add: three_threads_def three_turns_def connection_def turn_def Let_def)
  with schedule_system [OF r(1) three_start] show ?thesis by blast
qed

lemma three_exit:
  "\<exists>ths. file_system ''x'' three_threads three_turns
      \<lparr>contents = ''xa'' @ [newline] @ ''lon'', owner = Some 1, exited = True\<rparr> ths \<and> length ths = 3"
proof -
  obtain ths where r: "file_schedule [(0, None), (0, None), (0, None), (0, None), (1, None), (1, None), (1, Some 1), (1, None)]
      ([], \<lparr>contents = ''x'', owner = None, exited = False\<rparr>, three_threads) =
      Some (three_turns, \<lparr>contents = ''xa'' @ [newline] @ ''lon'', owner = Some 1, exited = True\<rparr>, ths)" "length ths = 3"
    by (simp add: three_threads_def three_turns_def connection_def turn_def Let_def)
  with schedule_system [OF r(1) three_start] show ?thesis by blast
qed

theorem file_keeps_lines_witness:
  "(\<exists>s ths. file_system ''x'' three_threads three_turns s ths \<and> contents s = ''xa'' @ [newline] @ ''lo'' \<and> \<not> exited s \<and>
      in_turn (at_point (ths ! 1)) \<and> \<not> in_turn (at_point (ths ! 2)) \<and>
      prefix (written_by ''x'' [(0, [''a'' @ [newline]])]) (contents s) \<and> prefix (contents s) (written_by ''x'' three_turns)) \<and>
   (\<exists>s ths. file_system ''x'' three_threads three_turns s ths \<and> contents s = ''xa'' @ [newline] @ ''lon'' \<and> exited s \<and>
      in_turn (at_point (ths ! 1)) \<and> prefix (contents s) (written_by ''x'' three_turns))"
proof (intro conjI)
  obtain ths where r: "file_system ''x'' three_threads three_turns
      \<lparr>contents = ''xa'' @ [newline] @ ''lo'', owner = Some 1, exited = False\<rparr> ths" "length ths = 3"
    using three_run by blast
  have "butlast three_turns = [(0, [''a'' @ [newline]])]" by (simp add: three_turns_def)
  with file_keeps_lines [OF r(1)] r show "\<exists>s ths. file_system ''x'' three_threads three_turns s ths \<and>
      contents s = ''xa'' @ [newline] @ ''lo'' \<and> \<not> exited s \<and> in_turn (at_point (ths ! 1)) \<and> \<not> in_turn (at_point (ths ! 2)) \<and>
      prefix (written_by ''x'' [(0, [''a'' @ [newline]])]) (contents s) \<and> prefix (contents s) (written_by ''x'' three_turns)"
    by (intro exI [of _ "\<lparr>contents = ''xa'' @ [newline] @ ''lo'', owner = Some 1, exited = False\<rparr>"] exI [of _ ths])
      (simp add: file_state.defs)
next
  obtain ths where r: "file_system ''x'' three_threads three_turns
      \<lparr>contents = ''xa'' @ [newline] @ ''lon'', owner = Some 1, exited = True\<rparr> ths" "length ths = 3"
    using three_exit by blast
  with file_keeps_lines [OF r(1)] show "\<exists>s ths. file_system ''x'' three_threads three_turns s ths \<and>
      contents s = ''xa'' @ [newline] @ ''lon'' \<and> exited s \<and> in_turn (at_point (ths ! 1)) \<and>
      prefix (contents s) (written_by ''x'' three_turns)"
    by (intro exI [of _ "\<lparr>contents = ''xa'' @ [newline] @ ''lon'', owner = Some 1, exited = True\<rparr>"] exI [of _ ths])
      (simp add: file_state.defs)
qed

theorem file_replies_witness:
  "\<exists>turns s ths turns1 s1 ths1 later. file_system ''x'' three_threads turns s ths \<and> at_point (ths ! 0) = F_over \<and>
    sent (ths ! 0) = ''xa'' @ [newline] @ ''lo'' \<and> file_system ''x'' three_threads turns1 s1 ths1 \<and>
    file_schedule later (turns1, s1, ths1) = Some (turns, s, ths) \<and> contents s1 = sent (ths ! 0)"
proof -
  obtain ths where r: "file_system ''x'' three_threads three_turns
      \<lparr>contents = ''xa'' @ [newline] @ ''lo'', owner = Some 1, exited = False\<rparr> ths" "length ths = 3" "at_point (ths ! 0) = F_over"
      "sent (ths ! 0) = ''xa'' @ [newline] @ ''lo''"
    using three_run by blast
  have "three_threads ! 0 = connection [''a'' @ [newline]]" by (simp add: three_threads_def)
  from file_replies [OF r(1) _ this r(3)] r show ?thesis by fastforce
qed

theorem file_runs_end_witness:
  "\<exists>i < 3. file_step i None (at_point (three_threads ! i)) \<lparr>contents = ''x'', owner = None, exited = False\<rparr> (three_threads ! i) \<noteq> None"
proof -
  have th: "connection [''a'' @ [newline]] \<in> set three_threads" "at_point (connection [''a'' @ [newline]]) \<noteq> F_over"
    "length three_threads = 3"
    by (simp_all add: three_threads_def connection_def)
  from file_runs_end [OF three_start _ th(1,2), of None] th(3) show ?thesis by (metis file_state.select_convs(3))
qed

end
