(* ===== verification/System_Calls.thy ===== *)
theory System_Calls
  imports Aesd_Prelude
begin

text \<open>
  Running commands: \<^verbatim>\<open>examples/systemcalls/systemcalls.c\<close>. What the operating system answers is a
  parameter \<open>os\<close>; wait statuses are the 32-bit words the macros of \<^verbatim>\<open>sys/wait.h\<close> take apart.
\<close>

unbundle bit_operations_syntax

section \<open>Wait statuses\<close>

definition WIFEXITED :: "s32 \<Rightarrow> bool" where
  "WIFEXITED status \<longleftrightarrow> status AND 0x7F = 0"

definition WEXITSTATUS :: "s32 \<Rightarrow> s32" where
  "WEXITSTATUS status = drop_bit 8 status AND 0xFF"

text \<open>The status of a process that called \<open>exit c\<close>, and of one that was aborted.\<close>

definition exit_status :: "nat \<Rightarrow> s32" where
  "exit_status c = push_bit 8 (of_nat c AND 0xFF)"

definition SIGABRT :: s32 where
  "SIGABRT = 6"

lemma mask_numerals: "0x7F = (mask 7 :: s32)" "0xFF = (mask 8 :: s32)"
  by (simp_all add: mask_eq_exp_minus_1)

lemma WIFEXITED_exit_status: "WIFEXITED (exit_status c)"
  unfolding WIFEXITED_def exit_status_def mask_numerals
  by (rule bit_eqI) (auto simp: bit_simps)

lemma WEXITSTATUS_exit_status: "WEXITSTATUS (exit_status c) = of_nat c AND 0xFF"
  unfolding WEXITSTATUS_def exit_status_def mask_numerals
  by (rule bit_eqI) (auto simp: bit_simps)

lemma not_WIFEXITED_abort: "\<not> WIFEXITED SIGABRT"
  by (simp add: WIFEXITED_def SIGABRT_def)

text \<open>The test all functions apply to the status of the child.\<close>

definition succeeded :: "s32 \<Rightarrow> bool" where
  "succeeded status \<longleftrightarrow> WIFEXITED status \<and> WEXITSTATUS status = 0"

lemma succeeded_exit:
  assumes "c < 256"
  shows "succeeded (exit_status c) \<longleftrightarrow> c = 0"
proof -
  have u: "unat (of_nat c :: s32) = c"
    by (rule unat_of_nat_small) (use assms in simp)
  have "unat (take_bit 8 (of_nat c :: s32)) = c"
    unfolding unsigned_take_bit_eq u using assms by (simp add: take_bit_nat_eq_self)
  moreover have "(of_nat c :: s32) AND 0xFF = take_bit 8 (of_nat c)"
    unfolding mask_numerals by (simp add: take_bit_eq_mask)
  ultimately have "unat (WEXITSTATUS (exit_status c)) = c"
    by (simp only: WEXITSTATUS_exit_status)
  then have "WEXITSTATUS (exit_status c) = 0 \<longleftrightarrow> c = 0"
    by (metis unat_eq_0)
  then show ?thesis
    by (simp add: succeeded_def WIFEXITED_exit_status)
qed

section \<open>The functions\<close>

text \<open>\<open>execv path args\<close> is \<open>None\<close> when the call returns, else the status the program ends with and what it
  writes to its standard output. \<open>wait_gets s\<close> is the status \<open>wait\<close> stores when the child ended with
  \<open>s\<close>, \<open>None\<close> when it stores nothing; \<open>uninit\<close> is what the variable held before.\<close>

record os =
  system :: "string option \<Rightarrow> s32"
  fork_rc :: int
  execv :: "string \<Rightarrow> string list \<Rightarrow> (s32 \<times> string) option"
  wait_gets :: "s32 \<Rightarrow> s32 option"
  uninit :: s32
  open_rc :: "string \<Rightarrow> int"
  dup2_rc :: int

definition do_system :: "os \<Rightarrow> string option \<Rightarrow> bool" where
  "do_system O_S cmd =
     (let return_value = system O_S cmd
      in if return_value = 0 then (if WIFEXITED return_value then True else False) else False)"

definition run_command :: "os \<Rightarrow> string list \<Rightarrow> (s32 \<times> string) option" where
  "run_command O_S command = (case command of [] \<Rightarrow> None | path # _ \<Rightarrow> execv O_S path command)"

definition do_exec :: "os \<Rightarrow> string list \<Rightarrow> bool" where
  "do_exec O_S command =
     (let status = uninit O_S;
          child = (case run_command O_S command of Some (s, out) \<Rightarrow> s | None \<Rightarrow> exit_status 1);
          status = (if fork_rc O_S < 0 then status
                    else case wait_gets O_S child of Some s \<Rightarrow> s | None \<Rightarrow> status)
      in WIFEXITED status \<and> WEXITSTATUS status = 0)"

text \<open>\<open>Aborted\<close> ends the calling process. The files are those the redirection writes.\<close>

datatype 'a call = Returned 'a | Aborted

definition do_exec_redirect :: "os \<Rightarrow> string \<Rightarrow> string list \<Rightarrow> (string \<rightharpoonup> string) \<Rightarrow>
    (bool \<times> (string \<rightharpoonup> string)) call" where
  "do_exec_redirect O_S outputfile command files =
     (if open_rc O_S outputfile < 0 then Aborted
      else
        (let files = files(outputfile \<mapsto> [])
         in if fork_rc O_S = - 1 then Aborted
            else
              (let (child, out) =
                     (if dup2_rc O_S < 0 then (SIGABRT, [])
                      else case run_command O_S command of Some (s, out) \<Rightarrow> (s, out) | None \<Rightarrow> (SIGABRT, []));
                   files = files(outputfile \<mapsto> out);
                   status = (case wait_gets O_S child of Some s \<Rightarrow> s | None \<Rightarrow> uninit O_S)
               in Returned (WIFEXITED status \<and> WEXITSTATUS status = 0, files))))"

text \<open>\<open>wait\<close> with no other child of the caller.\<close>

definition only_child :: "os \<Rightarrow> bool" where
  "only_child O_S \<longleftrightarrow> (\<forall>s. wait_gets O_S s = Some s)"

section \<open>Properties\<close>

text \<open>\<open>do_system\<close> is true exactly when \<open>system\<close> reports that the command exited with 0.\<close>

theorem do_system_iff:
  "do_system O_S cmd \<longleftrightarrow> system O_S cmd = exit_status 0"
proof -
  have "exit_status 0 = 0" by (simp add: exit_status_def)
  then show ?thesis by (simp add: do_system_def WIFEXITED_def)
qed

text \<open>C39: with one child and a fork that works, \<open>do_exec\<close> is true exactly when the program was started and
  exited with 0; a program that cannot be started counts as a failure. When the fork fails the answer
  is whatever the uninitialised status says, true included.\<close>

theorem do_exec_result:
  assumes "only_child O_S"
  shows "if 0 \<le> fork_rc O_S
    then do_exec O_S command \<longleftrightarrow> (\<exists>s out. run_command O_S command = Some (s, out) \<and> succeeded s)
    else do_exec O_S command \<longleftrightarrow> succeeded (uninit O_S)"
proof (cases "run_command O_S command")
  case None
  have "\<not> succeeded (exit_status 1)" by (simp add: succeeded_exit)
  with None assms show ?thesis by (simp add: do_exec_def only_child_def succeeded_def Let_def)
next
  case (Some so)
  with assms show ?thesis by (cases so) (simp add: do_exec_def only_child_def succeeded_def Let_def)
qed

definition demo_os :: os where
  "demo_os = \<lparr>system = (\<lambda>cmd. 0), fork_rc = - 1,
     execv = (\<lambda>path args. if path = ''/bin/echo'' then Some (0, concat (tl args)) else None),
     wait_gets = (\<lambda>s. Some s), uninit = 0, open_rc = (\<lambda>path. 3), dup2_rc = 1\<rparr>"

theorem do_exec_result_witness:
  "do_exec demo_os [''/bin/false''] \<and> do_exec (demo_os\<lparr>fork_rc := 7\<rparr>) [''/bin/echo'', ''x''] \<and>
   \<not> do_exec (demo_os\<lparr>fork_rc := 7\<rparr>) [''echo'', ''x'']"
  using do_exec_result [of demo_os "[''/bin/false'']"]
    do_exec_result [of "demo_os\<lparr>fork_rc := 7\<rparr>" "[''/bin/echo'', ''x'']"]
    do_exec_result [of "demo_os\<lparr>fork_rc := 7\<rparr>" "[''echo'', ''x'']"]
  by (simp add: demo_os_def only_child_def run_command_def succeeded_def WIFEXITED_def WEXITSTATUS_def)

text \<open>\<open>do_exec_redirect\<close> aborts the caller when the file cannot be opened or the fork fails; else it
  leaves exactly the program's output in the file and is true exactly when the program was started
  with its output redirected and exited with 0.\<close>

theorem do_exec_redirect_result:
  assumes "only_child O_S"
  shows "do_exec_redirect O_S outputfile command files =
    (if open_rc O_S outputfile < 0 \<or> fork_rc O_S = - 1 then Aborted
     else case (if dup2_rc O_S < 0 then None else run_command O_S command) of
            Some (s, out) \<Rightarrow> Returned (succeeded s, files(outputfile \<mapsto> out))
          | None \<Rightarrow> Returned (False, files(outputfile \<mapsto> [])))"
  using assms not_WIFEXITED_abort
  by (cases "run_command O_S command") (auto simp: do_exec_redirect_def only_child_def succeeded_def Let_def)

theorem do_exec_redirect_result_witness:
  "do_exec_redirect (demo_os\<lparr>fork_rc := 7\<rparr>) ''out'' [''/bin/echo'', ''hello''] Map.empty
     = Returned (True, [''out'' \<mapsto> ''hello''])"
  using do_exec_redirect_result [of "demo_os\<lparr>fork_rc := 7\<rparr>" "''out''" "[''/bin/echo'', ''hello'']" Map.empty]
  by (simp add: demo_os_def only_child_def run_command_def succeeded_def WIFEXITED_def WEXITSTATUS_def)

end
