(* ===== verification/Mutex_Threads.thy ===== *)
theory Mutex_Threads
  imports Aesd_Prelude
begin

text \<open>
  The threads of \<^verbatim>\<open>examples/threading/threading.c\<close> and \<^verbatim>\<open>threading.h\<close>: starting a thread that waits,
  takes a mutex, holds it and gives it back, and every interleaving of any number of them. A thread
  is the statement its function is at; a step executes that statement.
\<close>

section \<open>Data\<close>

record thread_data =
  mutex :: nat
  wait_to_obtain_ms :: int
  wait_to_release_ms :: int
  thread_complete_success :: bool

datatype at = Obtain_sleep | Lock | Release_sleep | Unlock | Set_success | Returned

record running =
  func_args :: thread_data
  at_stmt :: at

text \<open>\<open>owner m\<close> is the thread holding mutex \<open>m\<close>; \<open>lost\<close> counts thread data nobody can free any more.\<close>

record world =
  threads :: "running list"
  owner :: "nat \<rightharpoonup> nat"
  lost :: nat

section \<open>Operations\<close>

text \<open>The argument of \<open>usleep\<close>: the product is computed in \<open>int\<close>, where overflow is undefined.\<close>

definition sleep_arg :: "int \<Rightarrow> int outcome" where
  "sleep_arg ms = (if - (2 ^ 31) \<le> ms * 1000 \<and> ms * 1000 < 2 ^ 31 then Done (ms * 1000) else Fault)"

definition start_thread_obtaining_mutex ::
    "bool \<Rightarrow> int \<Rightarrow> nat \<Rightarrow> int \<Rightarrow> int \<Rightarrow> world \<Rightarrow> (bool \<times> world) outcome" where
  "start_thread_obtaining_mutex malloc_ok create_rc m obtain_ms release_ms w =
     (if \<not> malloc_ok then Fault
      else
        (let tdata = \<lparr>mutex = m, wait_to_obtain_ms = obtain_ms, wait_to_release_ms = release_ms,
                      thread_complete_success = False\<rparr>
         in if create_rc \<noteq> 0 then Done (False, w\<lparr>lost := lost w + 1\<rparr>)
            else Done (True, w\<lparr>threads := threads w @ [\<lparr>func_args = tdata, at_stmt = Obtain_sleep\<rparr>]\<rparr>)))"

text \<open>The next statement of thread \<open>i\<close>; \<open>None\<close>: it has returned, or it waits for the mutex.\<close>

definition threadfunc :: "nat \<Rightarrow> world \<Rightarrow> world outcome option" where
  "threadfunc i w =
     (let t = threads w ! i; a = func_args t;
          goto = (\<lambda>s w. w\<lparr>threads := (threads w)[i := t\<lparr>at_stmt := s\<rparr>]\<rparr>)
      in case at_stmt t of
           Obtain_sleep \<Rightarrow> Some (and_then (sleep_arg (wait_to_obtain_ms a)) (\<lambda>us. Done (goto Lock w)))
         | Lock \<Rightarrow>
             (case owner w (mutex a) of
                None \<Rightarrow> Some (Done (goto Release_sleep (w\<lparr>owner := (owner w)(mutex a \<mapsto> i)\<rparr>)))
              | Some j \<Rightarrow> None)
         | Release_sleep \<Rightarrow> Some (and_then (sleep_arg (wait_to_release_ms a)) (\<lambda>us. Done (goto Unlock w)))
         | Unlock \<Rightarrow> Some (Done (goto Set_success (w\<lparr>owner := (owner w)(mutex a := None)\<rparr>)))
         | Set_success \<Rightarrow>
             Some (Done (w\<lparr>threads := (threads w)
               [i := t\<lparr>func_args := a\<lparr>thread_complete_success := True\<rparr>, at_stmt := Returned\<rparr>]\<rparr>))
         | Returned \<Rightarrow> None)"

section \<open>Runs\<close>

inductive world_step :: "world \<Rightarrow> world \<Rightarrow> bool" where
  spawn: "start_thread_obtaining_mutex True rc m o_ms r_ms w = Done (b, w') \<Longrightarrow> world_step w w'"
| run: "i < length (threads w) \<Longrightarrow> threadfunc i w = Some (Done w') \<Longrightarrow> world_step w w'"

inductive reachable_world :: "world \<Rightarrow> bool" where
  none: "reachable_world \<lparr>threads = [], owner = Map.empty, lost = 0\<rparr>"
| more: "reachable_world w \<Longrightarrow> world_step w w' \<Longrightarrow> reachable_world w'"

definition inside :: "running \<Rightarrow> bool" where
  "inside t \<longleftrightarrow> at_stmt t \<in> {Release_sleep, Unlock}"

text \<open>A mutex is owned by exactly the thread that is between its lock and its unlock.\<close>

definition owns :: "running list \<Rightarrow> (nat \<rightharpoonup> nat) \<Rightarrow> bool" where
  "owns ts own \<longleftrightarrow> (\<forall>m i. own m = Some i \<longleftrightarrow>
     i < length ts \<and> inside (ts ! i) \<and> mutex (func_args (ts ! i)) = m)"

definition flagged :: "running list \<Rightarrow> bool" where
  "flagged ts \<longleftrightarrow> (\<forall>t \<in> set ts. thread_complete_success (func_args t) \<longleftrightarrow> at_stmt t = Returned)"

definition world_inv :: "world \<Rightarrow> bool" where
  "world_inv w \<longleftrightarrow> owns (threads w) (owner w) \<and> flagged (threads w)"

lemma ownsD: "owns ts own \<Longrightarrow>
  own m = Some i \<longleftrightarrow> i < length ts \<and> inside (ts ! i) \<and> mutex (func_args (ts ! i)) = m"
  by (simp add: owns_def)

lemma owns_same:
  assumes "owns ts own" and "inside t' = inside (ts ! i)" and "mutex (func_args t') = mutex (func_args (ts ! i))"
  shows "owns (ts[i := t']) own"
proof -
  have "inside (ts[i := t'] ! j) = inside (ts ! j)"
    "mutex (func_args (ts[i := t'] ! j)) = mutex (func_args (ts ! j))" if "j < length ts" for j
    using assms(2,3) that by (cases "j = i"; simp)+
  with assms(1) show ?thesis
    by (auto simp: owns_def)
qed

lemma owns_lock:
  assumes "owns ts own" and "i < length ts" and "mutex (func_args t') = m" and "own m = None"
    and "inside t'" and "\<not> inside (ts ! i)"
  shows "owns (ts[i := t']) (own(m \<mapsto> i))"
proof -
  have free: "\<not> (j < length ts \<and> inside (ts ! j) \<and> mutex (func_args (ts ! j)) = m)" for j
    using ownsD [OF assms(1), of m j] assms(4) by simp
  show ?thesis
    unfolding owns_def
  proof (intro allI)
    fix m' j
    show "(own(m \<mapsto> i)) m' = Some j \<longleftrightarrow> j < length (ts[i := t']) \<and> inside (ts[i := t'] ! j) \<and>
        mutex (func_args (ts[i := t'] ! j)) = m'"
    proof (cases "j = i")
      case True
      have "own m' \<noteq> Some i"
        using ownsD [OF assms(1), of m' i] assms(6) by simp
      with True assms(2,3,5) show ?thesis by auto
    next
      case False
      with ownsD [OF assms(1), of m' j] free [of j] show ?thesis by auto
    qed
  qed
qed

lemma owns_unlock:
  assumes "owns ts own" and "i < length ts" and "mutex (func_args (ts ! i)) = m"
    and "inside (ts ! i)" and "\<not> inside t'"
  shows "owns (ts[i := t']) (own(m := None))"
proof -
  have me: "own m = Some i"
    using ownsD [OF assms(1), of m i] assms(2,3,4) by simp
  show ?thesis
    unfolding owns_def
  proof (intro allI)
    fix m' j
    show "(own(m := None)) m' = Some j \<longleftrightarrow> j < length (ts[i := t']) \<and> inside (ts[i := t'] ! j) \<and>
        mutex (func_args (ts[i := t'] ! j)) = m'"
    proof (cases "j = i")
      case True
      have "m' \<noteq> m \<Longrightarrow> own m' \<noteq> Some i"
        using ownsD [OF assms(1), of m' i] assms(3) by simp
      with True assms(2,5) show ?thesis by auto
    next
      case False
      with ownsD [OF assms(1), of m' j] ownsD [OF assms(1), of m j] me show ?thesis by auto
    qed
  qed
qed

lemma flagged_update:
  "flagged ts \<Longrightarrow> thread_complete_success (func_args t') \<longleftrightarrow> at_stmt t' = Returned \<Longrightarrow> flagged (ts[i := t'])"
  unfolding flagged_def using set_update_subset_insert [of ts i t'] by blast

lemma owns_spawn: "owns ts own \<Longrightarrow> \<not> inside t \<Longrightarrow> owns (ts @ [t]) own"
  by (auto simp: owns_def nth_append less_Suc_eq)

lemma threadfunc_inv:
  assumes inv: "world_inv w" and i: "i < length (threads w)" and step: "threadfunc i w = Some (Done w')"
  shows "world_inv w'"
proof -
  have own: "owns (threads w) (owner w)" and flag: "flagged (threads w)"
    using inv by (simp_all add: world_inv_def)
  have not_set: "at_stmt (threads w ! i) \<noteq> Returned \<Longrightarrow> \<not> thread_complete_success (func_args (threads w ! i))"
    using flag nth_mem [OF i] unfolding flagged_def by blast
  note defs = threadfunc_def Let_def world_inv_def
  show ?thesis
  proof (cases "at_stmt (threads w ! i)")
    case Obtain_sleep
    then show ?thesis
      using step not_set by (auto simp: defs inside_def intro!: owns_same [OF own] flagged_update [OF flag])
  next
    case Lock
    then show ?thesis
      using step not_set i
      by (auto simp: defs inside_def split: option.splits intro!: owns_lock [OF own] flagged_update [OF flag])
  next
    case Release_sleep
    then show ?thesis
      using step not_set by (auto simp: defs inside_def intro!: owns_same [OF own] flagged_update [OF flag])
  next
    case Unlock
    then show ?thesis
      using step not_set i by (auto simp: defs inside_def intro!: owns_unlock [OF own] flagged_update [OF flag])
  next
    case Set_success
    then show ?thesis
      using step by (auto simp: defs inside_def intro!: owns_same [OF own] flagged_update [OF flag])
  next
    case Returned
    with step show ?thesis by (simp add: threadfunc_def Let_def)
  qed
qed

lemma reachable_world_inv: "reachable_world w \<Longrightarrow> world_inv w"
proof (induction rule: reachable_world.induct)
  case none
  then show ?case by (simp add: world_inv_def owns_def flagged_def)
next
  case (more w w')
  from more.hyps(2) show ?case
  proof cases
    case (spawn rc m o_ms r_ms b)
    with more.IH show ?thesis
      by (auto simp: start_thread_obtaining_mutex_def world_inv_def flagged_def inside_def Let_def
          intro!: owns_spawn split: if_splits)
  next
    case (run i)
    with more.IH threadfunc_inv show ?thesis by blast
  qed
qed

section \<open>Every schedule ends well\<close>

fun left :: "at \<Rightarrow> nat" where
  "left Obtain_sleep = 5"
| "left Lock = 4"
| "left Release_sleep = 3"
| "left Unlock = 2"
| "left Set_success = 1"
| "left Returned = 0"

definition work :: "world \<Rightarrow> nat" where
  "work w = sum_list (map (\<lambda>t. left (at_stmt t)) (threads w))"

definition sane :: "world \<Rightarrow> bool" where
  "sane w \<longleftrightarrow> (\<forall>t \<in> set (threads w). sleep_arg (wait_to_obtain_ms (func_args t)) \<noteq> Fault \<and>
     sleep_arg (wait_to_release_ms (func_args t)) \<noteq> Fault)"

text \<open>One scheduled thread after another; \<open>None\<close> when a scheduled thread cannot go on.\<close>

fun schedule :: "nat list \<Rightarrow> world \<Rightarrow> world outcome option" where
  "schedule [] w = Some (Done w)"
| "schedule (i # is) w =
     (if i < length (threads w) then
        (case threadfunc i w of
           None \<Rightarrow> None
         | Some (Done w) \<Rightarrow> schedule is w
         | Some Fault \<Rightarrow> Some Fault | Some Hang \<Rightarrow> Some Hang)
      else None)"

lemma sum_list_update_eq:
  "i < length (xs :: nat list) \<Longrightarrow> sum_list (xs[i := x]) + xs ! i = sum_list xs + x"
  by (induction xs arbitrary: i) (auto split: nat.split)

lemma work_update:
  "i < length ts \<Longrightarrow> sum_list (map (\<lambda>t. left (at_stmt t)) (ts[i := t'])) + left (at_stmt (ts ! i))
     = sum_list (map (\<lambda>t. left (at_stmt t)) ts) + left (at_stmt t')"
  using sum_list_update_eq [of i "map (\<lambda>t. left (at_stmt t)) ts" "left (at_stmt t')"]
  by (simp add: map_update)

lemma sleep_cases: "sleep_arg ms = Fault \<or> (\<exists>us. sleep_arg ms = Done us)"
  by (simp add: sleep_arg_def)

lemma threadfunc_work:
  assumes i: "i < length (threads w)" and step: "threadfunc i w = Some (Done w')"
  shows "work w' + 1 = work w" "length (threads w') = length (threads w)"
proof -
  have "\<exists>t' own. w' = w\<lparr>threads := (threads w)[i := t'], owner := own\<rparr> \<and>
      left (at_stmt t') + 1 = left (at_stmt (threads w ! i))"
    using step
    by (cases "at_stmt (threads w ! i)"; cases w)
      (auto simp: threadfunc_def Let_def split: option.splits; metis at.exhaust left.simps running.select_convs(2))+
  then obtain t' own where w': "w' = w\<lparr>threads := (threads w)[i := t'], owner := own\<rparr>"
    "left (at_stmt t') + 1 = left (at_stmt (threads w ! i))" by blast
  then show "work w' + 1 = work w"
    using work_update [OF i, of t'] by (simp add: work_def)
  show "length (threads w') = length (threads w)" by (simp add: w')
qed

lemma threadfunc_shape:
  assumes "threadfunc i w = Some (Done w')"
  shows "\<exists>t'. threads w' = (threads w)[i := t'] \<and>
    wait_to_obtain_ms (func_args t') = wait_to_obtain_ms (func_args (threads w ! i)) \<and>
    wait_to_release_ms (func_args t') = wait_to_release_ms (func_args (threads w ! i))"
proof (cases "at_stmt (threads w ! i)")
  case Set_success
  with assms have "threads w' = (threads w)[i := (threads w ! i)\<lparr>func_args := (func_args (threads w ! i))
      \<lparr>thread_complete_success := True\<rparr>, at_stmt := Returned\<rparr>]"
    by (auto simp: threadfunc_def Let_def)
  then show ?thesis by (intro exI conjI, assumption) simp_all
next
  case Lock
  with assms have "threads w' = (threads w)[i := (threads w ! i)\<lparr>at_stmt := Release_sleep\<rparr>]"
    by (auto simp: threadfunc_def Let_def split: option.splits)
  then show ?thesis by (intro exI conjI, assumption) simp_all
next
  case Obtain_sleep
  with assms have "threads w' = (threads w)[i := (threads w ! i)\<lparr>at_stmt := Lock\<rparr>]"
    by (auto simp: threadfunc_def Let_def)
  then show ?thesis by (intro exI conjI, assumption) simp_all
next
  case Release_sleep
  with assms have "threads w' = (threads w)[i := (threads w ! i)\<lparr>at_stmt := Unlock\<rparr>]"
    by (auto simp: threadfunc_def Let_def)
  then show ?thesis by (intro exI conjI, assumption) simp_all
next
  case Unlock
  with assms have "threads w' = (threads w)[i := (threads w ! i)\<lparr>at_stmt := Set_success\<rparr>]"
    by (auto simp: threadfunc_def Let_def)
  then show ?thesis by (intro exI conjI, assumption) simp_all
qed (use assms in \<open>simp add: threadfunc_def Let_def\<close>)

lemma threadfunc_sane:
  assumes sane: "sane w" and i: "i < length (threads w)"
  shows "threadfunc i w = None \<or> (\<exists>w'. threadfunc i w = Some (Done w') \<and> sane w')"
proof -
  obtain us1 us2 where us: "sleep_arg (wait_to_obtain_ms (func_args (threads w ! i))) = Done us1"
    "sleep_arg (wait_to_release_ms (func_args (threads w ! i))) = Done us2"
    using sane nth_mem [OF i] sleep_cases unfolding sane_def by metis
  then have "threadfunc i w = None \<or> (\<exists>w'. threadfunc i w = Some (Done w'))"
    by (cases "at_stmt (threads w ! i)") (auto simp: threadfunc_def Let_def split: option.split)
  moreover have "sane w'" if stepped: "threadfunc i w = Some (Done w')" for w'
  proof -
    obtain t' where t': "threads w' = (threads w)[i := t']"
      "wait_to_obtain_ms (func_args t') = wait_to_obtain_ms (func_args (threads w ! i))"
      "wait_to_release_ms (func_args t') = wait_to_release_ms (func_args (threads w ! i))"
      using threadfunc_shape [OF stepped] by blast
    have "t = t' \<or> t \<in> set (threads w)" if "t \<in> set (threads w')" for t
      using that set_update_subset_insert [of "threads w" i t'] by (auto simp: t'(1))
    moreover have "sleep_arg (wait_to_obtain_ms (func_args t')) \<noteq> Fault"
      "sleep_arg (wait_to_release_ms (func_args t')) \<noteq> Fault"
      by (simp_all add: t'(2,3) us)
    ultimately show ?thesis
      using sane unfolding sane_def by blast
  qed
  ultimately show ?thesis by blast
qed

text \<open>A thread at its lock waits only for a thread that can go on.\<close>

lemma some_thread_steps:
  assumes inv: "world_inv w" and sane: "sane w" and i: "i < length (threads w)"
    and "at_stmt (threads w ! i) \<noteq> Returned"
  shows "\<exists>j w'. j < length (threads w) \<and> threadfunc j w = Some (Done w')"
proof -
  have own: "owns (threads w) (owner w)" using inv by (simp add: world_inv_def)
  have go: "\<exists>w'. threadfunc k w = Some (Done w')"
    if "k < length (threads w)" "at_stmt (threads w ! k) \<noteq> Returned"
      "at_stmt (threads w ! k) = Lock \<longrightarrow> owner w (mutex (func_args (threads w ! k))) = None" for k
    using threadfunc_sane [OF sane that(1)] that(2,3)
    by (cases "at_stmt (threads w ! k)") (auto simp: threadfunc_def Let_def)
  show ?thesis
  proof (cases "at_stmt (threads w ! i) = Lock \<longrightarrow> owner w (mutex (func_args (threads w ! i))) = None")
    case True
    with go [OF i assms(4)] i show ?thesis by blast
  next
    case False
    then obtain j where "owner w (mutex (func_args (threads w ! i))) = Some j" by auto
    then have j: "j < length (threads w)" "inside (threads w ! j)"
      using ownsD [OF own] by blast+
    then have "at_stmt (threads w ! j) \<noteq> Returned" "at_stmt (threads w ! j) \<noteq> Lock"
      by (auto simp: inside_def)
    with go [OF j(1)] j(1) show ?thesis by blast
  qed
qed

lemma schedule_ok:
  "world_inv w \<Longrightarrow> sane w \<Longrightarrow> schedule is w = Some r \<Longrightarrow>
    \<exists>w'. r = Done w' \<and> world_inv w' \<and> sane w' \<and> work w' + length is = work w \<and>
      length (threads w') = length (threads w)"
proof (induction "is" arbitrary: w)
  case (Cons i "is")
  then have i: "i < length (threads w)" by (simp split: if_splits)
  from threadfunc_sane [OF Cons.prems(2) i] obtain w1 where w1: "threadfunc i w = Some (Done w1)" "sane w1"
    using Cons.prems(3) i by auto
  have "world_inv w1" using threadfunc_inv [OF Cons.prems(1) i w1(1)] .
  from Cons.IH [OF this w1(2)] Cons.prems(3) threadfunc_work [OF i w1(1)] i w1(1) show ?case
    by auto
qed auto

section \<open>Properties\<close>

text \<open>C34: in every interleaving of any number of threads at most one thread is between the lock and the
  unlock of a mutex, and a thread reports success exactly when it has returned.\<close>

theorem mutual_exclusion:
  assumes "reachable_world w" and "i < length (threads w)" and "j < length (threads w)"
    and "inside (threads w ! i)" and "inside (threads w ! j)"
    and "mutex (func_args (threads w ! i)) = mutex (func_args (threads w ! j))"
  shows "i = j \<and> \<not> thread_complete_success (func_args (threads w ! i))"
proof -
  have inv: "owns (threads w) (owner w)" "flagged (threads w)"
    using reachable_world_inv [OF assms(1)] by (simp_all add: world_inv_def)
  have "owner w (mutex (func_args (threads w ! i))) = Some i"
    "owner w (mutex (func_args (threads w ! i))) = Some j"
    using ownsD [OF inv(1)] assms(2-6) by simp_all
  moreover have "at_stmt (threads w ! i) \<noteq> Returned"
    using assms(4) by (auto simp: inside_def)
  then have "\<not> thread_complete_success (func_args (threads w ! i))"
    using inv(2) nth_mem [OF assms(2)] unfolding flagged_def by blast
  ultimately show ?thesis by simp
qed

text \<open>C33: whatever the scheduler does, threads whose delays fit an \<open>int\<close> of microseconds finish: no schedule
  faults, each executes at most the statements that are left, and one that can no longer be
  extended has every thread returned with success and every mutex free.\<close>

theorem every_schedule_finishes:
  assumes "reachable_world w" and "sane w" and "schedule is w = Some r"
  shows "\<exists>w'. r = Done w' \<and> length is \<le> work w \<and>
    ((\<forall>i. schedule (is @ [i]) w = None) \<longrightarrow>
      (\<forall>t \<in> set (threads w'). at_stmt t = Returned \<and> thread_complete_success (func_args t)) \<and>
      owner w' = Map.empty)"
proof -
  obtain w' where w': "r = Done w'" "world_inv w'" "sane w'" "work w' + length is = work w"
    using schedule_ok [OF reachable_world_inv [OF assms(1)] assms(2,3)] by blast
  have app: "schedule is w = Some (Done w') \<Longrightarrow> schedule (is @ [i]) w = schedule [i] w'" for i
    by (induction "is" arbitrary: w) (auto split: if_splits option.splits outcome.splits)
  have "\<forall>t \<in> set (threads w'). at_stmt t = Returned" if "\<forall>i. schedule (is @ [i]) w = None"
  proof (rule ccontr)
    assume "\<not> (\<forall>t \<in> set (threads w'). at_stmt t = Returned)"
    then obtain i where "i < length (threads w')" "at_stmt (threads w' ! i) \<noteq> Returned"
      by (auto simp: in_set_conv_nth)
    then obtain j w2 where "j < length (threads w')" "threadfunc j w' = Some (Done w2)"
      using some_thread_steps [OF w'(2,3)] by blast
    then have "schedule [j] w' \<noteq> None" by simp
    then have "schedule (is @ [j]) w \<noteq> None"
      using app assms(3) w'(1) by simp
    with that show False by simp
  qed
  moreover have "owner w' = Map.empty" if "\<forall>t \<in> set (threads w'). at_stmt t = Returned"
  proof
    fix m show "owner w' m = None"
    proof (cases "owner w' m")
      case (Some i)
      then have "i < length (threads w')" "inside (threads w' ! i)"
        using w'(2) unfolding world_inv_def owns_def by blast+
      with that show ?thesis by (auto simp: inside_def)
    qed
  qed
  ultimately show ?thesis
    using w' unfolding world_inv_def flagged_def by auto
qed

definition one_thread :: world where
  "one_thread = \<lparr>threads = [\<lparr>func_args = \<lparr>mutex = 0, wait_to_obtain_ms = 1, wait_to_release_ms = 2,
     thread_complete_success = False\<rparr>, at_stmt = Obtain_sleep\<rparr>], owner = Map.empty, lost = 0\<rparr>"

lemma one_thread_reachable: "reachable_world one_thread"
proof -
  have "world_step \<lparr>threads = [], owner = Map.empty, lost = 0\<rparr> one_thread"
    by (rule world_step.spawn [of 0 0 1 2 _ True])
      (simp add: start_thread_obtaining_mutex_def one_thread_def)
  then show ?thesis
    using reachable_world.intros by blast
qed

lemma one_thread_sane: "sane one_thread"
  by (simp add: sane_def one_thread_def sleep_arg_def)

definition one_holding :: world where
  "one_holding = \<lparr>threads = [\<lparr>func_args = \<lparr>mutex = 0, wait_to_obtain_ms = 1, wait_to_release_ms = 2,
     thread_complete_success = False\<rparr>, at_stmt = Release_sleep\<rparr>], owner = [0 \<mapsto> 0], lost = 0\<rparr>"

lemma one_holding_reachable: "reachable_world one_holding"
proof -
  obtain w1 where w1: "threadfunc 0 one_thread = Some (Done w1)" "threadfunc 0 w1 = Some (Done one_holding)"
    "length (threads w1) = 1"
    by (simp add: threadfunc_def one_thread_def one_holding_def sleep_arg_def)
  then have "world_step one_thread w1" "world_step w1 one_holding"
    by (auto intro!: world_step.run [of 0] simp: one_thread_def)
  then show ?thesis
    using one_thread_reachable reachable_world.more by blast
qed

theorem mutual_exclusion_witness:
  "\<not> thread_complete_success (func_args (threads one_holding ! 0))"
  using mutual_exclusion [OF one_holding_reachable, of 0 0] by (simp add: one_holding_def inside_def)

theorem every_schedule_finishes_witness:
  "\<exists>w'. schedule [0, 0] one_thread = Some (Done w') \<and> length [0, 0 :: nat] \<le> work one_thread"
proof -
  have "schedule [0, 0] one_thread = Some (Done one_holding)"
    by (simp add: threadfunc_def one_thread_def one_holding_def sleep_arg_def)
  from every_schedule_finishes [OF one_thread_reachable one_thread_sane this] this show ?thesis by blast
qed

end
