(* ===== verification/File_Writer.thy ===== *)
theory File_Writer
  imports Aesd_Prelude
begin

text \<open>
  The command \<^verbatim>\<open>finder-app/writer.c\<close> and the functions of \<^verbatim>\<open>examples/autotest-validate\<close> with the student
  test on them. The answers of the C library are a parameter; a stream keeps what it has not
  written yet.
\<close>

section \<open>The writer\<close>

text \<open>\<open>basename_left p\<close> is what \<open>basename\<close> leaves in its argument, \<open>fopen_ok\<close> whether the file can be
  created, \<open>bufsize\<close> the size of the stream's buffer and \<open>disk s\<close> how much of a write of \<open>s\<close> reaches the
  file: all of it when the write succeeds.\<close>

record writer_env =
  basename_left :: "string \<Rightarrow> string"
  fopen_ok :: "string \<Rightarrow> bool"
  bufsize :: nat
  disk :: "string \<Rightarrow> string"

record stream =
  written :: string
  buffered :: string
  err :: bool

text \<open>\<open>fputs\<close> keeps a string that fits the buffer and writes a longer one out.\<close>

definition c_fputs_buf :: "writer_env \<Rightarrow> string \<Rightarrow> stream \<Rightarrow> stream" where
  "c_fputs_buf env s f =
     (let b = buffered f @ s
      in if length b \<le> bufsize env then f\<lparr>buffered := b\<rparr>
         else f\<lparr>written := written f @ disk env b, buffered := [], err := err f \<or> disk env b \<noteq> b\<rparr>)"

definition c_fclose :: "writer_env \<Rightarrow> stream \<Rightarrow> bool \<times> string" where
  "c_fclose env f =
     (let b = buffered f in (b = [] \<or> disk env b = b, if b = [] then written f else written f @ disk env b))"

text \<open>A run ends by returning or by \<open>exit\<close>; both carry the files.\<close>

datatype finish = Finished "string \<rightharpoonup> string" | Exited int "string \<rightharpoonup> string"

definition createFile :: "writer_env \<Rightarrow> string \<Rightarrow> string \<Rightarrow> (string \<rightharpoonup> string) \<Rightarrow> finish" where
  "createFile env writefile writestr files =
     (let writefile = basename_left env writefile
      in if \<not> fopen_ok env writefile then Exited 1 files
         else
           (let fp = c_fputs_buf env writestr \<lparr>written = [], buffered = [], err = False\<rparr>
            in if err fp then Exited 1 (files(writefile \<mapsto> snd (c_fclose env fp)))
               else (let (ok, text) = c_fclose env fp in Finished (files(writefile \<mapsto> text)))))"

definition writer_main :: "writer_env \<Rightarrow> string list \<Rightarrow> (string \<rightharpoonup> string) \<Rightarrow> int \<times> (string \<rightharpoonup> string)" where
  "writer_main env argv files =
     (if length argv \<noteq> 3 then (1, files)
      else case createFile env (argv ! 1) (argv ! 2) files of
             Exited c files \<Rightarrow> (c, files)
           | Finished files \<Rightarrow> (0, files))"


text \<open>When the disk takes everything the file holds exactly the string.\<close>

lemma writer_whole:
  assumes "\<And>s. disk env s = s"
  shows "writer_main env argv files =
    (if length argv = 3 \<and> fopen_ok env (basename_left env (argv ! 1))
     then (0, files(basename_left env (argv ! 1) \<mapsto> argv ! 2)) else (1, files))"
  using assms by (simp add: writer_main_def createFile_def c_fputs_buf_def c_fclose_def Let_def)

definition good_env :: writer_env where
  "good_env = \<lparr>basename_left = (\<lambda>p. p), fopen_ok = (\<lambda>p. True), bufsize = 4096, disk = (\<lambda>s. s)\<rparr>"

text \<open>A write error is noticed only for a string longer than the stream's buffer: a shorter one is written
  by \<open>fclose\<close>, whose result is ignored, and \<open>writer\<close> returns 0 whatever reached the file.\<close>

theorem writer_misses_errors:
  assumes "fopen_ok env (basename_left env path)" and "disk env str \<noteq> str" and "str \<noteq> []"
  shows "writer_main env [prog, path, str] files =
    (if length str \<le> bufsize env then 0 else 1, files(basename_left env path \<mapsto> disk env str))"
  using assms by (simp add: writer_main_def createFile_def c_fputs_buf_def c_fclose_def Let_def)

theorem writer_misses_errors_witness:
  "writer_main (good_env\<lparr>disk := \<lambda>s. []\<rparr>) [''writer'', ''/tmp/f'', ''text''] Map.empty = (0, [''/tmp/f'' \<mapsto> []])"
  using writer_misses_errors [of "good_env\<lparr>disk := \<lambda>s. []\<rparr>" "''/tmp/f''" "''text''" "''writer''" Map.empty]
  by (simp add: good_env_def)

section \<open>The autotest functions\<close>

definition this_function_returns_true :: bool where
  "this_function_returns_true = True"

definition this_function_returns_false :: bool where
  "this_function_returns_false = False"

definition my_username :: "string option" where
  "my_username = Some ''renkh''"

text \<open>The demonstration program: what it prints, and its status, which is 0 as \<open>main\<close> ends without a \<open>return\<close>.
  \<open>git_username\<close> is defined beside it and used by nothing.\<close>

definition git_username :: string where
  "git_username = ''akshita-bhasin''"

definition autotest_main :: "string list \<Rightarrow> string \<times> int" where
  "autotest_main argv =
     (let returned = (\<lambda>b. if b then ''true'' else ''false'')
      in (''this_function_returns_true returned '' @ returned this_function_returns_true @ [newline] @
          ''this_function_returns_false returned '' @ returned this_function_returns_false @ [newline], 0))"

lemma autotest_main_prints:
  "autotest_main argv =
     (''this_function_returns_true returned true'' @ [newline] @ ''this_function_returns_false returned false'' @ [newline], 0)"
  by (simp add: autotest_main_def this_function_returns_true_def this_function_returns_false_def)

text \<open>The assertion tests a pointer for truth; the string of the configuration file is only its message.\<close>

definition TEST_ASSERT_TRUE_MESSAGE :: "string option \<Rightarrow> string option \<Rightarrow> bool" where
  "TEST_ASSERT_TRUE_MESSAGE condition message \<longleftrightarrow> condition \<noteq> None"

definition test_validate_my_username :: "string option \<Rightarrow> bool" where
  "test_validate_my_username conf_username = TEST_ASSERT_TRUE_MESSAGE my_username conf_username"

text \<open>The username test passes for every content of the configuration file, so it does not compare the two
  names.\<close>

theorem username_test_vacuous:
  "test_validate_my_username conf_username"
  by (simp add: test_validate_my_username_def TEST_ASSERT_TRUE_MESSAGE_def my_username_def)

end
