(* ===== verification/Spec2Isabelle.thy ===== *)
theory Spec2Isabelle
  imports Ring_Properties Driver_Properties Handler_Properties Server_Properties Queue_Properties Debug_Properties Concurrent_Properties
    System_Properties Concurrent_Files System_Calls Mutex_Threads
    File_Writer
begin

text \<open>
  A verification library for the programs of this repository: a Linux character driver that keeps
  the last ten write commands (\<^verbatim>\<open>aesd-char-driver\<close>), the socket server in front of it (\<^verbatim>\<open>server\<close>), and the
  smaller programs beside them (\<^verbatim>\<open>examples\<close>, \<^verbatim>\<open>finder-app\<close>).

  How the parts interact. A client sends a line to the server; the server writes it to the device
  (or issues the seek \<^verbatim>\<open>ioctl\<close>), then reads the device to its end and sends everything back. The
  driver collects writes in a pending entry until one holds a newline and then moves the entry into
  the ring of ten; reads, seeks and the ioctl look positions up in the ring.

  Theories, in the order of import.

  \<^item> \<open>Aesd_Prelude\<close>: machine words of the LP64 targets, \<open>outcome\<close> (\<open>Done\<close>, \<open>Fault\<close> for an access outside live
    memory, \<open>Hang\<close> for a loop without end), the bounded history \<open>lastn\<close>, facts on lists and words.
  \<^item> \<open>Circular_Buffer\<close>: \<^verbatim>\<open>aesd-circular-buffer.c\<close> and \<^verbatim>\<open>.h\<close>. The record has the structure's fields; \<open>uint8_t\<close>
    fields are \<open>8 word\<close>, \<open>size_t\<close> is \<open>64 word\<close>. The search loop has no evident measure (it resets its index), so
    it is a \<open>partial_function (option)\<close> and \<open>None\<close> means that it never returns. \<open>ring_cmds\<close> is the list the ring
    stands for, \<open>rb_inv\<close> its invariant. The locales \<open>command_ring\<close> and \<open>seekable_ring\<close> state what the driver
    relies on; \<open>ring\<close> interprets them on the code's functions.
  \<^item> \<open>Kernel_Api\<close>: the kernel heap, and the kernel's services as the fields of a record \<open>kernel\<close>, each with the
    law its documentation gives (\<open>krealloc_law\<close>, \<open>copy_to_user_law\<close>, \<open>lock_law\<close>, \<open>llseek_law\<close>, ...).
  \<^item> \<open>Char_Driver\<close>: \<^verbatim>\<open>main.c\<close>, every file operation and \<open>aesd_init_module\<close>, \<open>aesd_cleanup_module\<close>. The mutex is a
    boolean; a handler takes it, does its work and gives it back, all in one definition.
  \<^item> \<open>Driver_Refinement\<close>, \<open>Driver_Handlers\<close>, \<open>Driver_System\<close>: the abstract device, the simulation of the write
    handler, the results of the others, loading and unloading, and all histories of calls.
  \<^item> \<open>Handler_Steps\<close>: the same handlers statement by statement (\<open>handler_stmt\<close>), in any number of threads whose
    statements alternate in any way (\<open>system\<close>): the mutex is what makes a call of \<open>Char_Driver\<close> atomic. \<open>rest\<close> is what
    a handler still has to do at a statement, \<open>serial\<close> runs whole calls in a row, \<open>stmts_left\<close> bounds the statements
    up to the unlock.
  \<^item> \<open>Reference_Kernel\<close>: one executable kernel that obeys every law, and the module loaded in it, and a device with
    any ten commands (\<open>ten_dev\<close>).
  \<^item> \<open>Ring_Properties\<close>, \<open>Driver_Properties\<close>, \<open>Handler_Properties\<close>: the properties of the ring, of whole handler calls
    and of their interleaved statements, with their instances.
  \<^item> \<open>Slist_Queue\<close>: the singly linked lists of \<^verbatim>\<open>server/queue.h\<close> on a heap of nodes. \<open>slist m p xs\<close> says that
    pointer \<open>p\<close> stands for the nodes \<open>xs\<close>; the locale \<open>node_list\<close> is the interface, interpreted as \<open>slist\<close>.
  \<^item> \<open>Queue_Links\<close>: what the four kinds of queue of \<^verbatim>\<open>queue.h\<close> share. A second link is the address of a pointer
    field (\<open>qlink\<close>); \<open>chain\<close> and \<open>backs\<close> read elements off a memory; \<open>queue_spec\<close> is the effect of each macro on
    the lists of several queues (\<open>represents\<close>). The locale \<open>queue_kind\<close> is the contract of a kind, macro by macro,
    and proves that sequences of calls refine \<open>queue_spec\<close>; \<open>walked_queue\<close> and \<open>back_queue\<close> extend it by the
    iterations in one and both directions.
  \<^item> \<open>Slist_Macros\<close>, \<open>Stailq_Queue\<close>, \<open>List_Queue\<close>, \<open>Tailq_Queue\<close>: the four kinds, one definition per macro, and the
    interpretation of the contract (\<open>slistq\<close>, \<open>stailq\<close>, \<open>listq\<close>, \<open>tailq\<close>).
  \<^item> \<open>Queue_Properties\<close>: their properties.
  \<^item> \<open>Queue_Debug\<close>, \<open>Queue_Traces\<close>, \<open>Debug_Properties\<close>: the build with \<^verbatim>\<open>QUEUE_MACRO_DEBUG\<close>. Removals trash the links of the
    removed element (\<open>SLIST_REMOVE_debug\<close> and the like), and tail queues carry traces beside their memory (\<open>traced\<close>,
    \<open>TAILQ_debug\<close>). The locales \<open>trashed_queue\<close> and \<open>debug_queue\<close> say what the two builds of a kind promise; \<open>last_two\<close>
    is what a trace holds. As the files of a program are built alike, a memory has traces for all tail queues or none.
  \<^item> \<open>Connection_List\<close>: the connection nodes of \<^verbatim>\<open>server/aesdsocket.c\<close>, the accept loop with its reaping pass,
    start-up and the signal handler.
  \<^item> \<open>Signal_Points\<close>: the same loop statement by statement, with the signal handler at any of its points and
    the threads finishing at any time (\<open>loop_reach\<close>, invariant \<open>point_inv\<close>).
  \<^item> \<open>Signal_Handler\<close>: the handler statement by statement (\<open>sig_stmt\<close>), waiting for threads to complete
    (\<open>handling\<close>, \<open>blocked\<close>), and in one piece (\<open>exit_handler\<close>), which is also the second signal's.
  \<^item> \<open>C_Strings\<close>: the C library's string functions the server uses, on blocks with their allocated length.
  \<^item> \<open>Socket_Server\<close>: \<open>receive_data\<close>, \<open>appendToFile\<close>, \<open>send_all\<close>, \<open>openFile\<close> and the timer thread, over a record
    \<open>dev_ops\<close> of the system calls on the opened file; the locale \<open>line_device\<close> states what the server relies on.
  \<^item> \<open>Device_Server\<close>: that interface interpreted on the character driver's handlers and on the data file.
  \<^item> \<open>Server_Properties\<close>: the properties of the server, across driver and server where they meet.
  \<^item> \<open>Concurrent_Clients\<close>, \<open>Concurrent_Properties\<close>: several threads in \<open>receive_data\<close> against one device, with lines and seek
    commands, the relation \<open>interleaved\<close> letting any of them make its next system call. \<open>answered\<close> says what a
    reply is made of in terms of the content after each of the writes (\<open>log_at\<close>).
  \<^item> \<open>Client_Statements\<close>, \<open>System_Properties\<close>: the same threads with every system call run through the statements of
    \<open>Handler_Steps\<close>, those of all threads alternating (\<open>statement_system\<close>); a thread's next call and the effect of
    its result are \<open>client_syscall\<close> and \<open>client_result\<close>. \<open>simulates\<close> relates this to \<open>interleaved\<close>, a call counting from
    the statement that gives the mutex back.
  \<^item> \<open>Concurrent_Files\<close>: the build for the data file: connections and the timer thread under the global mutex, step
    by step (\<open>file_step\<close>, \<open>file_system\<close>), with its properties. An argument of a step is the answer of \<^verbatim>\<open>fopen\<close> or \<^verbatim>\<open>write\<close>;
    a failure leads to \<^verbatim>\<open>exit\<close>, after which nothing runs (\<open>exited\<close>).
  \<^item> \<open>System_Calls\<close>, \<open>Mutex_Threads\<close>, \<open>File_Writer\<close>: \<^verbatim>\<open>systemcalls.c\<close>, \<^verbatim>\<open>threading.c\<close> in every interleaving, and
    \<^verbatim>\<open>writer.c\<close> with the autotest functions.

  What the properties show, by group.

  \<^item> Ring: insertion keeps the last ten entries, the search is correct and terminates, the byte counter wraps.
  \<^item> Driver: writes refine the append to an abstract log; reads deliver its content; every reachable state is
    such a log; the results of every seek; what is leaked and what faults; loading and unloading balance. The
    interleaved statements of concurrent handlers amount to whole calls in the order of their locks, and a
    taken mutex is given back unless a write gets no memory.
  \<^item> Server: the receiving loop is equivalent to cutting a line from the stream; a client gets the
    device's content back, or after a seek command on a ring that has not wrapped the command it names and what
    follows; the connection list is safe under every order of events, and a signal at any point of the loop is
    handled but at two points and after a failed \<^verbatim>\<open>pthread_create\<close>; the handler gets to
    its exit as the threads complete, and the other signal may interrupt it but at two kinds of points. The
    calls of one client in a row are what serving its line is. With the calls of several clients interleaved, a
    reply consists of consecutive pieces, each of the content of its own moment; as long as nothing is evicted
    that is the content of one moment after the client's write. Every request ends. A write that evicts during a
    reply makes it skip a command, and lines longer than the stream's buffer can be mixed. All of this carries
    over to the statements: where no call is under way the threads are in exactly the states that atomic calls
    reach, and the mutex of the driver brings no deadlock, but for a write that goes on with the NULL of
    \<open>krealloc\<close>. In the build for the data file the mutex keeps lines and time stamps whole, also
    when a write fails and the process exits, and no run gets stuck.
  \<^item> Queues: on any number of queues in one memory every sequence of macro calls that keeps the caller's
    side of the contract does what the list operations say; the iterations visit the elements in order and in
    reverse and may remove them; the kernel's checks hold, and those of \<^verbatim>\<open>LIST\<close> miss
    nothing. The debug build refines the same operations, its traces hold the last two recorded places, and its
    trashed links make a loop fault that goes on from an element it has removed, which the plain build lets
    pass.
  \<^item> Small programs: results of the command functions, mutual exclusion and termination of the threads, what
    the writer leaves in the file.

  Bounds and fuel. Handlers are taken for counts below 2^31, the largest count the kernel passes on;
  live blocks are shorter than 2^31 bytes. \<open>read_until_eof\<close> takes one unit of fuel per call; a fuel above
  the number of bytes left is enough, because each call before the last delivers at least one byte.
  \<open>calls_left\<close> bounds the calls of a client by the size of the address space, since no content is longer;
  \<open>sig_left\<close> counts four statements of the handler for each running thread, and \<open>steps_to_end\<close> takes a bound of
  the length the data file will have, as what is left to write is known.

  Not modelled. In \<^verbatim>\<open>queue.h\<close> the C++ variants; debug and log output; scripts and build files; a signal
  handled on another thread than the main one, to which Linux delivers the signals of the process as it
  does not block them; what happens to the server's heap when a handler interrupts \<^verbatim>\<open>malloc\<close> or \<^verbatim>\<open>printf\<close>.
  Memory contents the code leaves undefined are parameters.
\<close>

end
